(* ===== verification/Prelude.thy ===== *)
theory Prelude
  imports Main "HOL-Library.Word"
begin

text \<open>
  Shared vocabulary of the development: the C library functions on strings the sources call
  (\<open>strcmp\<close>, \<open>strcspn\<close>, \<open>strspn\<close>), truncating division, the comparator
  interface that the ordered containers rely on, the lemma collections, and the generic list
  facts the components share.

  A C string is a \<^typ>\<open>string\<close> that holds the bytes before the terminating NUL.  A nullable
  pointer to a string is a \<^typ>\<open>string option\<close>.  An \<open>int64_t\<close> that only ever holds
  seconds, counters or indexes far from its limits is an \<^typ>\<open>int\<close>; where wrap-around or
  truncation of a machine word matters the components use \<open>'n word\<close>.
\<close>

unbundle bit_operations_syntax

named_theorems cmp_simps \<open>sign rules of comparators\<close>
named_theorems wheel_frame \<open>fields and nodes a wheel operation leaves alone\<close>
named_theorems rb_simps \<open>unfolding rules of the red-black operations\<close>

section \<open>Comparators\<close>

text \<open>
  What the binary search tree requires of the function that orders its keys: the sign of
  \<open>cmp x y\<close> is a total preorder.  Every comparison function of the sources
  (\<open>strcmp\<close>, \<open>labels_cmp\<close>) is shown to meet it, and the tree lemmas are proved
  from these laws alone.
\<close>

locale comparator =
  fixes cmp :: "'k \<Rightarrow> 'k \<Rightarrow> int"
  assumes cmp_swap: "sgn (cmp x y) = - sgn (cmp y x)"
    and cmp_trans: "cmp x y \<le> 0 \<Longrightarrow> cmp y z \<le> 0 \<Longrightarrow> cmp x z \<le> 0"
begin

lemma cmp_refl: "cmp x x = 0"
  using cmp_swap [of x x] by (simp add: sgn_if split: if_splits)

lemma cmp_gt_iff: "cmp x y > 0 \<longleftrightarrow> cmp y x < 0"
  using cmp_swap [of x y] by (auto simp: sgn_if split: if_splits)

lemma cmp_eq_sym: "cmp x y = 0 \<longleftrightarrow> cmp y x = 0"
  using cmp_swap [of x y] by (auto simp: sgn_if split: if_splits)

lemma cmp_le_iff: "cmp x y \<ge> 0 \<longleftrightarrow> cmp y x \<le> 0"
  using cmp_swap [of x y] by (auto simp: sgn_if split: if_splits)

lemma cmp_less_le_trans: "cmp x y < 0 \<Longrightarrow> cmp y z \<le> 0 \<Longrightarrow> cmp x z < 0"
  by (metis cmp_gt_iff cmp_le_iff cmp_trans linorder_not_le order_less_imp_le)

lemma cmp_le_less_trans: "cmp x y \<le> 0 \<Longrightarrow> cmp y z < 0 \<Longrightarrow> cmp x z < 0"
  by (metis cmp_gt_iff cmp_le_iff cmp_trans linorder_not_le order_less_imp_le)

lemma cmp_less_trans: "cmp x y < 0 \<Longrightarrow> cmp y z < 0 \<Longrightarrow> cmp x z < 0"
  by (metis cmp_less_le_trans order_less_imp_le)

lemma cmp_eq_left: "cmp x y = 0 \<Longrightarrow> sgn (cmp x z) = sgn (cmp y z)"
  by (smt (verit, best) cmp_eq_sym cmp_gt_iff cmp_le_less_trans sgn_if)

lemma cmp_eq_right: "cmp x y = 0 \<Longrightarrow> sgn (cmp z x) = sgn (cmp z y)"
  by (metis cmp_eq_left cmp_swap)

end

section \<open>C library functions\<close>

text \<open>
  \<open>strcmp\<close>: bytes compared as unsigned characters.  The sources only test the sign of the
  result, so the model returns \<open>-1\<close>, \<open>0\<close> or \<open>1\<close>.
\<close>

fun strcmp :: "string \<Rightarrow> string \<Rightarrow> int" where
  "strcmp [] [] = 0"
| "strcmp [] (b # bs) = -1"
| "strcmp (a # as) [] = 1"
| "strcmp (a # as) (b # bs) =
     (if a = b then strcmp as bs
      else if (of_char a :: nat) < of_char b then -1 else 1)"

lemma strcmp_eq_0 [simp, cmp_simps]: "strcmp a b = 0 \<longleftrightarrow> a = b"
  by (induction a b rule: strcmp.induct) auto

lemma strcmp_range: "strcmp a b \<in> {-1, 0, 1}"
  by (induction a b rule: strcmp.induct) auto

lemma of_char_nat_neq: "a \<noteq> b \<Longrightarrow> (of_char a :: nat) \<noteq> of_char b"
  by simp

lemma strcmp_swap: "strcmp a b = - strcmp b a"
  by (induction a b rule: strcmp.induct) (auto dest: of_char_nat_neq)

lemma strcmp_Nil_le: "strcmp [] c \<le> 0"
  by (cases c) auto

lemma strcmp_le_trans: "strcmp a b \<le> 0 \<Longrightarrow> strcmp b c \<le> 0 \<Longrightarrow> strcmp a c \<le> 0"
proof (induction a b arbitrary: c rule: strcmp.induct)
  case (4 a as b bs)
  then show ?case
    by (cases c) (auto split: if_splits)
qed (auto simp: strcmp_Nil_le)

interpretation strcmp: comparator strcmp
proof
  show "sgn (strcmp x y) = - sgn (strcmp y x)" for x y
    using strcmp_swap [of x y] by (simp add: sgn_minus)
qed (rule strcmp_le_trans)

text \<open>\<open>strcspn\<close> and \<open>strspn\<close>: the length of the longest prefix outside, inside a set of bytes.\<close>

definition strcspn :: "string \<Rightarrow> string \<Rightarrow> nat" where
  "strcspn s reject = length (takeWhile (\<lambda>c. c \<notin> set reject) s)"

definition strspn :: "string \<Rightarrow> string \<Rightarrow> nat" where
  "strspn s accept = length (takeWhile (\<lambda>c. c \<in> set accept) s)"

lemma strcspn_le: "strcspn s r \<le> length s"
  by (simp add: strcspn_def length_takeWhile_le)

lemma strspn_le: "strspn s r \<le> length s"
  by (simp add: strspn_def length_takeWhile_le)

text \<open>\<open>isdigit\<close> and \<open>isspace\<close> in the C locale, on unsigned characters.\<close>

definition isdigit :: "char \<Rightarrow> bool" where
  "isdigit c = (48 \<le> (of_char c :: nat) \<and> (of_char c :: nat) \<le> 57)"

definition isspace :: "char \<Rightarrow> bool" where
  "isspace c = ((of_char c :: nat) = 32 \<or> (9 \<le> (of_char c :: nat) \<and> (of_char c :: nat) \<le> 13))"

text \<open>C division truncates towards zero.\<close>

definition cdiv :: "int \<Rightarrow> int \<Rightarrow> int" where
  "cdiv a b = sgn a * sgn b * (\<bar>a\<bar> div \<bar>b\<bar>)"

lemma cdiv_nonneg: "0 \<le> a \<Longrightarrow> 0 < b \<Longrightarrow> cdiv a b = a div b"
  by (cases "a = 0") (simp_all add: cdiv_def)

section \<open>Generic list facts\<close>

lemma sorted_wrt_append_Cons:
  "sorted_wrt P (xs @ y # ys) \<longleftrightarrow>
     sorted_wrt P xs \<and> sorted_wrt P ys \<and> (\<forall>x\<in>set xs. P x y) \<and> (\<forall>z\<in>set ys. P y z) \<and>
     (\<forall>x\<in>set xs. \<forall>z\<in>set ys. P x z)"
  by (auto simp: sorted_wrt_append)

lemma takeWhile_dropWhile_split:
  assumes "\<forall>x\<in>set ls. P x" and "\<forall>x\<in>set rs. \<not> P x"
  shows "takeWhile P (ls @ rs) = ls" and "dropWhile P (ls @ rs) = rs"
  using assms by (induction ls) (auto simp: takeWhile_eq_Nil_iff dropWhile_eq_self_iff dest: hd_in_set)

end
