(* ===== verification/Labels.thy ===== *)
theory Labels
  imports Prelude
begin

text \<open>
  Label chains and the sort plan (\<open>src/src/metric/labels.c\<close>).

  A series is identified by its metric name and its label set.  The code stores both as a linked
  chain of \<open>labels_t\<close> nodes whose position is the index of the label name in the
  append-only sort plan of the namespace: node 0 is the metric name, a label the series does not
  have is a node with a NULL key.  The theory models the chain as a list of records, the plan as
  the list of names it holds, and a label hash table as the association list of its entries in
  iteration order.  It shows that the positional comparison is a total preorder that does not
  change when the plan grows, that two chains compare equal exactly when they denote the same
  series, and that the word cache counts every reference.
\<close>

section \<open>Data\<close>

record labels_t =
  l_name :: string
  l_name_len :: nat
  l_key :: "string option"
  l_key_len :: nat

type_synonym chain = "labels_t list"
type_synonym label_hash = "(string \<times> string) list"

definition MAIN_METRIC_NAME :: string where
  "MAIN_METRIC_NAME = ''__name__''"

definition MAIN_METRIC_LEN :: nat where
  "MAIN_METRIC_LEN = 7"

definition SORTPLAN_MAX :: nat where
  "SORTPLAN_MAX = 65535"

text \<open>The key under a chain pointer: NULL for a NULL pointer.\<close>

definition head_key :: "chain \<Rightarrow> string option" where
  "head_key ls = (case ls of [] \<Rightarrow> None | l # _ \<Rightarrow> l_key l)"

lemma head_key_simps [simp]:
  "head_key [] = None" "head_key (l # ls) = l_key l"
  by (simp_all add: head_key_def)

section \<open>Comparison and selector match\<close>

text \<open>
  \<open>labels_cmp\<close>: the first argument is the number of plan positions left
  (\<open>plan_size - i\<close>); a chain that ended stays at NULL.
\<close>

fun labels_cmp :: "nat \<Rightarrow> chain \<Rightarrow> chain \<Rightarrow> int" where
  "labels_cmp 0 labels1 labels2 = 0"
| "labels_cmp (Suc n) labels1 labels2 =
     (if labels1 = [] \<and> labels2 = [] then 0
      else (case (head_key labels1, head_key labels2) of
              (Some key1, Some key2) \<Rightarrow>
                (let ret = strcmp key1 key2
                 in if ret \<noteq> 0 then ret else labels_cmp n (tl labels1) (tl labels2))
            | (Some key1, None) \<Rightarrow> 1
            | (None, Some key2) \<Rightarrow> -1
            | (None, None) \<Rightarrow> labels_cmp n (tl labels1) (tl labels2)))"

text \<open>
  \<open>labels_match\<close>: \<open>labels_count\<close> is the number of constrained label slots the caller
  announces; the name slot is added when the selector has a name.
\<close>

fun labels_match_loop :: "nat \<Rightarrow> chain \<Rightarrow> chain \<Rightarrow> nat \<Rightarrow> nat" where
  "labels_match_loop 0 labels1 labels2 labels_count = labels_count"
| "labels_match_loop (Suc n) labels1 labels2 labels_count =
     (if labels_count = 0 then labels_count
      else if labels2 = [] then 0
      else (case head_key labels2 of
              Some key2 \<Rightarrow>
                (if head_key labels1 \<noteq> Some key2 then labels_count
                 else labels_match_loop n (tl labels1) (tl labels2) (labels_count - 1))
            | None \<Rightarrow> labels_match_loop n (tl labels1) (tl labels2) labels_count))"

definition labels_match :: "nat \<Rightarrow> chain \<Rightarrow> chain \<Rightarrow> nat \<Rightarrow> nat" where
  "labels_match plan_size labels1 labels2 labels_count =
     labels_match_loop plan_size labels1 labels2
       (if labels_count \<noteq> 0 \<and> labels2 \<noteq> [] \<and> l_key_len (hd labels2) \<noteq> 0
        then labels_count + 1 else labels_count)"

text \<open>
  \<open>metric_name_match\<close> dereferences the key of the stored chain: a NULL key there is the
  value \<^term>\<open>None\<close>.
\<close>

definition metric_name_match :: "chain \<Rightarrow> chain \<Rightarrow> int option" where
  "metric_name_match labels1 labels2 =
     (case (labels1, labels2) of
        (l1 # _, l2 # _) \<Rightarrow>
          (if l_key_len l2 = 0 then Some 0
           else (case (l_key l1, l_key l2) of
                   (Some k1, Some k2) \<Rightarrow> Some (strcmp k1 k2)
                 | _ \<Rightarrow> None))
      | _ \<Rightarrow> Some 0)"

section \<open>Building a chain against the plan\<close>

text \<open>\<open>labels_hash_insert\<close> keeps the first key given for a name and refuses NULL.\<close>

definition labels_hash_insert :: "label_hash \<Rightarrow> string option \<Rightarrow> string option \<Rightarrow> label_hash" where
  "labels_hash_insert hash name key =
     (case (name, key) of
        (Some n, Some k) \<Rightarrow> (case map_of hash n of None \<Rightarrow> hash @ [(n, k)] | Some _ \<Rightarrow> hash)
      | _ \<Rightarrow> hash)"

text \<open>\<open>labels_hash_insert_nocache\<close> copies the strings; the table ends up the same.\<close>

definition labels_hash_insert_nocache ::
    "label_hash \<Rightarrow> string option \<Rightarrow> string option \<Rightarrow> label_hash" where
  "labels_hash_insert_nocache hash name key =
     (case name of
        None \<Rightarrow> hash
      | Some n \<Rightarrow>
          (case (map_of hash n, key) of
             (None, Some k) \<Rightarrow> hash @ [(n, k)]
           | _ \<Rightarrow> hash))"

definition labels_merge :: "label_hash \<Rightarrow> label_hash \<Rightarrow> label_hash" where
  "labels_merge dst src = foldl (\<lambda>d (n, k). labels_hash_insert_nocache d (Some n) (Some k)) dst src"

definition plan_node :: "string \<Rightarrow> string option \<Rightarrow> labels_t" where
  "plan_node n k = \<lparr>l_name = n, l_name_len = length n, l_key = k,
                    l_key_len = (case k of None \<Rightarrow> 0 | Some s \<Rightarrow> length s)\<rparr>"

text \<open>
  \<open>labels_new_plan_node\<close> on the state (plan, chain, ctx plan size): the chain position must
  equal the plan index and the plan has a fixed capacity, otherwise the label is dropped.
\<close>

definition labels_new_plan_node ::
    "string list \<times> chain \<times> nat \<Rightarrow> string \<times> string \<Rightarrow> string list \<times> chain \<times> nat" where
  "labels_new_plan_node st nk =
     (case (st, nk) of
        ((plan, ls, ctx_size), (n, k)) \<Rightarrow>
          (if length plan \<noteq> ctx_size \<or> length plan \<ge> SORTPLAN_MAX then (plan, ls, ctx_size)
           else (plan @ [n], ls @ [plan_node n (Some k)], ctx_size + 1)))"

text \<open>
  \<open>labels_initiate\<close>: the head node carries the metric name, node \<open>i\<close> the key of
  \<open>plan[i]\<close>; names found are removed from the hash, what is left extends the plan.  The
  result is the chain and the plan.
\<close>

definition labels_initiate ::
    "string list \<Rightarrow> label_hash \<Rightarrow> string option \<Rightarrow> bool \<Rightarrow> chain \<times> string list" where
  "labels_initiate plan hash name no_del =
     (let head = \<lparr>l_name = MAIN_METRIC_NAME, l_name_len = MAIN_METRIC_LEN, l_key = name,
                  l_key_len = (case name of None \<Rightarrow> 0 | Some s \<Rightarrow> length s)\<rparr>;
          body = map (\<lambda>n. plan_node n (map_of hash n)) (tl plan);
          rest = filter (\<lambda>(n, k). n \<notin> set (tl plan)) hash
      in if no_del then (head # body, plan)
         else (let (plan', ls, _) =
                     foldl labels_new_plan_node
                       (plan, head # body, if plan = [] then 1 else length plan) rest
               in (ls, plan')))"

section \<open>The word cache\<close>

text \<open>\<open>labels_words_cache\<close>: a word is mapped to its length field and its reference count.\<close>

type_synonym words = "string \<rightharpoonup> nat \<times> nat"

definition word_ref :: "words \<Rightarrow> string \<Rightarrow> nat \<Rightarrow> words" where
  "word_ref W w len =
     (case W w of Some (l, count) \<Rightarrow> W(w \<mapsto> (l, count + 1)) | None \<Rightarrow> W(w \<mapsto> (len, 1)))"

definition word_len :: "words \<Rightarrow> string \<Rightarrow> nat \<Rightarrow> nat" where
  "word_len W w len = (case W w of Some (l, _) \<Rightarrow> l | None \<Rightarrow> len)"

fun labels_cache_fill :: "chain \<Rightarrow> words \<Rightarrow> chain \<times> words" where
  "labels_cache_fill [] W = ([], W)"
| "labels_cache_fill (l # ls) W =
     (let nl = word_len W (l_name l) (l_name_len l);
          W1 = word_ref W (l_name l) (l_name_len l);
          l1 = l\<lparr>l_name_len := nl\<rparr>
      in (case l_key l of
            None \<Rightarrow> (let (ls', W') = labels_cache_fill ls W1 in (l1 # ls', W'))
          | Some k \<Rightarrow>
              (let kl = word_len W1 k (l_key_len l);
                   W2 = word_ref W1 k (l_key_len l);
                   (ls', W') = labels_cache_fill ls W2
               in (l1\<lparr>l_key_len := kl\<rparr> # ls', W'))))"

text \<open>The counter is a \<open>size_t\<close>: decrementing 0 wraps.\<close>

definition word_unref :: "words \<Rightarrow> string \<Rightarrow> words" where
  "word_unref W w =
     (case W w of
        None \<Rightarrow> W
      | Some (l, count) \<Rightarrow>
          (let c = (count + 2 ^ 64 - 1) mod 2 ^ 64
           in if c = 0 then W(w := None) else W(w \<mapsto> (l, c))))"

fun labels_free :: "chain \<Rightarrow> words \<Rightarrow> words" where
  "labels_free [] W = W"
| "labels_free (l # ls) W =
     (let W1 = word_unref W (l_name l)
      in (case l_key l of
            None \<Rightarrow> labels_free ls W1
          | Some k \<Rightarrow> labels_free ls (word_unref W1 k)))"

section \<open>Time to live\<close>

text \<open>\<open>INT64_MAX - UINT32_MAX\<close>, the "never expires" time to live.\<close>

definition TTL_NEVER :: int where
  "TTL_NEVER = 9223372036854775807 - 4294967295"

record ttl_arg =
  curr_ttl :: int
  arg_ttl :: int

definition get_ttl :: "int \<Rightarrow> ttl_arg option \<Rightarrow> int" where
  "get_ttl ac_ttl carg =
     (case carg of
        None \<Rightarrow> (if ac_ttl = 0 then TTL_NEVER else ac_ttl)
      | Some c \<Rightarrow>
          (if curr_ttl c > -1
           then (if curr_ttl c = 0
                 then (if arg_ttl c = 0 then TTL_NEVER else arg_ttl c)
                 else curr_ttl c)
           else if arg_ttl c > -1
           then (if arg_ttl c = 0
                 then (if ac_ttl = 0 then TTL_NEVER else ac_ttl)
                 else arg_ttl c)
           else if ac_ttl = 0 then TTL_NEVER
           else ac_ttl))"

definition numbercheck :: "string \<Rightarrow> bool" where
  "numbercheck str = list_all isdigit str"

section \<open>The comparison is a total preorder that plan growth does not change\<close>

definition key_at :: "chain \<Rightarrow> nat \<Rightarrow> string option" where
  "key_at ls i = (if i < length ls then l_key (ls ! i) else None)"

lemma key_at_Nil [simp]: "key_at [] i = None"
  by (simp add: key_at_def)

lemma key_at_0 [simp]: "key_at ls 0 = head_key ls"
  by (cases ls) (simp_all add: key_at_def)

lemma key_at_tl [simp]: "key_at (tl ls) i = key_at ls (Suc i)"
  by (cases ls) (simp_all add: key_at_def)

lemma all_less_Suc_shift: "(\<forall>i<Suc n. P i) \<longleftrightarrow> P 0 \<and> (\<forall>i<n. P (Suc i))"
  using less_Suc_eq_0_disj by auto

lemma labels_cmp_Nil [simp]: "labels_cmp n [] [] = 0"
  by (cases n) simp_all

text \<open>
  One step of the walk: NULL sorts before every key, two keys sort by \<open>strcmp\<close>, and a tie
  goes on to the next plan position.
\<close>

fun slot_cmp :: "string option \<Rightarrow> string option \<Rightarrow> int" where
  "slot_cmp None None = 0"
| "slot_cmp None (Some _) = -1"
| "slot_cmp (Some _) None = 1"
| "slot_cmp (Some a) (Some b) = strcmp a b"

lemma slot_cmp_eq_0 [simp]: "slot_cmp a b = 0 \<longleftrightarrow> a = b"
  by (cases a; cases b) auto

lemma slot_cmp_self [simp]: "slot_cmp a a = 0"
  by simp

lemma slot_cmp_swap: "slot_cmp a b = - slot_cmp b a"
  by (cases a; cases b) (auto intro: strcmp_swap)

lemma slot_cmp_le_trans: "slot_cmp a b \<le> 0 \<Longrightarrow> slot_cmp b c \<le> 0 \<Longrightarrow> slot_cmp a c \<le> 0"
  by (cases a; cases b; cases c) (auto intro: strcmp_le_trans)

interpretation slot: comparator slot_cmp
proof
  show "sgn (slot_cmp x y) = - sgn (slot_cmp y x)" for x y
    using slot_cmp_swap [of x y] by (simp add: sgn_minus)
qed (rule slot_cmp_le_trans)

lemma labels_cmp_Suc:
  "labels_cmp (Suc n) a b =
     (if head_key a = head_key b then labels_cmp n (tl a) (tl b)
      else slot_cmp (head_key a) (head_key b))"
  by (cases a; cases b) (auto simp: Let_def split: option.split)

declare labels_cmp.simps(2) [simp del]

lemma labels_cmp_eq_0: "labels_cmp n a b = 0 \<longleftrightarrow> (\<forall>i<n. key_at a i = key_at b i)"
proof (induction n arbitrary: a b)
  case (Suc n)
  show ?case
    unfolding all_less_Suc_shift by (simp add: Suc.IH labels_cmp_Suc)
qed simp

lemma labels_cmp_swap: "labels_cmp n a b = - labels_cmp n b a"
proof (induction n arbitrary: a b)
  case (Suc n)
  show ?case
    using Suc.IH [of "tl a" "tl b"] slot_cmp_swap [of "head_key a" "head_key b"]
    by (simp add: labels_cmp_Suc)
qed simp

lemma labels_cmp_le_trans:
  "labels_cmp n a b \<le> 0 \<Longrightarrow> labels_cmp n b c \<le> 0 \<Longrightarrow> labels_cmp n a c \<le> 0"
proof (induction n arbitrary: a b c)
  case (Suc n)
  have "slot_cmp (head_key a) (head_key b) \<le> 0" "slot_cmp (head_key b) (head_key c) \<le> 0"
    using Suc.prems by (auto simp: labels_cmp_Suc split: if_splits)
  moreover have "head_key a = head_key c \<Longrightarrow> head_key b = head_key c"
    using calculation slot_cmp_swap [of "head_key b" "head_key c"] by auto
  ultimately show ?case
    using Suc.prems Suc.IH [of "tl a" "tl b" "tl c"]
      slot_cmp_le_trans [of "head_key a" "head_key b" "head_key c"]
    by (auto simp: labels_cmp_Suc split: if_splits)
qed simp

interpretation labels: comparator "labels_cmp n" for n
proof
  show "sgn (labels_cmp n x y) = - sgn (labels_cmp n y x)" for x y
    using labels_cmp_swap [of n x y] by (simp add: sgn_minus)
qed (rule labels_cmp_le_trans)

text \<open>A chain no longer than the plan it was built for compares the same under a longer plan.\<close>

lemma labels_cmp_extend:
  "length a \<le> n \<Longrightarrow> length b \<le> n \<Longrightarrow> labels_cmp (n + k) a b = labels_cmp n a b"
proof (induction n arbitrary: a b)
  case (Suc n)
  then show ?case
    using Suc.IH [of "tl a" "tl b"] by (simp add: labels_cmp_Suc)
qed simp

section \<open>Chains denote series\<close>

text \<open>
  A plan is well formed when it starts with the metric name and holds no name twice;
  \<open>chain_for plan hash name c\<close> says that the chain \<open>c\<close> is the positional picture of
  the series \<open>name{hash}\<close> under the plan.
\<close>

definition plan_ok :: "string list \<Rightarrow> bool" where
  "plan_ok plan \<longleftrightarrow> plan \<noteq> [] \<and> hd plan = MAIN_METRIC_NAME \<and> distinct plan \<and>
     length plan \<le> SORTPLAN_MAX"

definition hash_ok :: "label_hash \<Rightarrow> bool" where
  "hash_ok hash \<longleftrightarrow> distinct (map fst hash) \<and> MAIN_METRIC_NAME \<notin> fst ` set hash"

definition chain_for :: "string list \<Rightarrow> label_hash \<Rightarrow> string option \<Rightarrow> chain \<Rightarrow> bool" where
  "chain_for plan hash name c \<longleftrightarrow> length c \<le> length plan \<and> head_key c = name \<and>
     (\<forall>i. 0 < i \<and> i < length plan \<longrightarrow> key_at c i = map_of hash (plan ! i)) \<and>
     fst ` set hash \<subseteq> set (tl plan)"

lemma plan_ok_nth:
  "plan_ok plan \<Longrightarrow> x \<in> set (tl plan) \<longleftrightarrow> (\<exists>i. 0 < i \<and> i < length plan \<and> plan ! i = x)"
  by (cases plan) (auto simp: plan_ok_def in_set_conv_nth gr0_conv_Suc)

lemma chain_for_extend:
  assumes "chain_for plan hash name c" and ok: "plan_ok (plan @ extra)"
  shows "chain_for (plan @ extra) hash name c"
proof -
  have "key_at c i = map_of hash ((plan @ extra) ! i)" if "length plan \<le> i" "i < length (plan @ extra)" for i
  proof -
    have "(plan @ extra) ! i \<in> set extra"
      using that by (simp add: nth_append)
    then have "(plan @ extra) ! i \<notin> fst ` set hash"
      using assms ok
      by (cases plan) (auto simp: chain_for_def plan_ok_def)
    then have "map_of hash ((plan @ extra) ! i) = None"
      by (simp add: map_of_eq_None_iff)
    then show ?thesis
      using that assms(1) by (simp add: key_at_def chain_for_def)
  qed
  then show ?thesis
    using assms(1) by (cases plan) (auto simp: chain_for_def nth_append not_less)
qed

lemma chain_for_eq:
  assumes "plan_ok plan" and "chain_for plan h1 n1 c1" and "chain_for plan h2 n2 c2"
  shows "labels_cmp (length plan) c1 c2 = 0 \<longleftrightarrow> n1 = n2 \<and> map_of h1 = map_of h2"
proof
  assume "labels_cmp (length plan) c1 c2 = 0"
  then have eq: "key_at c1 i = key_at c2 i" if "i < length plan" for i
    using that by (simp add: labels_cmp_eq_0)
  have "map_of h1 x = map_of h2 x" for x
  proof (cases "x \<in> set (tl plan)")
    case True
    then obtain i where "0 < i" "i < length plan" "plan ! i = x"
      using plan_ok_nth [OF assms(1)] by blast
    then show ?thesis
      using eq [of i] assms(2,3) by (simp add: chain_for_def)
  next
    case False
    then have "x \<notin> fst ` set h1" "x \<notin> fst ` set h2"
      using assms(2,3) by (auto simp: chain_for_def)
    then show ?thesis
      by (simp add: map_of_eq_None_iff [symmetric])
  qed
  moreover have "n1 = n2"
    using eq [of 0] assms by (simp add: chain_for_def plan_ok_def)
  ultimately show "n1 = n2 \<and> map_of h1 = map_of h2"
    by auto
next
  assume "n1 = n2 \<and> map_of h1 = map_of h2"
  then show "labels_cmp (length plan) c1 c2 = 0"
    using assms(2,3) by (auto simp: labels_cmp_eq_0 chain_for_def) (metis gr0I key_at_0)
qed

lemma foldl_new_plan_node:
  assumes "length plan + length rest \<le> SORTPLAN_MAX"
  shows "foldl labels_new_plan_node (plan, ls, length plan) rest =
           (plan @ map fst rest, ls @ map (\<lambda>(n, k). plan_node n (Some k)) rest,
            length plan + length rest)"
  using assms
proof (induction rest arbitrary: plan ls)
  case (Cons nk rest)
  then show ?case
    using Cons.IH [of "plan @ [fst nk]" "ls @ [plan_node (fst nk) (Some (snd nk))]"]
    by (cases nk) (simp add: labels_new_plan_node_def)
qed simp

lemma labels_initiate_eq:
  assumes "plan \<noteq> []" and "length plan + length hash \<le> SORTPLAN_MAX"
  defines "rest \<equiv> filter (\<lambda>(n, k). n \<notin> set (tl plan)) hash"
  shows "\<exists>h. labels_initiate plan hash name False =
           (h # map (\<lambda>n. plan_node n (map_of hash n)) (tl plan) @
              map (\<lambda>(n, k). plan_node n (Some k)) rest,
            plan @ map fst rest) \<and> l_key h = name"
proof -
  have "length rest \<le> length hash"
    by (simp add: rest_def)
  then have "length plan + length rest \<le> SORTPLAN_MAX"
    using assms(2) by linarith
  then show ?thesis
    using assms(1)
    by (simp add: labels_initiate_def foldl_new_plan_node Let_def rest_def)
qed

text \<open>\<open>labels_initiate\<close> builds the picture of the series under the plan it leaves behind.\<close>

lemma labels_initiate_chain_for:
  assumes ok: "plan_ok plan" "hash_ok hash" and cap: "length plan + length hash \<le> SORTPLAN_MAX"
    and res: "labels_initiate plan hash name False = (c, plan')"
  shows "plan_ok plan'" and "take (length plan) plan' = plan" and "chain_for plan' hash name c"
    and "length c = length plan'"
proof -
  define rest where "rest = filter (\<lambda>(n, k). n \<notin> set (tl plan)) hash"
  obtain m ps where plan: "plan = m # ps"
    using ok(1) by (cases plan) (auto simp: plan_ok_def)
  obtain h where c: "c = h # map (\<lambda>n. plan_node n (map_of hash n)) ps @
      map (\<lambda>(n, k). plan_node n (Some k)) rest"
    and plan': "plan' = plan @ map fst rest" and h: "l_key h = name"
    using labels_initiate_eq [of plan hash name] ok cap res plan
    by (auto simp: rest_def)
  have dist: "distinct (map fst rest)"
    using ok(2) by (auto simp: hash_ok_def rest_def distinct_map inj_on_def)
  have new: "fst ` set rest \<inter> set plan = {}"
    using ok plan by (auto simp: hash_ok_def plan_ok_def rest_def image_iff)
  have rest_len: "length rest \<le> length hash"
    by (simp add: rest_def)
  show plan'_ok: "plan_ok plan'"
    using ok(1) dist new cap rest_len by (auto simp: plan_ok_def plan' plan)
  show "take (length plan) plan' = plan" and len: "length c = length plan'"
    by (simp_all add: plan' c plan)
  have key: "key_at c i = map_of hash (plan' ! i)" if "0 < i" "i < length plan'" for i
  proof (cases "i < length plan")
    case True
    then obtain j where "i = Suc j" "j < length ps"
      using \<open>0 < i\<close> True plan by (cases i) auto
    then show ?thesis
      by (simp add: key_at_def c plan' plan plan_node_def nth_append)
  next
    case False
    define j where "j = i - length plan"
    obtain n k where nk: "rest ! j = (n, k)"
      by (cases "rest ! j")
    have j: "j < length rest" "i = Suc (length ps) + j"
      using that False by (auto simp: j_def plan' plan)
    then have "(n, k) \<in> set rest"
      using nk by (metis nth_mem)
    then have "map_of hash n = Some k"
      using ok(2) by (simp add: rest_def hash_ok_def)
    then show ?thesis
      using j nk by (simp add: key_at_def c plan' plan plan_node_def nth_append)
  qed
  have "fst ` set hash \<subseteq> set (tl plan')"
    by (force simp: plan' plan rest_def)
  then show "chain_for plan' hash name c"
    using key h len by (simp add: chain_for_def c)
qed

section \<open>Properties of the identity of series\<close>

text \<open>
  C27: the sort plan may grow between the creation of two chains and before they are compared, and
  still two chains compare equal exactly when they were built for the same metric name and the same
  label set.  The tree therefore never merges two series and never stores one twice.
\<close>

theorem labels_cmp_identifies_series:
  assumes "plan_ok p0" and "hash_ok h1" and "hash_ok h2"
    and "length p0 + length h1 \<le> SORTPLAN_MAX"
    and "labels_initiate p0 h1 n1 False = (c1, p1)"
    and "plan_ok (p1 @ q)" and "length (p1 @ q) + length h2 \<le> SORTPLAN_MAX"
    and "labels_initiate (p1 @ q) h2 n2 False = (c2, p2)"
    and "plan_ok (p2 @ r)"
  shows "labels_cmp (length (p2 @ r)) c1 c2 = 0 \<longleftrightarrow> n1 = n2 \<and> map_of h1 = map_of h2"
proof -
  have "chain_for p1 h1 n1 c1"
    using assms by (blast dest: labels_initiate_chain_for)
  then have c1: "chain_for (p1 @ q) h1 n1 c1"
    using assms by (blast intro: chain_for_extend)
  obtain s where s: "p2 = (p1 @ q) @ s"
    using labels_initiate_chain_for(2) [OF assms(6,3,7,8)] by (metis append_take_drop_id)
  have "chain_for (p2 @ r) h1 n1 c1"
    using chain_for_extend [OF c1, of "s @ r"] assms(9) s by simp
  moreover have "chain_for (p2 @ r) h2 n2 c2"
    using chain_for_extend labels_initiate_chain_for(3) [OF assms(6,3,7,8)] assms(9) by blast
  ultimately show ?thesis
    using chain_for_eq assms(9) by blast
qed

text \<open>The series \<open>a{x=1}\<close>, before and after the plan learnt the labels \<open>y\<close> and \<open>z\<close>.\<close>

theorem labels_cmp_identifies_series_witness:
  "labels_cmp (Suc (Suc (Suc (Suc 0))))
     (fst (labels_initiate [''__name__''] [(''x'', ''1'')] (Some ''a'') False))
     (fst (labels_initiate [''__name__'', ''x'', ''y''] [(''z'', ''2''), (''x'', ''1'')] (Some ''a'') False))
   \<noteq> 0"
proof -
  have i1: "labels_initiate [''__name__''] [(''x'', ''1'')] (Some ''a'') False =
      (fst (labels_initiate [''__name__''] [(''x'', ''1'')] (Some ''a'') False), [''__name__'', ''x''])"
    by (simp add: labels_initiate_def labels_new_plan_node_def SORTPLAN_MAX_def)
  have i2: "labels_initiate ([''__name__'', ''x''] @ [''y'']) [(''z'', ''2''), (''x'', ''1'')] (Some ''a'') False =
      (fst (labels_initiate [''__name__'', ''x'', ''y''] [(''z'', ''2''), (''x'', ''1'')] (Some ''a'') False),
       [''__name__'', ''x'', ''y'', ''z''])"
    by (simp add: labels_initiate_def labels_new_plan_node_def SORTPLAN_MAX_def)
  have "map_of [(''x'', ''1'')] ''z'' \<noteq> map_of [(''z'', ''2''), (''x'', ''1'')] ''z''"
    by simp
  then have "map_of [(''x'', ''1'')] \<noteq> map_of [(''z'', ''2''), (''x'', ''1'')]"
    by metis
  then show ?thesis
    using labels_cmp_identifies_series [OF _ _ _ _ i1 _ _ i2, where r = "[]"]
    by (simp add: plan_ok_def hash_ok_def MAIN_METRIC_NAME_def SORTPLAN_MAX_def)
qed

text \<open>
  Growing the plan does not change how two chains compare, so the order the tree was built
  with stays valid for every chain already stored.
\<close>

theorem labels_cmp_plan_growth:
  assumes "length c1 \<le> n" and "length c2 \<le> n" and "n \<le> m"
  shows "labels_cmp m c1 c2 = labels_cmp n c1 c2"
  using labels_cmp_extend [OF assms(1,2), of "m - n"] assms(3) by simp

theorem labels_cmp_plan_growth_witness:
  "labels_cmp 5 [plan_node ''__name__'' (Some ''a'')]
     [plan_node ''__name__'' (Some ''a''), plan_node ''x'' (Some ''1'')] =
   labels_cmp 2 [plan_node ''__name__'' (Some ''a'')]
     [plan_node ''__name__'' (Some ''a''), plan_node ''x'' (Some ''1'')]"
  by (rule labels_cmp_plan_growth) simp_all


section \<open>Selectors\<close>

text \<open>The number of constrained slots among the first \<open>n\<close> positions of a selector.\<close>

fun constrained :: "nat \<Rightarrow> chain \<Rightarrow> nat" where
  "constrained 0 q = 0"
| "constrained (Suc n) q = (if head_key q = None then 0 else 1) + constrained n (tl q)"

lemma constrained_Nil [simp]: "constrained n [] = 0"
  by (induction n) simp_all

lemma labels_match_loop_iff:
  assumes "c = constrained n q"
  shows "labels_match_loop n s q c = 0 \<longleftrightarrow> (\<forall>i<n. key_at q i \<noteq> None \<longrightarrow> key_at s i = key_at q i)"
  using assms
proof (induction n arbitrary: s q c)
  case (Suc n)
  show ?case
  proof (cases "c = 0")
    case True
    then have "head_key q = None" and "constrained n (tl q) = 0"
      using Suc.prems by (auto split: if_splits)
    then show ?thesis
      using True Suc.IH [of 0 "tl q" "tl s"] unfolding all_less_Suc_shift
      by (cases n) auto
  next
    case False
    then show ?thesis
      using Suc.prems Suc.IH [of _ "tl q" "tl s"] unfolding all_less_Suc_shift
      by (auto split: option.split if_splits)
  qed
qed simp

text \<open>
  A selector whose announced label count is the number of label slots it constrains matches a
  stored series exactly when the series has every constrained key; empty selector slots do not
  constrain it.
\<close>

theorem labels_match_correct:
  assumes "q \<noteq> []" and "l_key_len (hd q) \<noteq> 0 \<longleftrightarrow> l_key (hd q) \<noteq> None"
    and "0 < labels_count" and "labels_count = constrained n (tl q)"
  shows "labels_match (Suc n) s q labels_count = 0 \<longleftrightarrow>
           (\<forall>i<Suc n. key_at q i \<noteq> None \<longrightarrow> key_at s i = key_at q i)"
proof -
  have "head_key q = l_key (hd q)"
    using assms(1) by (cases q) simp_all
  then show ?thesis
    unfolding labels_match_def using assms by (intro labels_match_loop_iff) simp
qed

theorem labels_match_correct_witness:
  "labels_match (Suc (Suc (Suc 0)))
     [plan_node ''__name__'' (Some ''m''), plan_node ''x'' (Some ''1''), plan_node ''y'' (Some ''2'')]
     [plan_node ''__name__'' (Some ''m''), plan_node ''x'' None, plan_node ''y'' (Some ''2'')] 1 = 0"
  by (subst labels_match_correct)
    (simp_all add: plan_node_def all_less_Suc_shift key_at_def)
section \<open>Reference counts of the word cache\<close>

text \<open>The words a chain holds a reference to, in the order the code visits them.\<close>

definition node_words :: "labels_t \<Rightarrow> (string \<times> nat) list" where
  "node_words l = (l_name l, l_name_len l) #
     (case l_key l of None \<Rightarrow> [] | Some k \<Rightarrow> [(k, l_key_len l)])"

definition chain_words :: "chain \<Rightarrow> string list" where
  "chain_words ls = map fst (concat (map node_words ls))"

definition word_refs :: "words \<Rightarrow> string \<Rightarrow> nat" where
  "word_refs W w = (case W w of None \<Rightarrow> 0 | Some (l, c) \<Rightarrow> c)"

definition words_ok :: "words \<Rightarrow> bool" where
  "words_ok W \<longleftrightarrow> (\<forall>w l c. W w = Some (l, c) \<longrightarrow> 0 < c \<and> c < 2 ^ 64)"

lemma chain_words_simps [simp]:
  "chain_words [] = []"
  "chain_words (l # ls) = l_name l # (case l_key l of None \<Rightarrow> [] | Some k \<Rightarrow> [k]) @ chain_words ls"
  by (simp_all add: chain_words_def node_words_def split: option.split)

lemma labels_free_foldl: "labels_free ls W = foldl word_unref W (chain_words ls)"
  by (induction ls arbitrary: W) (auto simp: Let_def split: option.split)

lemma labels_cache_fill_words: "chain_words (fst (labels_cache_fill ls W)) = chain_words ls"
  by (induction ls arbitrary: W) (auto simp: Let_def split_beta split: option.split)

lemma labels_cache_fill_foldl:
  "snd (labels_cache_fill ls W) =
     foldl (\<lambda>W (w, len). word_ref W w len) W (concat (map node_words ls))"
  by (induction ls arbitrary: W) (auto simp: Let_def split_beta node_words_def split: option.split)

lemma word_refs_ref: "word_refs (word_ref W w len) v = word_refs W v + (if w = v then 1 else 0)"
  by (auto simp: word_refs_def word_ref_def split: option.split)

lemma word_refs_fold:
  "word_refs (foldl (\<lambda>W (w, len). word_ref W w len) W ws) v =
     word_refs W v + count_list (map fst ws) v"
  by (induction ws arbitrary: W) (auto simp: word_refs_ref)

lemma word_fold_keeps_len:
  "W v = Some (l, c) \<Longrightarrow> \<exists>c'. foldl (\<lambda>W (w, len). word_ref W w len) W ws v = Some (l, c')"
proof (induction ws arbitrary: W c)
  case (Cons x ws)
  then have "\<exists>c'. word_ref W (fst x) (snd x) v = Some (l, c')"
    by (auto simp: word_ref_def split: option.split)
  then show ?case
    using Cons.IH by (auto simp: split_beta)
qed simp

lemma word_fold_pos:
  "(\<And>v l. W v \<noteq> Some (l, 0)) \<Longrightarrow> foldl (\<lambda>W (w, len). word_ref W w len) W ws v \<noteq> Some (l, 0)"
proof (induction ws arbitrary: W)
  case (Cons x ws)
  then have "word_ref W (fst x) (snd x) u \<noteq> Some (m, 0)" for u m
    by (auto simp: word_ref_def split: option.split)
  then show ?case
    using Cons.IH by (simp add: split_beta)
qed simp

lemma size_t_pred: "0 < c \<Longrightarrow> c < 2 ^ 64 \<Longrightarrow> (c + 2 ^ 64 - 1) mod 2 ^ 64 = c - (1::nat)"
proof -
  assume "0 < c" "c < 2 ^ 64"
  then have "c + 2 ^ 64 - 1 = (c - 1) + 2 ^ 64" and "c - 1 < 2 ^ 64"
    by linarith+
  then show ?thesis
    by (metis mod_add_self2 mod_less)
qed

lemma word_unref_entry:
  assumes "\<And>l c. W v = Some (l, c) \<Longrightarrow> 0 < c \<and> c < 2 ^ 64"
  shows "word_unref W w v =
      (if v = w then (case W v of None \<Rightarrow> None
         | Some (l, c) \<Rightarrow> if c = 1 then None else Some (l, c - 1)) else W v)"
proof (cases "v = w \<and> W v \<noteq> None")
  case True
  then obtain l c where "W w = Some (l, c)" "v = w" by auto
  moreover have "(c + 2 ^ 64 - 1) mod 2 ^ 64 = c - 1" and "0 < c"
    using assms calculation size_t_pred by blast+
  ultimately show ?thesis
    by (simp add: word_unref_def Let_def)
next
  case False
  then show ?thesis
    by (auto simp: word_unref_def Let_def split: option.split)
qed

lemma foldl_word_unref_entry:
  assumes "\<And>l c. W v = Some (l, c) \<Longrightarrow> 0 < c \<and> c < 2 ^ 64"
  shows "foldl word_unref W ws v =
           (case W v of None \<Rightarrow> None
            | Some (l, c) \<Rightarrow> if c \<le> count_list ws v then None else Some (l, c - count_list ws v))"
  using assms
proof (induction ws arbitrary: W)
  case (Cons w ws)
  note step = word_unref_entry [of W v w, OF Cons.prems]
  have "0 < c \<and> c < 2 ^ 64" if "word_unref W w v = Some (l, c)" for l c
    using that Cons.prems by (force simp: step split: if_splits option.splits)
  then show ?case
    using Cons.IH [of "word_unref W w"] Cons.prems
    by (auto simp: step split: option.splits if_splits)
qed (auto split: option.split)

text \<open>
  C36: filling the cache adds one reference per name and per key of the chain, and freeing the
  interned chain gives back exactly the cache there was before: no word leaks and none is
  released while another series still uses it.
\<close>

theorem labels_free_inverts_cache_fill:
  assumes "words_ok W" and "labels_cache_fill ls W = (ls', W')"
    and "\<And>w. word_refs W w + count_list (chain_words ls) w < 2 ^ 64"
  shows "(\<forall>w. word_refs W' w = word_refs W w + count_list (chain_words ls) w) \<and>
         labels_free ls' W' = W"
proof -
  have W': "W' = foldl (\<lambda>W (w, len). word_ref W w len) W (concat (map node_words ls))"
    using labels_cache_fill_foldl [of ls W] assms(2) by simp
  have ws: "chain_words ls' = chain_words ls"
    using labels_cache_fill_words [of ls W] assms(2) by simp
  have refs: "word_refs W' w = word_refs W w + count_list (chain_words ls) w" for w
    by (simp add: W' word_refs_fold chain_words_def)
  have pos: "W' v \<noteq> Some (l, 0)" for v l
    unfolding W' by (rule word_fold_pos) (use assms(1) in \<open>auto simp: words_ok_def\<close>)
  have bound: "0 < c \<and> c < 2 ^ 64" if "W' v = Some (l, c)" for v l c
    using that pos [of v l] refs [of v] assms(3) [of v] by (auto simp: word_refs_def intro: gr0I)
  have "labels_free ls' W' = W"
  proof
    fix v
    have free: "labels_free ls' W' v = (case W' v of None \<Rightarrow> None
        | Some (l, c) \<Rightarrow> if c \<le> count_list (chain_words ls) v then None
                        else Some (l, c - count_list (chain_words ls) v))"
      unfolding labels_free_foldl ws by (rule foldl_word_unref_entry) (rule bound)
    show "labels_free ls' W' v = W v"
    proof (cases "W v")
      case None
      then show ?thesis
        using free refs [of v] by (auto simp: word_refs_def split: option.split)
    next
      case (Some lc)
      obtain l c where lc: "W v = Some (l, c)"
        using Some by (cases lc) simp
      then obtain c' where "W' v = Some (l, c')"
        using word_fold_keeps_len W' by blast
      moreover have "0 < c"
        using lc assms(1) by (auto simp: words_ok_def)
      ultimately show ?thesis
        using free refs [of v] lc by (simp add: word_refs_def)
    qed
  qed
  then show ?thesis
    using refs by simp
qed

text \<open>Interning \<open>m{x="1"}\<close> into an empty cache.\<close>

theorem labels_free_inverts_cache_fill_witness:
  "labels_free (fst (labels_cache_fill [plan_node ''__name__'' (Some ''m''), plan_node ''x'' (Some ''1'')] Map.empty))
     (snd (labels_cache_fill [plan_node ''__name__'' (Some ''m''), plan_node ''x'' (Some ''1'')] Map.empty))
   = Map.empty"
  by (rule labels_free_inverts_cache_fill [OF _ surjective_pairing, THEN conjunct2])
    (auto simp: words_ok_def word_refs_def plan_node_def)

end
