(* ===== verification/Expiry_Index.thy ===== *)
theory Expiry_Index
  imports Main
begin

text \<open>
  What the metric store relies on from an expiry index: a map from metrics to expiry times, kept by
  \<open>arm\<close> and \<open>forget\<close>, and a clock whose advance makes every overdue metric due.  The timing
  wheel of \<open>Expire_Wheel\<close> is the index of the program; the lemmas on deletion and purging are
  proved here once, from the laws alone.
\<close>

locale expiry_index =
  fixes inv :: "'e \<Rightarrow> bool"
    and expiry :: "'e \<Rightarrow> nat \<rightharpoonup> int"
    and due :: "'e \<Rightarrow> nat \<Rightarrow> bool"
    and clock :: "'e \<Rightarrow> int"
    and arm :: "'e \<Rightarrow> int \<Rightarrow> nat \<Rightarrow> 'e"
    and forget :: "'e \<Rightarrow> nat \<Rightarrow> 'e"
    and advance :: "'e \<Rightarrow> int \<Rightarrow> 'e"
  assumes inv_arm: "inv e \<Longrightarrow> inv (arm e k m)"
    and inv_forget: "inv e \<Longrightarrow> inv (forget e m)"
    and inv_advance: "inv e \<Longrightarrow> inv (advance e n)"
    and expiry_arm: "inv e \<Longrightarrow> expiry (arm e k m) = (expiry e)(m \<mapsto> k)"
    and expiry_forget: "inv e \<Longrightarrow> expiry (forget e m) = (expiry e)(m := None)"
    and expiry_advance: "inv e \<Longrightarrow> expiry (advance e n) = expiry e"
    and clock_arm: "inv e \<Longrightarrow> clock (arm e k m) = clock e"
    and clock_forget: "inv e \<Longrightarrow> clock (forget e m) = clock e"
    and clock_advance: "inv e \<Longrightarrow> 0 < n \<Longrightarrow> clock (advance e n) = n"
    and due_arm: "inv e \<Longrightarrow> 0 < clock e \<Longrightarrow> due (arm e k m) = (due e)(m := k \<le> clock e)"
    and due_forget: "inv e \<Longrightarrow> due (forget e m) = (due e)(m := False)"
    and due_advance: "inv e \<Longrightarrow> 0 < n \<Longrightarrow> expiry e m = Some k \<Longrightarrow> k \<le> n \<Longrightarrow> due (advance e n) m"
    and advance_due: "inv e \<Longrightarrow> 0 < n \<Longrightarrow> due (advance e n) m \<Longrightarrow>
                        due e m \<or> (\<exists>k. expiry e m = Some k \<and> k \<le> n)"
    and due_armed: "inv e \<Longrightarrow> due e m \<Longrightarrow> expiry e m \<noteq> None"
    and finite_expiry: "inv e \<Longrightarrow> finite (dom (expiry e))"
begin

text \<open>The index is punctual when every metric whose time has come is due.\<close>

definition punctual :: "'e \<Rightarrow> bool" where
  "punctual e \<longleftrightarrow> inv e \<and> 0 < clock e \<and> (\<forall>m k. expiry e m = Some k \<longrightarrow> k \<le> clock e \<longrightarrow> due e m)"

lemma punctual_advance: "inv e \<Longrightarrow> 0 < n \<Longrightarrow> punctual (advance e n)"
  by (auto simp: punctual_def inv_advance clock_advance expiry_advance intro: due_advance)

lemma punctual_arm: "punctual e \<Longrightarrow> punctual (arm e k m)"
  by (auto simp: punctual_def inv_arm clock_arm expiry_arm due_arm)

lemma punctual_forget: "punctual e \<Longrightarrow> punctual (forget e m)"
  by (auto simp: punctual_def inv_forget clock_forget expiry_forget due_forget)

text \<open>
  Moving the expiry of \<open>q\<close> to \<open>f\<close>, as the tree deletion does when the sample of one
  node moves into another.
\<close>

lemma rehome:
  assumes "inv e" "f \<noteq> q"
  shows "expiry (arm (forget e q) k f) = (expiry e)(q := None, f \<mapsto> k)"
    and "inv (arm (forget e q) k f)" and "clock (arm (forget e q) k f) = clock e"
  using assms by (simp_all add: inv_arm inv_forget expiry_arm expiry_forget clock_arm clock_forget)

end

end
