(* ===== verification/Expire_Wheel.thy ===== *)
theory Expire_Wheel
  imports Prelude Expiry_Index
begin

text \<open>
  The hierarchical timing wheel that holds the expiry of every series
  (\<open>src/src/metric/expiretree.c\<close>).

  An \<open>expire_node\<close> lives at an address of the store \<open>et_heap\<close>; the doubly linked lists
  of the code are the lists of addresses \<open>et_due\<close>, \<open>et_lv0\<close> to \<open>et_lv3\<close> (one list
  per slot) and \<open>et_far\<close>; the \<open>expire_node\<close> field of a metric is the map
  \<open>et_mexp\<close> from metric addresses to node addresses.  The wall clock that \<open>setrtime\<close>
  returns is an argument.  Locks, log lines and allocation failure are left out.

  The theory shows that every operation keeps the lists and the nodes consistent, and that moving
  the wheel to a time \<open>now\<close> puts every node whose key has passed on the due list, whether the
  clock moved by one step, jumped, or went backwards, and puts no other node there.
\<close>

section \<open>State\<close>

datatype level = LV_DUE | LV0 | LV1 | LV2 | LV3 | LV_FAR

definition EXPIRE_LV0_SIZE :: int where "EXPIRE_LV0_SIZE = 256"
definition EXPIRE_LVN_SIZE :: int where "EXPIRE_LVN_SIZE = 64"
definition EXPIRE_SPAN0 :: int where "EXPIRE_SPAN0 = 256"
definition EXPIRE_SPAN1 :: int where "EXPIRE_SPAN1 = EXPIRE_SPAN0 * EXPIRE_LVN_SIZE"
definition EXPIRE_SPAN2 :: int where "EXPIRE_SPAN2 = EXPIRE_SPAN1 * EXPIRE_LVN_SIZE"
definition EXPIRE_SPAN3 :: int where "EXPIRE_SPAN3 = EXPIRE_SPAN2 * EXPIRE_LVN_SIZE"

lemmas span_defs = EXPIRE_LV0_SIZE_def EXPIRE_LVN_SIZE_def EXPIRE_SPAN0_def EXPIRE_SPAN1_def
  EXPIRE_SPAN2_def EXPIRE_SPAN3_def

record expire_node =
  en_key :: int
  en_metric :: nat
  en_level :: level
  en_slot :: nat

record expire_tree =
  et_due :: "nat list"
  et_lv0 :: "nat \<Rightarrow> nat list"
  et_lv1 :: "nat \<Rightarrow> nat list"
  et_lv2 :: "nat \<Rightarrow> nat list"
  et_lv3 :: "nat \<Rightarrow> nat list"
  et_far :: "nat list"
  et_far_tail :: "nat option"
  et_cursor :: int
  et_count :: int
  et_heap :: "nat \<rightharpoonup> expire_node"
  et_mexp :: "nat \<rightharpoonup> nat"
  et_next :: nat

definition expire_init :: expire_tree where
  "expire_init = \<lparr>et_due = [], et_lv0 = (\<lambda>_. []), et_lv1 = (\<lambda>_. []), et_lv2 = (\<lambda>_. []),
     et_lv3 = (\<lambda>_. []), et_far = [], et_far_tail = None, et_cursor = 0, et_count = 0,
     et_heap = Map.empty, et_mexp = Map.empty, et_next = 0\<rparr>"

text \<open>
  The key behind a node pointer.  Every pointer the lists hold is live (\<open>link_inv\<close> below);
  a dangling one would read 0 here.
\<close>

definition node_key :: "expire_tree \<Rightarrow> nat \<Rightarrow> int" where
  "node_key t a = (case et_heap t a of None \<Rightarrow> 0 | Some n \<Rightarrow> en_key n)"

section \<open>Lists\<close>

fun expire_bucket :: "expire_tree \<Rightarrow> level \<Rightarrow> nat \<Rightarrow> nat list" where
  "expire_bucket t LV_DUE s = et_due t"
| "expire_bucket t LV0 s = et_lv0 t s"
| "expire_bucket t LV1 s = et_lv1 t s"
| "expire_bucket t LV2 s = et_lv2 t s"
| "expire_bucket t LV3 s = et_lv3 t s"
| "expire_bucket t LV_FAR s = et_far t"

fun set_bucket :: "expire_tree \<Rightarrow> level \<Rightarrow> nat \<Rightarrow> nat list \<Rightarrow> expire_tree" where
  "set_bucket t LV_DUE s xs = t\<lparr>et_due := xs\<rparr>"
| "set_bucket t LV0 s xs = t\<lparr>et_lv0 := (et_lv0 t)(s := xs)\<rparr>"
| "set_bucket t LV1 s xs = t\<lparr>et_lv1 := (et_lv1 t)(s := xs)\<rparr>"
| "set_bucket t LV2 s xs = t\<lparr>et_lv2 := (et_lv2 t)(s := xs)\<rparr>"
| "set_bucket t LV3 s xs = t\<lparr>et_lv3 := (et_lv3 t)(s := xs)\<rparr>"
| "set_bucket t LV_FAR s xs = t\<lparr>et_far := xs\<rparr>"

text \<open>Set the level and slot fields of a node.\<close>

definition set_place :: "expire_tree \<Rightarrow> nat \<Rightarrow> level \<Rightarrow> nat \<Rightarrow> expire_tree" where
  "set_place t a L s =
     (case et_heap t a of
        None \<Rightarrow> t
      | Some n \<Rightarrow> t\<lparr>et_heap := (et_heap t)(a \<mapsto> n\<lparr>en_level := L, en_slot := s\<rparr>)\<rparr>)"

definition expire_push :: "expire_tree \<Rightarrow> level \<Rightarrow> nat \<Rightarrow> nat \<Rightarrow> expire_tree" where
  "expire_push t L s a = set_bucket t L s (a # expire_bucket t L s)"

text \<open>
  \<open>expire_unlink\<close>: a node that is not linked (no \<open>prev\<close> and not the head) is left alone.
  When the far tail is unlinked its predecessor becomes the tail.
\<close>

definition expire_unlink :: "expire_tree \<Rightarrow> nat \<Rightarrow> expire_tree" where
  "expire_unlink t a =
     (case et_heap t a of
        None \<Rightarrow> t
      | Some n \<Rightarrow>
          (let bucket = expire_bucket t (en_level n) (en_slot n)
           in if a \<notin> set bucket then t
              else (let t1 = set_bucket t (en_level n) (en_slot n) (remove1 a bucket)
                    in if en_level n = LV_FAR \<and> et_far_tail t = Some a
                       then t1\<lparr>et_far_tail :=
                                 (case takeWhile (\<lambda>b. b \<noteq> a) bucket of
                                    [] \<Rightarrow> None | ps \<Rightarrow> Some (last ps))\<rparr>
                       else t1)))"

text \<open>\<open>expire_insert_far\<close>: append when the key is at least the tail's, else walk from the head.\<close>

definition expire_insert_far :: "expire_tree \<Rightarrow> nat \<Rightarrow> expire_tree" where
  "expire_insert_far t a =
     (case et_far_tail t of
        None \<Rightarrow> t\<lparr>et_far := [a], et_far_tail := Some a\<rparr>
      | Some tail \<Rightarrow>
          (if node_key t a \<ge> node_key t tail
           then t\<lparr>et_far := et_far t @ [a], et_far_tail := Some a\<rparr>
           else (let before = takeWhile (\<lambda>b. node_key t b \<le> node_key t a) (et_far t);
                     after = dropWhile (\<lambda>b. node_key t b \<le> node_key t a) (et_far t)
                 in t\<lparr>et_far := before @ a # after,
                      et_far_tail := (if after = [] then Some a else et_far_tail t)\<rparr>)))"

section \<open>Scheduling\<close>

definition expire_base :: "int \<Rightarrow> expire_tree \<Rightarrow> int" where
  "expire_base wall t = (if et_cursor t > 0 then et_cursor t else wall)"

text \<open>The wheel slot of a key: \<open>(uint16_t)((key / span) & (size - 1))\<close>.\<close>

definition wheel_slot :: "int \<Rightarrow> int \<Rightarrow> int \<Rightarrow> nat" where
  "wheel_slot key span slots = nat ((cdiv key span AND (slots - 1)) mod 65536)"

definition expire_schedule :: "int \<Rightarrow> expire_tree \<Rightarrow> nat \<Rightarrow> expire_tree" where
  "expire_schedule wall t a =
     (let key = node_key t a; delta = key - expire_base wall t
      in if delta \<le> 0 then expire_push (set_place t a LV_DUE 0) LV_DUE 0 a
         else if delta < EXPIRE_SPAN0 then
           (let s = wheel_slot key 1 EXPIRE_LV0_SIZE in expire_push (set_place t a LV0 s) LV0 s a)
         else if delta < EXPIRE_SPAN1 then
           (let s = wheel_slot key EXPIRE_SPAN0 EXPIRE_LVN_SIZE
            in expire_push (set_place t a LV1 s) LV1 s a)
         else if delta < EXPIRE_SPAN2 then
           (let s = wheel_slot key EXPIRE_SPAN1 EXPIRE_LVN_SIZE
            in expire_push (set_place t a LV2 s) LV2 s a)
         else if delta < EXPIRE_SPAN3 then
           (let s = wheel_slot key EXPIRE_SPAN2 EXPIRE_LVN_SIZE
            in expire_push (set_place t a LV3 s) LV3 s a)
         else expire_insert_far (set_place t a LV_FAR 0) a)"

definition expire_cascade :: "int \<Rightarrow> expire_tree \<Rightarrow> level \<Rightarrow> nat \<Rightarrow> expire_tree" where
  "expire_cascade wall t L s =
     foldl (expire_schedule wall) (set_bucket t L s []) (expire_bucket t L s)"

text \<open>\<open>expire_take_bucket\<close> pushes the nodes of a list one by one on an accumulator.\<close>

definition expire_take_bucket :: "nat list \<Rightarrow> nat list \<Rightarrow> nat list" where
  "expire_take_bucket bucket acc = rev bucket @ acc"

definition all_buckets :: "expire_tree \<Rightarrow> nat list list" where
  "all_buckets t = [et_due t, et_far t] @ map (et_lv0 t) [0..<256] @
     concat (map (\<lambda>i. [et_lv1 t i, et_lv2 t i, et_lv3 t i]) [0..<64])"

definition take_all :: "expire_tree \<Rightarrow> nat list \<times> expire_tree" where
  "take_all t =
     (foldl (\<lambda>acc b. expire_take_bucket b acc) [] (all_buckets t),
      t\<lparr>et_due := [], et_far := [], et_far_tail := None,
        et_lv0 := (\<lambda>i. if i < 256 then [] else et_lv0 t i),
        et_lv1 := (\<lambda>i. if i < 64 then [] else et_lv1 t i),
        et_lv2 := (\<lambda>i. if i < 64 then [] else et_lv2 t i),
        et_lv3 := (\<lambda>i. if i < 64 then [] else et_lv3 t i)\<rparr>)"

definition expire_reschedule_all :: "int \<Rightarrow> expire_tree \<Rightarrow> expire_tree" where
  "expire_reschedule_all wall t =
     (let (acc, t1) = take_all t in foldl (expire_schedule wall) t1 acc)"

section \<open>Moving the cursor\<close>

text \<open>The body of the per-second loop of \<open>expire_wheel_advance\<close>.\<close>

definition visit_node :: "int \<Rightarrow> int \<Rightarrow> expire_tree \<Rightarrow> nat \<Rightarrow> expire_tree" where
  "visit_node wall now t a =
     (if node_key t a \<le> now then expire_push (set_place t a LV_DUE 0) LV_DUE 0 a
      else expire_schedule wall t a)"

definition expire_tick :: "int \<Rightarrow> int \<Rightarrow> expire_tree \<Rightarrow> expire_tree" where
  "expire_tick wall now t =
     (let t0 = t\<lparr>et_cursor := et_cursor t + 1\<rparr>; c = et_cursor t0;
          t1 = (if c AND (EXPIRE_SPAN0 - 1) = 0
                then expire_cascade wall t0 LV1 (wheel_slot c EXPIRE_SPAN0 EXPIRE_LVN_SIZE) else t0);
          t2 = (if c mod EXPIRE_SPAN1 = 0
                then expire_cascade wall t1 LV2 (wheel_slot c EXPIRE_SPAN1 EXPIRE_LVN_SIZE) else t1);
          t3 = (if c mod EXPIRE_SPAN2 = 0
                then expire_cascade wall t2 LV3 (wheel_slot c EXPIRE_SPAN2 EXPIRE_LVN_SIZE) else t2);
          s = wheel_slot c 1 EXPIRE_LV0_SIZE;
          slot = et_lv0 t3 s
      in foldl (visit_node wall now) (set_bucket t3 LV0 s []) slot)"

text \<open>
  The loop that pulls the prefix of \<open>far\<close> inside the level-3 horizon.  Every round takes the
  head off the list, so as many rounds as the list is long are enough
  (\<open>far_loop_done\<close> below).
\<close>

fun expire_far_loop :: "int \<Rightarrow> nat \<Rightarrow> expire_tree \<Rightarrow> expire_tree" where
  "expire_far_loop wall 0 t = t"
| "expire_far_loop wall (Suc fuel) t =
     (case et_far t of
        [] \<Rightarrow> t
      | a # _ \<Rightarrow>
          (if node_key t a - et_cursor t < EXPIRE_SPAN3
           then expire_far_loop wall fuel (expire_schedule wall (expire_unlink t a) a)
           else t))"

definition expire_wheel_advance :: "int \<Rightarrow> expire_tree \<Rightarrow> int \<Rightarrow> expire_tree" where
  "expire_wheel_advance wall t now =
     (if et_cursor t \<le> 0 then expire_reschedule_all wall (t\<lparr>et_cursor := now\<rparr>)
      else if now \<le> 0 then t
      else if now < et_cursor t then t\<lparr>et_cursor := now\<rparr>
      else if now - et_cursor t > EXPIRE_SPAN1 then expire_reschedule_all wall (t\<lparr>et_cursor := now\<rparr>)
      else (let t1 = (expire_tick wall now ^^ nat (now - et_cursor t)) t
            in expire_far_loop wall (length (et_far t1)) t1))"

text \<open>\<open>expire_drain_all\<close> puts every node on \<open>due\<close>.\<close>

definition expire_drain_all :: "expire_tree \<Rightarrow> expire_tree" where
  "expire_drain_all t =
     (let (acc, t1) = take_all t
      in foldl (\<lambda>t a. expire_push (set_place t a LV_DUE 0) LV_DUE 0 a) t1 acc)"

section \<open>Arming and forgetting\<close>

definition expire_forget_locked :: "expire_tree \<Rightarrow> nat \<Rightarrow> expire_tree" where
  "expire_forget_locked t m =
     (case et_mexp t m of
        None \<Rightarrow> t
      | Some a \<Rightarrow>
          (let t1 = expire_unlink t a
           in t1\<lparr>et_mexp := (et_mexp t1)(m := None), et_heap := (et_heap t1)(a := None),
                 et_count := (if et_count t1 > 0 then et_count t1 - 1 else et_count t1)\<rparr>))"

definition expire_arm_locked :: "int \<Rightarrow> expire_tree \<Rightarrow> int \<Rightarrow> nat \<Rightarrow> expire_tree" where
  "expire_arm_locked wall t key m =
     (let t1 = (if et_mexp t m \<noteq> None then expire_forget_locked t m else t);
          a = et_next t1;
          t2 = t1\<lparr>et_heap := (et_heap t1)(a \<mapsto> \<lparr>en_key = key, en_metric = m, en_level = LV_DUE, en_slot = 0\<rparr>),
                  et_mexp := (et_mexp t1)(m \<mapsto> a), et_next := Suc a,
                  et_count := et_count t1 + 1\<rparr>
      in expire_schedule wall t2 a)"

section \<open>Counting\<close>

definition expire_count_list :: "expire_tree \<Rightarrow> int \<Rightarrow> nat list \<Rightarrow> nat" where
  "expire_count_list t key ns = length (filter (\<lambda>a. node_key t a \<le> key) ns)"

definition expire_count_expired :: "expire_tree \<Rightarrow> int \<Rightarrow> nat" where
  "expire_count_expired t key = sum_list (map (expire_count_list t key) (all_buckets t))"

definition expire_backptr_list :: "expire_tree \<Rightarrow> nat list \<Rightarrow> nat" where
  "expire_backptr_list t ns =
     length (filter (\<lambda>a. case et_heap t a of None \<Rightarrow> True | Some n \<Rightarrow> et_mexp t (en_metric n) \<noteq> Some a) ns)"

definition expire_backptr_violations :: "expire_tree \<Rightarrow> nat" where
  "expire_backptr_violations t = sum_list (map (expire_backptr_list t) (all_buckets t))"

text \<open>\<open>expire_free\<close>: drain, then unlink and free every node of \<open>due\<close>.\<close>

fun expire_free_loop :: "nat \<Rightarrow> expire_tree \<Rightarrow> expire_tree" where
  "expire_free_loop 0 t = t"
| "expire_free_loop (Suc fuel) t =
     (case et_due t of
        [] \<Rightarrow> t
      | a # _ \<Rightarrow>
          (let t1 = expire_unlink t a;
               t2 = (case et_heap t1 a of
                       None \<Rightarrow> t1 | Some n \<Rightarrow> t1\<lparr>et_mexp := (et_mexp t1)(en_metric n := None)\<rparr>)
           in expire_free_loop fuel (t2\<lparr>et_heap := (et_heap t2)(a := None)\<rparr>)))"

definition expire_free :: "expire_tree \<Rightarrow> expire_tree" where
  "expire_free t =
     (let t1 = expire_drain_all t
      in (expire_free_loop (length (et_due t1)) t1)\<lparr>et_count := 0\<rparr>)"

section \<open>Frame lemmas\<close>

fun valid_place :: "level \<Rightarrow> nat \<Rightarrow> bool" where
  "valid_place LV_DUE s = (s = 0)"
| "valid_place LV0 s = (s < 256)"
| "valid_place LV1 s = (s < 64)"
| "valid_place LV2 s = (s < 64)"
| "valid_place LV3 s = (s < 64)"
| "valid_place LV_FAR s = (s = 0)"

lemma set_bucket_frame [wheel_frame]:
  "et_heap (set_bucket t L s xs) = et_heap t"
  "et_cursor (set_bucket t L s xs) = et_cursor t"
  "et_count (set_bucket t L s xs) = et_count t"
  "et_mexp (set_bucket t L s xs) = et_mexp t"
  "et_next (set_bucket t L s xs) = et_next t"
  "et_far_tail (set_bucket t L s xs) = et_far_tail t"
  "L \<noteq> LV_FAR \<Longrightarrow> et_far (set_bucket t L s xs) = et_far t"
  by (cases L; simp)+

lemma bucket_set_bucket [wheel_frame]:
  "valid_place L s \<Longrightarrow> valid_place L' s' \<Longrightarrow>
   expire_bucket (set_bucket t L s xs) L' s' = (if L' = L \<and> s' = s then xs else expire_bucket t L' s')"
  by (cases L; cases L') auto

lemma set_place_frame [wheel_frame]:
  "et_cursor (set_place t a L s) = et_cursor t"
  "et_count (set_place t a L s) = et_count t"
  "et_mexp (set_place t a L s) = et_mexp t"
  "et_next (set_place t a L s) = et_next t"
  "et_far_tail (set_place t a L s) = et_far_tail t"
  "et_far (set_place t a L s) = et_far t"
  "expire_bucket (set_place t a L s) L' s' = expire_bucket t L' s'"
  "node_key (set_place t a L s) = node_key t"
  "et_heap (set_place t a L s) =
     (et_heap t)(a := map_option (\<lambda>n. n\<lparr>en_level := L, en_slot := s\<rparr>) (et_heap t a))"
  by (cases L'; auto simp: set_place_def node_key_def fun_eq_iff split: option.split)+

lemma node_key_heap: "et_heap t = et_heap t' \<Longrightarrow> node_key t = node_key t'"
  by (rule ext) (simp add: node_key_def)

lemma node_key_frame [wheel_frame]:
  "node_key (set_bucket t L s xs) = node_key t"
  "node_key (t\<lparr>et_cursor := c\<rparr>) = node_key t"
  "node_key (t\<lparr>et_far := f\<rparr>) = node_key t"
  "node_key (t\<lparr>et_far_tail := ft\<rparr>) = node_key t"
  by (auto intro: node_key_heap simp: set_bucket_frame)

lemma push_frame [wheel_frame]:
  "et_heap (expire_push t L s a) = et_heap t"
  "et_cursor (expire_push t L s a) = et_cursor t"
  "et_count (expire_push t L s a) = et_count t"
  "et_mexp (expire_push t L s a) = et_mexp t"
  "et_next (expire_push t L s a) = et_next t"
  "et_far_tail (expire_push t L s a) = et_far_tail t"
  "L \<noteq> LV_FAR \<Longrightarrow> et_far (expire_push t L s a) = et_far t"
  "node_key (expire_push t L s a) = node_key t"
  by (simp_all add: expire_push_def wheel_frame)

lemma insert_far_frame [wheel_frame]:
  "et_heap (expire_insert_far t a) = et_heap t"
  "et_cursor (expire_insert_far t a) = et_cursor t"
  "et_count (expire_insert_far t a) = et_count t"
  "et_mexp (expire_insert_far t a) = et_mexp t"
  "et_next (expire_insert_far t a) = et_next t"
  "L \<noteq> LV_FAR \<Longrightarrow> expire_bucket (expire_insert_far t a) L s = expire_bucket t L s"
  by (auto simp: expire_insert_far_def Let_def split: option.split) (cases L; simp)+

lemma unlink_frame [wheel_frame]:
  "et_heap (expire_unlink t a) = et_heap t"
  "et_cursor (expire_unlink t a) = et_cursor t"
  "et_count (expire_unlink t a) = et_count t"
  "et_mexp (expire_unlink t a) = et_mexp t"
  "et_next (expire_unlink t a) = et_next t"
  by (auto simp: expire_unlink_def Let_def wheel_frame split: option.split)

section \<open>Slots and due times\<close>

lemma and_255: "(x :: int) AND 255 = x mod 256"
  using take_bit_eq_mask [of 8 x] by (simp add: take_bit_int_def mask_numeral)

lemma and_63: "(x :: int) AND 63 = x mod 64"
  using take_bit_eq_mask [of 6 x] by (simp add: take_bit_int_def mask_numeral)

lemma wheel_slot_lv0: "wheel_slot key 1 EXPIRE_LV0_SIZE = nat (key mod 256)"
  by (simp add: wheel_slot_def EXPIRE_LV0_SIZE_def and_255 cdiv_def mult_sgn_abs)

lemma wheel_slot_lvn:
  "0 \<le> key \<Longrightarrow> 0 < span \<Longrightarrow> wheel_slot key span EXPIRE_LVN_SIZE = nat (key div span mod 64)"
  by (simp add: wheel_slot_def EXPIRE_LVN_SIZE_def and_63 cdiv_nonneg)

lemma wheel_slot_valid:
  "wheel_slot key span EXPIRE_LVN_SIZE < 64" "wheel_slot key 1 EXPIRE_LV0_SIZE < 256"
  by (simp_all add: wheel_slot_def EXPIRE_LVN_SIZE_def EXPIRE_LV0_SIZE_def and_63 and_255
      nat_less_iff mod_mod_cancel)

text \<open>Where a node may sit when the cursor is at \<open>c\<close>; far nodes are at least \<open>B\<close> seconds out.\<close>

definition on_time :: "int \<Rightarrow> int \<Rightarrow> expire_node \<Rightarrow> bool" where
  "on_time B c n =
     (case en_level n of
        LV_DUE \<Rightarrow> True
      | LV0 \<Rightarrow> c < en_key n \<and> en_slot n = nat (en_key n mod 256)
      | LV1 \<Rightarrow> c div 256 < en_key n div 256 \<and> en_slot n = nat (en_key n div 256 mod 64)
      | LV2 \<Rightarrow> c div 16384 < en_key n div 16384 \<and> en_slot n = nat (en_key n div 16384 mod 64)
      | LV3 \<Rightarrow> c div 1048576 < en_key n div 1048576 \<and> en_slot n = nat (en_key n div 1048576 mod 64)
      | LV_FAR \<Rightarrow> B \<le> en_key n - c)"

lemma less_div_imp_less: "(c :: int) div k < x div k \<Longrightarrow> 0 < k \<Longrightarrow> c < x"
  by (meson linorder_not_less zdiv_mono1)

lemma on_time_future: "on_time B c n \<Longrightarrow> 0 < B \<Longrightarrow> en_level n \<noteq> LV_DUE \<Longrightarrow> c < en_key n"
  by (auto simp: on_time_def dest: less_div_imp_less split: level.splits)

lemma on_time_mono: "on_time B c n \<Longrightarrow> B' + c' \<le> B + c \<Longrightarrow> c' \<le> c \<Longrightarrow> on_time B' c' n"
  by (auto simp: on_time_def split: level.splits intro: order_le_less_trans [OF zdiv_mono1])

section \<open>List consistency\<close>

text \<open>
  \<open>linked P t\<close>: the nodes of the heap are the pending ones of \<open>P\<close>, which are on no list,
  and the ones that sit, once, on the list their level and slot name.
\<close>

definition at_place :: "expire_tree \<Rightarrow> nat \<Rightarrow> level \<Rightarrow> nat \<Rightarrow> bool" where
  "at_place t a L s = (case et_heap t a of None \<Rightarrow> False | Some n \<Rightarrow> en_level n = L \<and> en_slot n = s)"

definition linked :: "nat list \<Rightarrow> expire_tree \<Rightarrow> bool" where
  "linked P t \<longleftrightarrow> distinct P \<and> set P \<subseteq> dom (et_heap t) \<and>
     (\<forall>L s. valid_place L s \<longrightarrow> distinct (expire_bucket t L s) \<and>
        (\<forall>a \<in> set (expire_bucket t L s). a \<notin> set P \<and> at_place t a L s)) \<and>
     (\<forall>a \<in> dom (et_heap t). a \<in> set P \<or> (\<exists>L s. valid_place L s \<and> a \<in> set (expire_bucket t L s)))"

text \<open>The far list is sorted and \<open>far_tail\<close> is its last node.\<close>

definition far_ok :: "expire_tree \<Rightarrow> bool" where
  "far_ok t \<longleftrightarrow> sorted (map (node_key t) (et_far t)) \<and>
     et_far_tail t = (if et_far t = [] then None else Some (last (et_far t)))"

lemma linked_place:
  assumes "linked P t" "et_heap t a = Some n" "a \<notin> set P"
  shows "valid_place (en_level n) (en_slot n) \<and> a \<in> set (expire_bucket t (en_level n) (en_slot n))"
  using assms unfolding linked_def at_place_def
  by (smt (verit, best) domI option.case(2) option.sel)

lemma linked_member:
  assumes "linked P t" "valid_place L s" "a \<in> set (expire_bucket t L s)"
  shows "a \<notin> set P" "\<exists>n. et_heap t a = Some n \<and> en_level n = L \<and> en_slot n = s"
  using assms unfolding linked_def at_place_def by (fastforce split: option.splits)+

lemma linked_distinct: "linked P t \<Longrightarrow> valid_place L s \<Longrightarrow> distinct (expire_bucket t L s)"
  by (simp add: linked_def)

lemma linked_cover:
  "linked P t \<Longrightarrow> a \<in> dom (et_heap t) \<Longrightarrow>
   a \<in> set P \<or> (\<exists>L s. valid_place L s \<and> a \<in> set (expire_bucket t L s))"
  unfolding linked_def by blast

lemma linked_pending: "linked P t \<Longrightarrow> a \<in> set P \<Longrightarrow> \<exists>n. et_heap t a = Some n"
  by (auto simp: linked_def)

lemma linkedI:
  assumes "distinct P" "set P \<subseteq> dom (et_heap t)"
    and "\<And>L s. valid_place L s \<Longrightarrow> distinct (expire_bucket t L s)"
    and "\<And>L s a. valid_place L s \<Longrightarrow> a \<in> set (expire_bucket t L s) \<Longrightarrow> a \<notin> set P \<and> at_place t a L s"
    and "\<And>a. a \<in> dom (et_heap t) \<Longrightarrow> a \<in> set P \<or> (\<exists>L s. valid_place L s \<and> a \<in> set (expire_bucket t L s))"
  shows "linked P t"
  using assms by (auto simp: linked_def)

lemma linked_insert:
  assumes "linked (a # P) t" and v: "valid_place L s" and n: "et_heap t a = Some n"
    and heap: "et_heap t' = (et_heap t)(a \<mapsto> n\<lparr>en_level := L, en_slot := s\<rparr>)"
    and new: "distinct (expire_bucket t' L s)"
      "set (expire_bucket t' L s) = insert a (set (expire_bucket t L s))"
    and rest: "\<And>L' s'. valid_place L' s' \<Longrightarrow> (L', s') \<noteq> (L, s) \<Longrightarrow>
                 expire_bucket t' L' s' = expire_bucket t L' s'"
  shows "linked P t'"
proof -
  have place: "at_place t' b L' s' \<longleftrightarrow> (if b = a then L' = L \<and> s' = s else at_place t b L' s')" for b L' s'
    using heap by (auto simp: at_place_def)
  have on: "b \<in> set (expire_bucket t' L' s') \<longleftrightarrow>
      b \<in> set (expire_bucket t L' s') \<or> (b = a \<and> L' = L \<and> s' = s)" if "valid_place L' s'" for b L' s'
    using rest [OF that] new by (cases "(L', s') = (L, s)") auto
  have d: "distinct (expire_bucket t' L' s')" if "valid_place L' s'" for L' s'
    using rest [OF that] new(1) assms(1) that by (cases "(L', s') = (L, s)") (auto simp: linked_def)
  show ?thesis
  proof (rule linkedI)
    show "distinct P" "set P \<subseteq> dom (et_heap t')" using assms(1) heap by (auto simp: linked_def)
    show "b \<notin> set P \<and> at_place t' b L' s'" if "valid_place L' s'" "b \<in> set (expire_bucket t' L' s')" for b L' s'
      using that on [OF that(1), of b] linked_member(1) [OF assms(1) that(1), of b] assms(1)
      by (auto simp: place linked_def)
    show "b \<in> set P \<or> (\<exists>L s. valid_place L s \<and> b \<in> set (expire_bucket t' L s))" if "b \<in> dom (et_heap t')" for b
    proof (cases "b = a")
      case True
      then show ?thesis using on [OF v, of b] v by auto
    next
      case False
      then have "b \<in> dom (et_heap t)" using that heap by auto
      then have "b \<in> set P \<or> (\<exists>L s. valid_place L s \<and> b \<in> set (expire_bucket t L s))"
        using linked_cover [OF assms(1)] False by auto
      then show ?thesis using on by blast
    qed
  qed (rule d)
qed

lemma linked_remove:
  assumes "linked P t" and v: "valid_place L s" and heap: "et_heap t' = et_heap t"
    and new: "distinct (expire_bucket t' L s)" "set (expire_bucket t' L s) \<subseteq> set (expire_bucket t L s)"
    and rest: "\<And>L' s'. valid_place L' s' \<Longrightarrow> (L', s') \<noteq> (L, s) \<Longrightarrow>
                 expire_bucket t' L' s' = expire_bucket t L' s'"
    and P': "distinct P'" "set P' = set P \<union> (set (expire_bucket t L s) - set (expire_bucket t' L s))"
  shows "linked P' t'"
proof -
  have place: "at_place t' b L' s' \<longleftrightarrow> at_place t b L' s'" for b L' s'
    by (simp add: at_place_def heap)
  have uniq: "L' = L \<and> s' = s" if "valid_place L' s'" "b \<in> set (expire_bucket t L s)"
      "b \<in> set (expire_bucket t L' s')" for b L' s'
    using linked_member(2) [OF assms(1) v that(2)] linked_member(2) [OF assms(1) that(1,3)] by auto
  have on: "b \<in> set (expire_bucket t' L' s') \<longleftrightarrow>
      b \<in> set (expire_bucket t L' s') \<and> (b \<in> set P' \<longrightarrow> b \<in> set P)" if "valid_place L' s'" for b L' s'
    using rest [OF that] new(2) P'(2) uniq [OF that] linked_member(1) [OF assms(1) v]
    by (cases "(L', s') = (L, s)") auto
  have d: "distinct (expire_bucket t' L' s')" if "valid_place L' s'" for L' s'
    using rest [OF that] new(1) assms(1) that by (cases "(L', s') = (L, s)") (auto simp: linked_def)
  have sub: "set P' \<subseteq> dom (et_heap t)"
    using assms(1) P'(2) linked_member(2) [OF assms(1) v] by (fastforce simp: linked_def)
  show ?thesis
  proof (rule linkedI)
    show "distinct P'" "set P' \<subseteq> dom (et_heap t')" using P' sub heap by auto
    show "b \<notin> set P' \<and> at_place t' b L' s'" if "valid_place L' s'" "b \<in> set (expire_bucket t' L' s')" for b L' s'
      using that on [OF that(1), of b] linked_member(1) [OF assms(1) that(1), of b] assms(1)
      by (auto simp: place linked_def)
    show "b \<in> set P' \<or> (\<exists>L s. valid_place L s \<and> b \<in> set (expire_bucket t' L s))" if "b \<in> dom (et_heap t')" for b
    proof (cases "b \<in> set P'")
      case False
      then have "b \<notin> set P" using P'(2) by auto
      then obtain L' s' where "valid_place L' s'" "b \<in> set (expire_bucket t L' s')"
        using assms(1) \<open>b \<in> dom (et_heap t')\<close> heap by (auto simp: linked_def)
      then show ?thesis using on False by blast
    qed simp
  qed (rule d)
qed

lemma linked_push:
  assumes "linked (a # P) t" "valid_place L s"
  shows "linked P (expire_push (set_place t a L s) L s a)"
proof -
  obtain n where n: "et_heap t a = Some n" using linked_pending [OF assms(1)] by auto
  have "a \<notin> set (expire_bucket t L s)" using linked_member(1) [OF assms] by auto
  then show ?thesis
    using linked_distinct [OF assms]
    by (intro linked_insert [OF assms n]) (auto simp: wheel_frame n expire_push_def assms(2))
qed

lemma sorted_map_last: "sorted (map f xs) \<Longrightarrow> x \<in> set xs \<Longrightarrow> f x \<le> f (last xs)"
proof (induction xs)
  case (Cons y ys)
  then show ?case by (cases "ys = []") auto
qed simp

lemma insert_far_list:
  assumes "far_ok t" "a \<notin> set (et_far t)" "distinct (et_far t)"
  shows "distinct (et_far (expire_insert_far t a))"
    "set (et_far (expire_insert_far t a)) = insert a (set (et_far t))"
    "far_ok (expire_insert_far t a)"
proof -
  let ?k = "node_key t" and ?x = "node_key t a" and ?f = "et_far t"
  have split: "takeWhile P ?f @ dropWhile P ?f = ?f" for P by simp
  have d: "set (takeWhile P ?f) \<inter> set (dropWhile P ?f) = {}" for P
    using assms(3) distinct_append [of "takeWhile P ?f" "dropWhile P ?f"] by simp
  have u: "set ?f = set (takeWhile P ?f) \<union> set (dropWhile P ?f)" for P
    by (metis set_append takeWhile_dropWhile_id)
  have s: "sorted (map ?k (takeWhile P ?f)) \<and> sorted (map ?k (dropWhile P ?f))" for P
    using assms(1) sorted_append [of "map ?k (takeWhile P ?f)" "map ?k (dropWhile P ?f)"]
    by (simp add: far_ok_def flip: map_append)
  have after: "\<forall>b \<in> set (dropWhile (\<lambda>b. ?k b \<le> ?x) ?f). ?x \<le> ?k b"
  proof (cases "dropWhile (\<lambda>b. ?k b \<le> ?x) ?f")
    case (Cons c cs)
    then have "?x < ?k c" by (metis hd_dropWhile linorder_not_less list.distinct(1) list.sel(1))
    moreover have "\<forall>b \<in> set cs. ?k c \<le> ?k b" using s [of "\<lambda>b. ?k b \<le> ?x"] Cons by (simp add: sorted_append)
    ultimately show ?thesis using Cons by auto
  next
    case Nil
    show ?thesis unfolding Nil by simp
  qed
  have before: "\<forall>b \<in> set (takeWhile (\<lambda>b. ?k b \<le> ?x) ?f). ?k b \<le> ?x" by (auto dest: set_takeWhileD)
  have last: "\<forall>b \<in> set ?f. ?k b \<le> ?k (last ?f)"
    using assms(1) sorted_map_last by (auto simp: far_ok_def)
  note nk = node_key_heap [OF insert_far_frame(1), of t a]
  show "distinct (et_far (expire_insert_far t a))"
    using assms d [of "\<lambda>b. ?k b \<le> ?x"]
    by (auto simp: expire_insert_far_def Let_def split: option.split dest: set_takeWhileD set_dropWhileD)
  show "set (et_far (expire_insert_far t a)) = insert a (set (et_far t))"
    using assms(1) u [of "\<lambda>b. ?k b \<le> ?x"]
    by (auto simp: expire_insert_far_def far_ok_def Let_def split: option.split if_splits)
  show "far_ok (expire_insert_far t a)"
  proof (cases "et_far_tail t = None \<or> ?k (last ?f) \<le> ?x")
    case True
    then show ?thesis using assms(1) last
      by (auto simp: far_ok_def nk wheel_frame expire_insert_far_def sorted_append split: if_splits)
  next
    case False
    then have "et_far_tail t = Some (last ?f)" "?f \<noteq> []" "\<not> ?k (last ?f) \<le> ?x"
      using assms(1) by (auto simp: far_ok_def split: if_splits)
    moreover have ne: "dropWhile (\<lambda>b. ?k b \<le> ?x) ?f \<noteq> []"
      using calculation(2,3) last_in_set [of ?f] by auto
    moreover have "last (dropWhile (\<lambda>b. ?k b \<le> ?x) ?f) = last ?f"
      using last_appendR [OF ne, of "takeWhile (\<lambda>b. ?k b \<le> ?x) ?f"] by simp
    ultimately show ?thesis using s [of "\<lambda>b. ?k b \<le> ?x"] after before
      by (auto simp: far_ok_def nk wheel_frame expire_insert_far_def Let_def sorted_append intro: order_trans)
  qed
qed

definition place_node :: "expire_tree \<Rightarrow> nat \<Rightarrow> level \<Rightarrow> nat \<Rightarrow> expire_tree" where
  "place_node t a L s =
     (if L = LV_FAR then expire_insert_far (set_place t a L s) a else expire_push (set_place t a L s) L s a)"

lemma place_frame [wheel_frame]:
  "et_cursor (place_node t a L s) = et_cursor t"
  "et_count (place_node t a L s) = et_count t"
  "et_mexp (place_node t a L s) = et_mexp t"
  "et_next (place_node t a L s) = et_next t"
  "et_heap (place_node t a L s) =
     (et_heap t)(a := map_option (\<lambda>n. n\<lparr>en_level := L, en_slot := s\<rparr>) (et_heap t a))"
  "node_key (place_node t a L s) = node_key t"
  by (auto simp: place_node_def node_key_def fun_eq_iff wheel_frame split: option.split)

lemma linked_place_node:
  assumes "linked (a # P) t" "far_ok t" "valid_place L s"
  shows "linked P (place_node t a L s) \<and> far_ok (place_node t a L s)"
proof (cases "L = LV_FAR")
  case False
  then have "far_ok (place_node t a L s)"
    using assms(2) by (simp add: place_node_def far_ok_def wheel_frame)
  then show ?thesis using False linked_push [OF assms(1,3)] by (simp add: place_node_def)
next
  case True
  let ?t = "set_place t a LV_FAR s"
  obtain n where n: "et_heap t a = Some n" using linked_pending [OF assms(1)] by auto
  have s: "s = 0" "valid_place LV_FAR s" using assms(3) True by auto
  have "a \<notin> set (et_far ?t)" "distinct (et_far ?t)" "far_ok ?t"
    using linked_member(1) [OF assms(1), of LV_FAR 0 a] linked_distinct [OF assms(1), of LV_FAR 0] assms(2)
    by (auto simp: wheel_frame far_ok_def)
  note far = insert_far_list [OF this(3,1,2)]
  have "expire_bucket (expire_insert_far ?t a) L' s' = expire_bucket t L' s'"
    if "valid_place L' s'" "(L', s') \<noteq> (LV_FAR, s)" for L' s'
    using that s(1) by (cases "L' = LV_FAR") (auto simp: wheel_frame)
  then have "linked P (expire_insert_far ?t a)"
    using far s by (intro linked_insert [OF assms(1) s(2) n]) (auto simp: wheel_frame n)
  then show ?thesis using far True by (simp add: place_node_def)
qed

text \<open>\<open>expire_schedule\<close> chooses a place that is on time for the base of the wheel.\<close>

lemma schedule_place:
  "\<exists>L s. valid_place L s \<and> expire_schedule wall t a = place_node t a L s \<and>
     (L = LV_DUE \<longleftrightarrow> node_key t a \<le> expire_base wall t) \<and>
     (L = LV_FAR \<longleftrightarrow> EXPIRE_SPAN3 \<le> node_key t a - expire_base wall t) \<and>
     (0 \<le> expire_base wall t \<longrightarrow> en_key n = node_key t a \<longrightarrow>
        on_time EXPIRE_SPAN3 (expire_base wall t) (n\<lparr>en_level := L, en_slot := s\<rparr>))"
proof -
  let ?k = "node_key t a" and ?b = "expire_base wall t"
  have step: "c div d < k div d" if "c + d \<le> k" "0 < d" for c k d :: int
    using zdiv_mono1 [OF that] div_add_self2 [of d c] that(2) by linarith
  consider "?k - ?b \<le> 0" | "0 < ?k - ?b" "?k - ?b < 256" | "256 \<le> ?k - ?b" "?k - ?b < 16384"
    | "16384 \<le> ?k - ?b" "?k - ?b < 1048576" | "1048576 \<le> ?k - ?b" "?k - ?b < 67108864"
    | "67108864 \<le> ?k - ?b" by linarith
  then show ?thesis
  proof cases
    case 1
    then show ?thesis
      by (intro exI [of _ LV_DUE] exI [of _ 0])
         (simp add: expire_schedule_def Let_def place_node_def on_time_def span_defs)
  next
    case 2
    then show ?thesis
      by (intro exI [of _ LV0] exI [of _ "wheel_slot ?k 1 EXPIRE_LV0_SIZE"])
         (simp add: expire_schedule_def Let_def place_node_def on_time_def wheel_slot_valid wheel_slot_lv0,
          simp add: span_defs)
  next
    case 3
    then show ?thesis using step [of ?b 256 ?k]
      by (intro exI [of _ LV1] exI [of _ "wheel_slot ?k EXPIRE_SPAN0 EXPIRE_LVN_SIZE"])
         (simp add: expire_schedule_def Let_def place_node_def on_time_def wheel_slot_valid wheel_slot_lvn
           EXPIRE_SPAN0_def, simp add: span_defs)
  next
    case 4
    then show ?thesis using step [of ?b 16384 ?k]
      by (intro exI [of _ LV2] exI [of _ "wheel_slot ?k EXPIRE_SPAN1 EXPIRE_LVN_SIZE"])
         (simp add: expire_schedule_def Let_def place_node_def on_time_def wheel_slot_valid,
          simp add: span_defs wheel_slot_lvn [unfolded span_defs])
  next
    case 5
    then show ?thesis using step [of ?b 1048576 ?k]
      by (intro exI [of _ LV3] exI [of _ "wheel_slot ?k EXPIRE_SPAN2 EXPIRE_LVN_SIZE"])
         (simp add: expire_schedule_def Let_def place_node_def on_time_def wheel_slot_valid,
          simp add: span_defs wheel_slot_lvn [unfolded span_defs])
  next
    case 6
    then show ?thesis
      by (intro exI [of _ LV_FAR] exI [of _ 0])
         (simp add: expire_schedule_def Let_def place_node_def on_time_def span_defs)
  qed
qed

lemma schedule_obtain:
  obtains L s where "valid_place L s" "expire_schedule wall t a = place_node t a L s"
    "L = LV_DUE \<longleftrightarrow> node_key t a \<le> expire_base wall t"
    "L = LV_FAR \<longleftrightarrow> EXPIRE_SPAN3 \<le> node_key t a - expire_base wall t"
  using schedule_place [of wall t a undefined] by (elim exE conjE) (rule that)

lemma schedule_frame [wheel_frame]:
  "et_cursor (expire_schedule wall t a) = et_cursor t"
  "et_count (expire_schedule wall t a) = et_count t"
  "et_mexp (expire_schedule wall t a) = et_mexp t"
  "et_next (expire_schedule wall t a) = et_next t"
  "node_key (expire_schedule wall t a) = node_key t"
proof -
  obtain L s where "expire_schedule wall t a = place_node t a L s" by (rule schedule_obtain)
  then show "et_cursor (expire_schedule wall t a) = et_cursor t"
    "et_count (expire_schedule wall t a) = et_count t" "et_mexp (expire_schedule wall t a) = et_mexp t"
    "et_next (expire_schedule wall t a) = et_next t" "node_key (expire_schedule wall t a) = node_key t"
    by (simp_all add: wheel_frame)
qed

lemma linked_schedule:
  assumes "linked (a # P) t" "far_ok t"
  shows "linked P (expire_schedule wall t a)" "far_ok (expire_schedule wall t a)"
  by (rule schedule_obtain [of wall t a]; use linked_place_node [OF assms] in simp)+

section \<open>The wheel while nodes are being moved\<close>

text \<open>
  \<open>moving P X B D now t\<close>: the nodes of \<open>P\<close> are off the lists; every other node is on time
  for the cursor unless \<open>X\<close> exempts it; and only the nodes of \<open>D\<close> and nodes with a key up to
  \<open>now\<close> are due.
\<close>

definition moving :: "nat list \<Rightarrow> (expire_node \<Rightarrow> bool) \<Rightarrow> int \<Rightarrow> nat set \<Rightarrow> int \<Rightarrow> expire_tree \<Rightarrow> bool" where
  "moving P X B D now t \<longleftrightarrow> linked P t \<and> far_ok t \<and> 0 < et_cursor t \<and> et_cursor t \<le> now \<and>
     (\<forall>a n. et_heap t a = Some n \<longrightarrow>
        (a \<in> set P \<or> X n \<or> on_time B (et_cursor t) n) \<and>
        (en_level n = LV_DUE \<longrightarrow> a \<in> D \<or> en_key n \<le> now))"

lemma moving_place:
  assumes m: "moving (a # P) X B D now t" and v: "valid_place L s" and n: "et_heap t a = Some n"
    and ok: "on_time B (et_cursor t) (n\<lparr>en_level := L, en_slot := s\<rparr>)"
    and due: "L = LV_DUE \<Longrightarrow> en_key n \<le> now"
  shows "moving P X B D now (place_node t a L s)"
  using assms linked_place_node [OF _ _ v, of a P t]
  by (auto simp: moving_def wheel_frame)

lemma moving_schedule:
  assumes "moving (a # P) X B D now t" "B \<le> EXPIRE_SPAN3"
  shows "moving P X B D now (expire_schedule wall t a)"
proof -
  have c: "expire_base wall t = et_cursor t" "0 < et_cursor t" "et_cursor t \<le> now"
    and l: "linked (a # P) t" using assms(1) by (auto simp: moving_def expire_base_def)
  obtain n where n: "et_heap t a = Some n" using linked_pending [OF l] by auto
  then have k: "node_key t a = en_key n" by (simp add: node_key_def)
  obtain L s where ls: "valid_place L s" "expire_schedule wall t a = place_node t a L s"
      "L = LV_DUE \<longleftrightarrow> en_key n \<le> et_cursor t"
      "on_time EXPIRE_SPAN3 (et_cursor t) (n\<lparr>en_level := L, en_slot := s\<rparr>)"
    using schedule_place [of wall t a n] c k by auto
  show ?thesis
    unfolding ls(2) using ls(3,4) c assms(2)
    by (intro moving_place [OF assms(1) ls(1) n]) (auto elim: on_time_mono)
qed

lemma moving_foldl:
  assumes "\<And>a P t. moving (a # P) X B D now t \<Longrightarrow> moving P X B D now (f t a)"
  shows "moving (as @ P) X B D now t \<Longrightarrow> moving P X B D now (foldl f t as)"
  by (induction as arbitrary: t) (auto intro: assms)

lemma moving_take:
  assumes "moving [] X B D now t" "valid_place L s" "L \<noteq> LV_DUE" "L \<noteq> LV_FAR"
  shows "moving (expire_bucket t L s) (\<lambda>n. X n \<and> \<not> (en_level n = L \<and> en_slot n = s)) B D now
           (set_bucket t L s [])"
proof -
  have l: "linked [] t" using assms(1) by (simp add: moving_def)
  have "linked (expire_bucket t L s) (set_bucket t L s [])"
    using linked_distinct [OF l assms(2)]
    by (intro linked_remove [OF l assms(2)]) (auto simp: wheel_frame assms(2))
  then show ?thesis
    using assms linked_place [OF l] by (auto simp: moving_def wheel_frame far_ok_def)
qed

lemma moving_cascade:
  assumes "moving [] X B D now t" "B \<le> EXPIRE_SPAN3" "valid_place L s" "L \<noteq> LV_DUE" "L \<noteq> LV_FAR"
  shows "moving [] (\<lambda>n. X n \<and> \<not> (en_level n = L \<and> en_slot n = s)) B D now (expire_cascade wall t L s)"
  unfolding expire_cascade_def
  by (rule moving_foldl) (use moving_take [OF assms(1,3-5)] moving_schedule [OF _ assms(2)] in auto)

lemma moving_visit:
  assumes "moving (a # P) X B D now t" "B \<le> EXPIRE_SPAN3"
  shows "moving P X B D now (visit_node wall now t a)"
proof -
  have "expire_push (set_place t a LV_DUE 0) LV_DUE 0 a = place_node t a LV_DUE 0"
    by (simp add: place_node_def)
  moreover have "linked (a # P) t" using assms(1) by (simp add: moving_def)
  then obtain n where "et_heap t a = Some n" using linked_pending [of "a # P" t a] by auto
  ultimately show ?thesis
    using moving_place [OF assms(1), of LV_DUE 0 n] moving_schedule [OF assms]
    by (auto simp: visit_node_def on_time_def node_key_def)
qed

section \<open>One second\<close>

lemma div_step:
  assumes "0 < d" "c div d < k div d" "\<not> (c + 1) div d < k div d"
  shows "(c + 1) mod d = 0 \<and> (c + 1) div d = (k :: int) div d"
proof -
  have "\<not> c mod d + 1 < d"
    using assms int_div_pos_eq [of "c + 1" d "c div d" "c mod d + 1"] by auto
  then have "c mod d + 1 = d" using pos_mod_bound [OF assms(1), of c] by linarith
  then have "c + 1 = (c div d + 1) * d"
    using div_mult_mod_eq [of c d] by (simp only: distrib_right)
  then have "(c + 1) div d = c div d + 1" "(c + 1) mod d = 0" using assms(1) by simp_all
  then show ?thesis using assms(2,3) by linarith
qed

definition stale :: "int \<Rightarrow> expire_node \<Rightarrow> bool" where
  "stale k n =
     (case en_level n of
        LV0 \<Rightarrow> en_slot n = nat (k mod 256)
      | LV1 \<Rightarrow> k mod 256 = 0 \<and> en_slot n = nat (k div 256 mod 64)
      | LV2 \<Rightarrow> k mod 16384 = 0 \<and> en_slot n = nat (k div 16384 mod 64)
      | LV3 \<Rightarrow> k mod 1048576 = 0 \<and> en_slot n = nat (k div 1048576 mod 64)
      | _ \<Rightarrow> False)"

lemma slot_step:
  "c div d < k div d \<and> s = nat (k div d mod 64) \<Longrightarrow> 0 < d \<Longrightarrow>
   (c + 1) div d < k div d \<or>
   (c + 1) mod d = 0 \<and> nat (k div d mod 64) = nat ((c + 1) div d mod 64)" for c d k :: int
  using div_step [of d c k] by auto

lemma slot_step0:
  "c < k \<and> s = nat (k mod 256) \<Longrightarrow> c + 1 < k \<or> nat (k mod 256) = nat ((c + 1) mod 256)" for c k :: int
  by (cases "c + 1 = k") auto

lemma on_time_step: "on_time (B + 1) c n \<Longrightarrow> on_time B (c + 1) n \<or> stale (c + 1) n"
  unfolding on_time_def stale_def
  by (cases "en_level n"; simp; (erule slot_step slot_step0)?; simp)

lemma moving_cursor:
  assumes "moving [] (\<lambda>_. False) (B + 1) D now t" "et_cursor t < now"
  shows "moving [] (stale (et_cursor t + 1)) B D now (t\<lparr>et_cursor := et_cursor t + 1\<rparr>)"
proof -
  have "linked [] (t\<lparr>et_cursor := c\<rparr>) = linked [] t" "far_ok (t\<lparr>et_cursor := c\<rparr>) = far_ok t" for c
  proof -
    have "expire_bucket (t\<lparr>et_cursor := c\<rparr>) L s = expire_bucket t L s" for L s by (cases L) auto
    then show "linked [] (t\<lparr>et_cursor := c\<rparr>) = linked [] t" by (simp add: linked_def at_place_def)
  qed (simp add: far_ok_def wheel_frame)
  then show ?thesis using assms on_time_step [of B "et_cursor t"]
    by (simp add: moving_def) blast
qed

lemma moving_weaken:
  assumes "moving P X B D now t" "\<And>n. X n \<Longrightarrow> Y n" shows "moving P Y B D now t"
  using assms by (auto simp: moving_def)

lemma cascade_cursor [wheel_frame]: "et_cursor (expire_cascade wall t L s) = et_cursor t"
proof -
  have "et_cursor (foldl (expire_schedule wall) t as) = et_cursor t" for t as
    by (induction as arbitrary: t) (auto simp: wheel_frame)
  then show ?thesis by (simp add: expire_cascade_def wheel_frame)
qed

text \<open>One cascade of the tick, guarded by the divisibility of the cursor.\<close>

lemma moving_guarded_cascade:
  assumes "moving [] X B D now t" "B \<le> EXPIRE_SPAN3" "L \<in> {LV1, LV2, LV3}" "0 < span"
    "\<And>n. X n \<Longrightarrow> en_level n = L \<Longrightarrow> g \<and> en_slot n = nat (c div span mod 64)" "0 < c"
  shows "moving [] (\<lambda>n. X n \<and> en_level n \<noteq> L) B D now
           (if g then expire_cascade wall t L (wheel_slot c span EXPIRE_LVN_SIZE) else t)"
proof (cases g)
  case True
  then have "moving [] (\<lambda>n. X n \<and> \<not> (en_level n = L \<and> en_slot n = wheel_slot c span EXPIRE_LVN_SIZE)) B D now
      (expire_cascade wall t L (wheel_slot c span EXPIRE_LVN_SIZE))"
    using assms by (intro moving_cascade) (auto simp: wheel_slot_valid)
  then show ?thesis
    using True assms(4-6) by (auto simp: wheel_slot_lvn elim!: moving_weaken)
next
  case False
  then show ?thesis using assms(5) by (auto intro: moving_weaken [OF assms(1)])
qed

lemma moving_tick:
  assumes m: "moving [] (\<lambda>_. False) (B + 1) D now t" and "et_cursor t < now" and B: "B \<le> EXPIRE_SPAN3"
  shows "moving [] (\<lambda>_. False) B D now (expire_tick wall now t)"
proof -
  define c where "c = et_cursor t + 1"
  define t0 where "t0 = t\<lparr>et_cursor := c\<rparr>"
  define t1 where "t1 = (if c AND (EXPIRE_SPAN0 - 1) = 0
                then expire_cascade wall t0 LV1 (wheel_slot c EXPIRE_SPAN0 EXPIRE_LVN_SIZE) else t0)"
  define t2 where "t2 = (if c mod EXPIRE_SPAN1 = 0
                then expire_cascade wall t1 LV2 (wheel_slot c EXPIRE_SPAN1 EXPIRE_LVN_SIZE) else t1)"
  define t3 where "t3 = (if c mod EXPIRE_SPAN2 = 0
                then expire_cascade wall t2 LV3 (wheel_slot c EXPIRE_SPAN2 EXPIRE_LVN_SIZE) else t2)"
  have c: "0 < c" using m by (simp add: moving_def c_def)
  have m0: "moving [] (stale c) B D now t0" unfolding t0_def c_def by (rule moving_cursor [OF m assms(2)])
  have m1: "moving [] (\<lambda>n. stale c n \<and> en_level n \<noteq> LV1) B D now t1" unfolding t1_def
    by (rule moving_guarded_cascade [OF m0 B _ _ _ c]) (auto simp: stale_def EXPIRE_SPAN0_def and_255)
  have m2: "moving [] (\<lambda>n. (stale c n \<and> en_level n \<noteq> LV1) \<and> en_level n \<noteq> LV2) B D now t2" unfolding t2_def
    by (rule moving_guarded_cascade [OF m1 B _ _ _ c]) (auto simp: stale_def span_defs)
  have m3: "moving [] (\<lambda>n. ((stale c n \<and> en_level n \<noteq> LV1) \<and> en_level n \<noteq> LV2) \<and> en_level n \<noteq> LV3) B D now t3"
    unfolding t3_def
    by (rule moving_guarded_cascade [OF m2 B _ _ _ c]) (auto simp: stale_def span_defs)
  let ?s = "wheel_slot c 1 EXPIRE_LV0_SIZE"
  have "moving (expire_bucket t3 LV0 ?s) (\<lambda>_. False) B D now (set_bucket t3 LV0 ?s [])"
    by (rule moving_weaken [OF moving_take [OF m3]])
       (auto simp: wheel_slot_valid wheel_slot_lv0 stale_def split: level.splits)
  then have "moving [] (\<lambda>_. False) B D now (foldl (visit_node wall now) (set_bucket t3 LV0 ?s []) (et_lv0 t3 ?s))"
    by (intro moving_foldl moving_visit B) auto
  moreover have "expire_tick wall now t = foldl (visit_node wall now) (set_bucket t3 LV0 ?s []) (et_lv0 t3 ?s)"
    by (simp add: expire_tick_def Let_def c_def t0_def t1_def t2_def t3_def)
  ultimately show ?thesis by simp
qed

lemma tick_cursor [wheel_frame]: "et_cursor (expire_tick wall now t) = et_cursor t + 1"
proof -
  have "et_cursor (foldl (visit_node wall now) t as) = et_cursor t" for t as
    by (induction as arbitrary: t) (auto simp: visit_node_def wheel_frame)
  then show ?thesis by (simp add: expire_tick_def Let_def wheel_frame)
qed

lemma moving_ticks:
  assumes "moving [] (\<lambda>_. False) (B + int k) D now t" "et_cursor t + int k \<le> now" "B + int k \<le> EXPIRE_SPAN3 + 1"
  shows "moving [] (\<lambda>_. False) B D now ((expire_tick wall now ^^ k) t) \<and>
         et_cursor ((expire_tick wall now ^^ k) t) = et_cursor t + int k"
  using assms
proof (induction k arbitrary: B)
  case (Suc k)
  from Suc.IH [of "B + 1"] Suc.prems
  have IH: "moving [] (\<lambda>_. False) (B + 1) D now ((expire_tick wall now ^^ k) t)"
    "et_cursor ((expire_tick wall now ^^ k) t) = et_cursor t + int k" by (auto simp: algebra_simps)
  then show ?case using moving_tick [OF IH(1)] Suc.prems by (simp add: wheel_frame)
qed simp

section \<open>Unlinking and the far list\<close>

lemma takeWhile_last_remove1:
  "distinct xs \<Longrightarrow> xs \<noteq> [] \<Longrightarrow> takeWhile (\<lambda>b. b \<noteq> last xs) xs = remove1 (last xs) xs"
  by (induction xs) auto

lemma last_remove1: "a \<noteq> last xs \<Longrightarrow> xs \<noteq> [] \<Longrightarrow> remove1 a xs \<noteq> [] \<and> last (remove1 a xs) = last xs"
  by (induction xs) (auto split: if_splits)

lemma sorted_map_remove1_gen: "sorted (map f xs) \<Longrightarrow> sorted (map f (remove1 a xs))"
  by (induction xs) (auto dest: notin_set_remove1 set_remove1_subset [THEN subsetD])

lemma unlink_eq:
  assumes "linked P t" "et_heap t a = Some n" "a \<notin> set P"
  shows "expire_unlink t a =
     (let t1 = set_bucket t (en_level n) (en_slot n) (remove1 a (expire_bucket t (en_level n) (en_slot n)))
      in if en_level n = LV_FAR \<and> et_far_tail t = Some a
         then t1\<lparr>et_far_tail := (case takeWhile (\<lambda>b. b \<noteq> a) (et_far t) of [] \<Rightarrow> None | ps \<Rightarrow> Some (last ps))\<rparr>
         else t1)"
  using linked_place [OF assms] assms(2) by (auto simp: expire_unlink_def Let_def)

lemma bucket_far_tail [wheel_frame]: "expire_bucket (t\<lparr>et_far_tail := x\<rparr>) L s = expire_bucket t L s"
  by (cases L) auto

lemma bucket_far [wheel_frame]:
  "expire_bucket (t\<lparr>et_far := xs\<rparr>) L s = (if L = LV_FAR then xs else expire_bucket t L s)"
  by (cases L) auto

lemma linked_unlink:
  assumes "linked P t" "et_heap t a = Some n" "a \<notin> set P"
  shows "linked (a # P) (expire_unlink t a)"
proof -
  let ?L = "en_level n" and ?s = "en_slot n"
  have v: "valid_place ?L ?s" "a \<in> set (expire_bucket t ?L ?s)" using linked_place [OF assms] by auto
  have b: "expire_bucket (expire_unlink t a) L s =
      (if L = ?L \<and> s = ?s then remove1 a (expire_bucket t ?L ?s) else expire_bucket t L s)"
    if "valid_place L s" for L s
    using that v by (cases "en_level n = LV_FAR") (auto simp: unlink_eq [OF assms] Let_def wheel_frame)
  have "distinct (expire_bucket t ?L ?s)" "distinct P" using assms(1) v(1) by (auto simp: linked_def)
  then show ?thesis
    using v assms(3) by (intro linked_remove [OF assms(1) v(1)]) (auto simp: b wheel_frame)
qed

lemma far_ok_unlink:
  assumes "linked P t" "et_heap t a = Some n" "a \<notin> set P" "far_ok t"
  shows "far_ok (expire_unlink t a)"
proof (cases "en_level n = LV_FAR")
  case False
  then have "et_far (expire_unlink t a) = et_far t" "et_far_tail (expire_unlink t a) = et_far_tail t"
    by (simp_all add: unlink_eq [OF assms(1-3)] Let_def wheel_frame)
  then show ?thesis using assms(4) by (simp add: far_ok_def node_key_heap [OF unlink_frame(1)])
next
  case True
  have a: "a \<in> set (et_far t)" "distinct (et_far t)" "en_slot n = 0"
    using linked_place [OF assms(1-3)] linked_distinct [OF assms(1), of LV_FAR 0] True by auto
  then have tail: "et_far_tail t = Some (last (et_far t))" "et_far t \<noteq> []" using assms(4) by (auto simp: far_ok_def)
  have far: "et_far (expire_unlink t a) = remove1 a (et_far t)"
    using True by (simp add: unlink_eq [OF assms(1-3)] Let_def)
  have "et_far_tail (expire_unlink t a) =
      (if remove1 a (et_far t) = [] then None else Some (last (remove1 a (et_far t))))"
  proof (cases "a = last (et_far t)")
    case True
    show ?thesis unfolding unlink_eq [OF assms(1-3)]
      using tail \<open>en_level n = LV_FAR\<close> takeWhile_last_remove1 [OF a(2) tail(2), folded True] True
      by (simp add: Let_def split: list.split)
  next
    case False
    then show ?thesis using tail last_remove1 [OF False tail(2)] \<open>en_level n = LV_FAR\<close>
      by (simp add: unlink_eq [OF assms(1-3)] Let_def)
  qed
  then show ?thesis
    using assms(4) far sorted_map_remove1_gen by (auto simp: far_ok_def node_key_heap [OF unlink_frame(1)])
qed

lemma moving_unlink:
  assumes "moving [] X B D now t" "et_heap t a = Some n"
  shows "moving [a] X B D now (expire_unlink t a)"
  using assms linked_unlink [of "[]" t a n] far_ok_unlink [of "[]" t a n]
  by (auto simp: moving_def wheel_frame)

lemma bucket_place_other:
  "valid_place L s \<Longrightarrow> L \<noteq> LV_FAR \<Longrightarrow> et_far (place_node t a L s) = et_far t"
  by (simp add: place_node_def wheel_frame)

lemma far_loop_round:
  fixes wall :: int
  assumes m: "moving [] (\<lambda>_. False) B D now t" and B: "B \<le> EXPIRE_SPAN3"
    and far: "et_far t = a # as" and k: "node_key t a - et_cursor t < EXPIRE_SPAN3"
  defines "t' \<equiv> expire_schedule wall (expire_unlink t a) a"
  shows "moving [] (\<lambda>_. False) B D now t'" "et_far t' = as"
proof -
  have l: "linked [] t" using m by (simp add: moving_def)
  obtain n where n: "et_heap t a = Some n" "en_level n = LV_FAR" "en_slot n = 0"
    using linked_member(2) [OF l, of LV_FAR 0 a] far by auto
  show "moving [] (\<lambda>_. False) B D now t'" unfolding t'_def
    by (rule moving_schedule [OF moving_unlink [OF m n(1)] B])
  have c: "0 < et_cursor t" using m by (simp add: moving_def)
  obtain L s where L: "valid_place L s" "t' = place_node (expire_unlink t a) a L s"
    "L = LV_FAR \<longleftrightarrow> EXPIRE_SPAN3 \<le> node_key (expire_unlink t a) a - expire_base wall (expire_unlink t a)"
    unfolding t'_def by (rule schedule_obtain)
  then have "L \<noteq> LV_FAR" using k c by (simp add: expire_base_def wheel_frame node_key_heap [OF unlink_frame(1)])
  then have "et_far t' = et_far (expire_unlink t a)" using L by (simp add: bucket_place_other)
  also have "\<dots> = as" using n(2,3) far by (simp add: unlink_eq [OF l n(1)] Let_def)
  finally show "et_far t' = as" .
qed

lemma far_loop_done:
  fixes wall :: int
  assumes "moving [] (\<lambda>_. False) B D now t" "B \<le> EXPIRE_SPAN3" "length (et_far t) \<le> fuel"
  defines "t' \<equiv> expire_far_loop wall fuel t"
  shows "moving [] (\<lambda>_. False) B D now t' \<and> et_cursor t' = et_cursor t \<and>
     (et_far t' = [] \<or> EXPIRE_SPAN3 \<le> node_key t' (hd (et_far t')) - et_cursor t')"
  using assms(1,3) unfolding t'_def
proof (induction fuel arbitrary: t)
  case (Suc fuel)
  show ?case
  proof (cases "et_far t")
    case (Cons a as)
    show ?thesis
    proof (cases "node_key t a - et_cursor t < EXPIRE_SPAN3")
      case True
      note r = far_loop_round [OF Suc.prems(1) assms(2) Cons True, where wall = wall]
      show ?thesis using Suc.IH [OF r(1)] r(2) Suc.prems(2) Cons True by (auto simp: wheel_frame)
    qed (use Suc.prems Cons in auto)
  qed (use Suc.prems in auto)
qed auto

lemma moving_settle:
  assumes "moving [] (\<lambda>_. False) B D now t"
    "et_far t = [] \<or> EXPIRE_SPAN3 \<le> node_key t (hd (et_far t)) - et_cursor t"
  shows "moving [] (\<lambda>_. False) EXPIRE_SPAN3 D now t"
proof -
  have "EXPIRE_SPAN3 \<le> en_key n - et_cursor t" if n: "et_heap t a = Some n" "en_level n = LV_FAR" for a n
  proof -
    have l: "linked [] t" "far_ok t" using assms(1) by (auto simp: moving_def)
    have a: "a \<in> set (et_far t)" using linked_place [OF l(1) n(1)] n(2) by simp
    then have "node_key t (hd (et_far t)) \<le> node_key t a"
      using l(2) by (cases "et_far t") (auto simp: far_ok_def)
    moreover have "node_key t a = en_key n" using n(1) by (simp add: node_key_def)
    ultimately show ?thesis using assms(2) a by auto
  qed
  then show ?thesis using assms(1) by (auto simp: moving_def on_time_def split: level.splits)
qed

section \<open>Emptying every list\<close>

definition all_places :: "(level \<times> nat) list" where
  "all_places = [(LV_DUE, 0), (LV_FAR, 0)] @ map (Pair LV0) [0..<256] @
     concat (map (\<lambda>i. [(LV1, i), (LV2, i), (LV3, i)]) [0..<64])"

lemma all_places_set: "(L, s) \<in> set all_places \<longleftrightarrow> valid_place L s"
  by (cases L) (auto simp: all_places_def)

lemma distinct_level_triples: "distinct (concat (map (\<lambda>i. [(LV1, i), (LV2, i), (LV3, i)]) [m..<n]))"
  by (induction n) auto

lemma distinct_all_places: "distinct all_places"
  unfolding all_places_def using distinct_level_triples
  by (auto simp: distinct_map inj_on_def)

lemma all_buckets_places: "all_buckets t = map (\<lambda>(L, s). expire_bucket t L s) all_places"
  by (simp add: all_buckets_def all_places_def map_concat comp_def)

lemma distinct_concat_map:
  assumes "distinct ps" "\<And>p. p \<in> set ps \<Longrightarrow> distinct (f p)"
    "\<And>p q. p \<in> set ps \<Longrightarrow> q \<in> set ps \<Longrightarrow> p \<noteq> q \<Longrightarrow> set (f p) \<inter> set (f q) = {}"
  shows "distinct (concat (map f ps))"
  using assms
proof (induction ps)
  case (Cons p ps)
  have "set (f p) \<inter> set (f q) = {}" if "q \<in> set ps" for q
    using Cons.prems(1) that by (intro Cons.prems(3)) auto
  then show ?case using Cons by auto
qed simp

lemma linked_all_nodes:
  assumes "linked [] t"
  shows "distinct (concat (all_buckets t))" "set (concat (all_buckets t)) = dom (et_heap t)"
proof -
  let ?f = "\<lambda>(L, s). expire_bucket t L s"
  have v: "valid_place L s" if "(L, s) \<in> set all_places" for L s using that all_places_set by blast
  show "distinct (concat (all_buckets t))" unfolding all_buckets_places
  proof (rule distinct_concat_map [OF distinct_all_places])
    fix p assume p: "p \<in> set all_places"
    obtain L s where "p = (L, s)" by (cases p)
    then show "distinct (?f p)" using linked_distinct [OF assms v] p by simp
  next
    fix p q assume "p \<in> set all_places" "q \<in> set all_places" "p \<noteq> q"
    moreover obtain L s L' s' where pq: "p = (L, s)" "q = (L', s')" by (cases p; cases q)
    ultimately have v2: "valid_place L s" "valid_place L' s'" "(L, s) \<noteq> (L', s')" using v by auto
    have "x \<notin> set (expire_bucket t L' s')" if "x \<in> set (expire_bucket t L s)" for x
      using linked_member(2) [OF assms v2(1) that] linked_member(2) [OF assms v2(2), of x] v2(3) by auto
    then show "set (?f p) \<inter> set (?f q) = {}" by (auto simp: pq)
  qed
  show "set (concat (all_buckets t)) = dom (et_heap t)"
  proof (intro set_eqI iffI)
    fix a assume "a \<in> set (concat (all_buckets t))"
    then obtain L s where ls: "(L, s) \<in> set all_places" "a \<in> set (expire_bucket t L s)"
      by (auto simp: all_buckets_places)
    show "a \<in> dom (et_heap t)" using linked_member(2) [OF assms v [OF ls(1)] ls(2)] by auto
  next
    fix a assume "a \<in> dom (et_heap t)"
    then obtain L s where "(L, s) \<in> set all_places" "a \<in> set (expire_bucket t L s)"
      using linked_cover [OF assms, of a] by (auto simp: all_places_set)
    then show "a \<in> set (concat (all_buckets t))" by (auto simp: all_buckets_places)
  qed
qed

lemma take_all_list: "fst (take_all t) = rev (concat (all_buckets t))"
proof -
  have "foldl (\<lambda>acc b. expire_take_bucket b acc) acc bs = rev (concat bs) @ acc" for acc bs
    by (induction bs arbitrary: acc) (auto simp: expire_take_bucket_def)
  then show ?thesis by (simp add: take_all_def)
qed

lemma take_all_frame [wheel_frame]:
  "et_heap (snd (take_all t)) = et_heap t" "et_cursor (snd (take_all t)) = et_cursor t"
  "et_mexp (snd (take_all t)) = et_mexp t" "et_count (snd (take_all t)) = et_count t"
  "et_next (snd (take_all t)) = et_next t" "et_far (snd (take_all t)) = []"
  "et_far_tail (snd (take_all t)) = None" "et_due (snd (take_all t)) = []"
  by (simp_all add: take_all_def)

lemma linked_take_all:
  assumes "linked [] t" shows "linked (fst (take_all t)) (snd (take_all t))"
proof (rule linkedI)
  have b: "expire_bucket (snd (take_all t)) L s = []" if "valid_place L s" for L s
    using that by (cases L) (auto simp: take_all_def)
  show "distinct (fst (take_all t))" "set (fst (take_all t)) \<subseteq> dom (et_heap (snd (take_all t)))"
    using linked_all_nodes [OF assms] by (auto simp: take_all_list wheel_frame simp del: set_concat)
  show "distinct (expire_bucket (snd (take_all t)) L s)" if "valid_place L s" for L s using b [OF that] by simp
  show "a \<notin> set (fst (take_all t)) \<and> at_place (snd (take_all t)) a L s"
    if "valid_place L s" "a \<in> set (expire_bucket (snd (take_all t)) L s)" for L s a using b [OF that(1)] that by simp
  show "a \<in> set (fst (take_all t)) \<or>
      (\<exists>L s. valid_place L s \<and> a \<in> set (expire_bucket (snd (take_all t)) L s))"
    if "a \<in> dom (et_heap (snd (take_all t)))" for a
    using that linked_all_nodes(2) [OF assms] by (auto simp: take_all_list wheel_frame simp del: set_concat)
qed

lemma moving_reschedule_all:
  assumes "linked [] t" "0 < et_cursor t" "et_cursor t \<le> now"
    "\<And>a n. et_heap t a = Some n \<Longrightarrow> en_level n = LV_DUE \<Longrightarrow> a \<in> D \<or> en_key n \<le> now"
  shows "moving [] (\<lambda>_. False) EXPIRE_SPAN3 D now (expire_reschedule_all wall t)"
proof -
  have "a \<in> set (fst (take_all t))" if "et_heap t a = Some n" for a n
    using that linked_all_nodes(2) [OF assms(1)] by (auto simp: take_all_list simp del: set_concat)
  then have "moving (fst (take_all t)) (\<lambda>_. False) EXPIRE_SPAN3 D now (snd (take_all t))"
    using assms linked_take_all [OF assms(1)] by (auto simp: moving_def wheel_frame far_ok_def)
  then show ?thesis
    unfolding expire_reschedule_all_def split_beta Let_def
    by (intro moving_foldl [where P = "[]"]) (auto intro: moving_schedule)
qed

section \<open>What moving a node leaves alone\<close>

text \<open>The identity of the nodes: key and owner at every address, the owners' links, the counters.\<close>

definition ident :: "expire_tree \<Rightarrow> (nat \<Rightarrow> (int \<times> nat) option) \<times> (nat \<rightharpoonup> nat) \<times> int \<times> nat" where
  "ident t = (\<lambda>a. map_option (\<lambda>n. (en_key n, en_metric n)) (et_heap t a), et_mexp t, et_count t, et_next t)"

lemma ident_place [wheel_frame]: "ident (place_node t a L s) = ident t"
  by (auto simp: ident_def wheel_frame fun_eq_iff option.map_comp comp_def)

lemma ident_schedule [wheel_frame]: "ident (expire_schedule wall t a) = ident t"
  by (rule schedule_obtain [of wall t a]) (simp add: wheel_frame)

lemma ident_simple [wheel_frame]:
  "ident (set_bucket t L s xs) = ident t" "ident (t\<lparr>et_cursor := c\<rparr>) = ident t"
  "ident (expire_unlink t a) = ident t" "ident (snd (take_all t)) = ident t"
  by (simp_all add: ident_def wheel_frame)

lemma ident_foldl: "(\<And>t a. ident (f t a) = ident t) \<Longrightarrow> ident (foldl f t as) = ident t"
  by (induction as arbitrary: t) auto

lemma cursor_foldl: "(\<And>t a. et_cursor (f t a) = et_cursor t) \<Longrightarrow> et_cursor (foldl f t as) = et_cursor t"
  by (induction as arbitrary: t) auto

lemma ident_due [wheel_frame]: "ident (expire_push (set_place t a LV_DUE 0) LV_DUE 0 a) = ident t"
  using ident_place [of t a LV_DUE 0] by (simp add: place_node_def)

lemma ident_wheel [wheel_frame]:
  "ident (expire_cascade wall t L s) = ident t"
  "ident (expire_reschedule_all wall t) = ident t"
  "ident (expire_tick wall now t) = ident t"
  "ident (expire_far_loop wall fuel t) = ident t"
  "ident (expire_drain_all t) = ident t"
proof -
  show c: "ident (expire_cascade wall t L s) = ident t" for t L s
    by (simp add: expire_cascade_def ident_foldl wheel_frame)
  show "ident (expire_reschedule_all wall t) = ident t"
    by (simp add: expire_reschedule_all_def split_beta ident_foldl wheel_frame)
  show "ident (expire_tick wall now t) = ident t"
    by (simp add: expire_tick_def Let_def visit_node_def ident_foldl c wheel_frame del: set_bucket.simps)
  show "ident (expire_far_loop wall fuel t) = ident t"
    by (induction fuel arbitrary: t) (auto simp: wheel_frame split: list.split)
  show "ident (expire_drain_all t) = ident t"
    by (simp add: expire_drain_all_def split_beta ident_foldl wheel_frame)
qed

lemma ident_ticks [wheel_frame]: "ident ((expire_tick wall now ^^ k) t) = ident t"
  by (induction k) (simp_all add: wheel_frame)

lemma ident_advance [wheel_frame]: "ident (expire_wheel_advance wall t now) = ident t"
  by (simp add: expire_wheel_advance_def Let_def wheel_frame)

lemma reschedule_cursor [wheel_frame]: "et_cursor (expire_reschedule_all wall t) = et_cursor t"
  by (simp add: expire_reschedule_all_def split_beta cursor_foldl wheel_frame)

section \<open>The wheel between operations\<close>

definition owner_ok :: "expire_tree \<Rightarrow> bool" where
  "owner_ok t \<longleftrightarrow> (\<forall>a n. et_heap t a = Some n \<longrightarrow> et_mexp t (en_metric n) = Some a \<and> a < et_next t) \<and>
     (\<forall>m a. et_mexp t m = Some a \<longrightarrow> (\<exists>n. et_heap t a = Some n \<and> en_metric n = m)) \<and>
     et_count t = int (card (dom (et_heap t)))"

definition placed :: "expire_tree \<Rightarrow> bool" where
  "placed t \<longleftrightarrow> linked [] t \<and> far_ok t \<and>
     (0 < et_cursor t \<longrightarrow> (\<forall>a n. et_heap t a = Some n \<longrightarrow> on_time EXPIRE_SPAN3 (et_cursor t) n))"

definition wheel_inv :: "expire_tree \<Rightarrow> bool" where
  "wheel_inv t \<longleftrightarrow> placed t \<and> owner_ok t"

lemma ident_heap:
  assumes "ident t' = ident t"
  shows "et_heap t' a = Some n \<Longrightarrow> \<exists>n0. et_heap t a = Some n0 \<and> en_key n0 = en_key n \<and> en_metric n0 = en_metric n"
    and "dom (et_heap t') = dom (et_heap t)" and "et_mexp t' = et_mexp t" and "et_count t' = et_count t"
    and "et_next t' = et_next t" and "node_key t' = node_key t"
proof -
  have i: "map_option (\<lambda>n. (en_key n, en_metric n)) (et_heap t' a)
      = map_option (\<lambda>n. (en_key n, en_metric n)) (et_heap t a)" for a
    using assms by (simp add: ident_def fun_eq_iff)
  show "et_heap t' a = Some n \<Longrightarrow> \<exists>n0. et_heap t a = Some n0 \<and> en_key n0 = en_key n \<and> en_metric n0 = en_metric n"
    using i [of a] by (cases "et_heap t a") auto
  have "(et_heap t' a = None) = (et_heap t a = None)" for a using i [of a] by (cases "et_heap t a") auto
  then show "dom (et_heap t') = dom (et_heap t)" by (auto simp: dom_def)
  show "node_key t' = node_key t"
  proof
    fix a show "node_key t' a = node_key t a"
      using i [of a] by (auto simp: node_key_def split: option.splits)
  qed
qed (use assms in \<open>auto simp: ident_def\<close>)

lemma owner_okD:
  "owner_ok t \<Longrightarrow> et_heap t a = Some n \<Longrightarrow> et_mexp t (en_metric n) = Some a"
  "owner_ok t \<Longrightarrow> et_heap t a = Some n \<Longrightarrow> a < et_next t"
  "owner_ok t \<Longrightarrow> et_mexp t m = Some a \<Longrightarrow> \<exists>n. et_heap t a = Some n \<and> en_metric n = m"
  "owner_ok t \<Longrightarrow> et_count t = int (card (dom (et_heap t)))"
  by (simp_all add: owner_ok_def)

lemma owner_ok_ident:
  assumes "ident t' = ident t" "owner_ok t" shows "owner_ok t'"
proof -
  note h = ident_heap [OF assms(1)] and h' = ident_heap [OF assms(1) [symmetric]]
  show ?thesis
    unfolding owner_ok_def h(2-5)
  proof (intro conjI allI impI)
    fix a n assume "et_heap t' a = Some n"
    then obtain n0 where "et_heap t a = Some n0" "en_metric n0 = en_metric n" using h(1) by blast
    then show "et_mexp t (en_metric n) = Some a" "a < et_next t" using owner_okD(1,2) [OF assms(2), of a n0] by simp_all
  next
    fix m a assume "et_mexp t m = Some a"
    then obtain n0 where "et_heap t a = Some n0" "en_metric n0 = m" using owner_okD(3) [OF assms(2)] by blast
    then show "\<exists>n. et_heap t' a = Some n \<and> en_metric n = m" using h'(1) by blast
  qed (rule owner_okD(4) [OF assms(2)])
qed

lemma finite_nodes: "linked [] t \<Longrightarrow> finite (dom (et_heap t))"
  using linked_all_nodes(2) [of t] by (metis List.finite_set)

lemma moving_placed:
  "moving [] (\<lambda>_. False) EXPIRE_SPAN3 D now t \<Longrightarrow> placed t"
  by (auto simp: moving_def placed_def)

lemma placed_moving:
  assumes "placed t" "0 < et_cursor t" "et_cursor t \<le> now"
  shows "moving [] (\<lambda>_. False) EXPIRE_SPAN3 (set (et_due t)) now t"
proof -
  have "linked [] t" using assms by (simp add: placed_def)
  then have "a \<in> set (et_due t)" if "et_heap t a = Some n" "en_level n = LV_DUE" for a n
    using linked_place [of "[]" t a n] that by simp
  then show ?thesis using assms by (auto simp: moving_def placed_def)
qed

lemma linked_cursor [wheel_frame]:
  "linked P (t\<lparr>et_cursor := c\<rparr>) = linked P t" "far_ok (t\<lparr>et_cursor := c\<rparr>) = far_ok t"
proof -
  have "expire_bucket (t\<lparr>et_cursor := c\<rparr>) L s = expire_bucket t L s" for L s by (cases L) auto
  then show "linked P (t\<lparr>et_cursor := c\<rparr>) = linked P t" by (simp add: linked_def at_place_def)
qed (simp add: far_ok_def wheel_frame)

lemma moving_jump:
  assumes "placed t" "0 < now"
  shows "moving [] (\<lambda>_. False) EXPIRE_SPAN3 (set (et_due t)) now
           (expire_reschedule_all wall (t\<lparr>et_cursor := now\<rparr>))"
proof -
  have l: "linked [] t" using assms(1) by (simp add: placed_def)
  have "a \<in> set (et_due t)" if "et_heap t a = Some n" "en_level n = LV_DUE" for a n
    using linked_place [OF l that(1)] that(2) by simp
  then show ?thesis using l assms(2) by (intro moving_reschedule_all) (auto simp: wheel_frame)
qed

lemma moving_back:
  assumes "placed t" "0 < now" "now < et_cursor t"
  shows "moving [] (\<lambda>_. False) EXPIRE_SPAN3 (set (et_due t)) now (t\<lparr>et_cursor := now\<rparr>)"
proof -
  have l: "linked [] t" using assms(1) by (simp add: placed_def)
  have "on_time EXPIRE_SPAN3 now n" if "et_heap t a = Some n" for a n
    using assms that on_time_mono [of EXPIRE_SPAN3 "et_cursor t" n EXPIRE_SPAN3 now] by (auto simp: placed_def)
  moreover have "a \<in> set (et_due t)" if "et_heap t a = Some n" "en_level n = LV_DUE" for a n
    using linked_place [OF l that(1)] that(2) by simp
  ultimately show ?thesis using assms by (auto simp: moving_def placed_def wheel_frame)
qed

lemma moving_walk:
  fixes wall :: int
  assumes "placed t" "0 < et_cursor t" "et_cursor t \<le> now" "now - et_cursor t \<le> EXPIRE_SPAN1"
  defines "t1 \<equiv> (expire_tick wall now ^^ nat (now - et_cursor t)) t"
  shows "moving [] (\<lambda>_. False) EXPIRE_SPAN3 (set (et_due t)) now (expire_far_loop wall (length (et_far t1)) t1)"
    and "et_cursor (expire_far_loop wall (length (et_far t1)) t1) = now"
proof -
  let ?k = "nat (now - et_cursor t)"
  have "moving [] (\<lambda>_. False) (EXPIRE_SPAN3 - int ?k) (set (et_due t)) now t1 \<and> et_cursor t1 = et_cursor t + int ?k"
    unfolding t1_def using assms(3) placed_moving [OF assms(1-3)]
    by (intro moving_ticks) auto
  moreover have "EXPIRE_SPAN3 - int ?k \<le> EXPIRE_SPAN3" by simp
  ultimately have f: "moving [] (\<lambda>_. False) (EXPIRE_SPAN3 - int ?k) (set (et_due t)) now t1"
      "et_cursor t1 = now" "EXPIRE_SPAN3 - int ?k \<le> EXPIRE_SPAN3" using assms(3) by auto
  note d = far_loop_done [OF f(1,3) order_refl, where wall = wall]
  show "moving [] (\<lambda>_. False) EXPIRE_SPAN3 (set (et_due t)) now (expire_far_loop wall (length (et_far t1)) t1)"
    using d by (intro moving_settle [of "EXPIRE_SPAN3 - int ?k"]) auto
  show "et_cursor (expire_far_loop wall (length (et_far t1)) t1) = now" using d f(2) by simp
qed

lemma moving_advance:
  assumes "placed t" "0 < now"
  shows "moving [] (\<lambda>_. False) EXPIRE_SPAN3 (set (et_due t)) now (expire_wheel_advance wall t now) \<and>
         et_cursor (expire_wheel_advance wall t now) = now"
  using moving_jump [OF assms, of wall] moving_back [OF assms] moving_walk [OF assms(1), where now = now and wall = wall] assms(2)
  by (auto simp: expire_wheel_advance_def Let_def wheel_frame)

section \<open>The expiry map\<close>

definition expiry_of :: "expire_tree \<Rightarrow> nat \<rightharpoonup> int" where
  "expiry_of t m = (case et_mexp t m of None \<Rightarrow> None | Some a \<Rightarrow> map_option en_key (et_heap t a))"

definition is_due :: "expire_tree \<Rightarrow> nat \<Rightarrow> bool" where
  "is_due t m = (case et_mexp t m of
      None \<Rightarrow> False
    | Some a \<Rightarrow> (case et_heap t a of None \<Rightarrow> False | Some n \<Rightarrow> en_level n = LV_DUE))"

lemma expiry_ident: "ident t' = ident t \<Longrightarrow> expiry_of t' = expiry_of t"
proof
  fix m assume i: "ident t' = ident t"
  have "map_option en_key (et_heap t' a) = map_option en_key (et_heap t a)" for a
    using arg_cong [OF i, of "\<lambda>i. map_option fst (fst i a)"] by (simp add: ident_def option.map_comp comp_def)
  then show "expiry_of t' m = expiry_of t m"
    using i by (auto simp: expiry_of_def ident_def split: option.split)
qed

lemma linked_free:
  assumes "linked (a # P) t"
  shows "linked P (t\<lparr>et_mexp := x, et_heap := (et_heap t)(a := None), et_count := c\<rparr>)" (is "linked P ?t")
proof (rule linkedI)
  have b: "expire_bucket ?t L s = expire_bucket t L s" for L s by (cases L) auto
  have d: "dom (et_heap ?t) = dom (et_heap t) - {a}" by auto
  show "distinct P" "set P \<subseteq> dom (et_heap ?t)" using assms by (auto simp: linked_def)
  show "distinct (expire_bucket ?t L s)" if "valid_place L s" for L s
    using linked_distinct [OF assms that] by (simp add: b)
  show "e \<notin> set P \<and> at_place ?t e L s" if "valid_place L s" "e \<in> set (expire_bucket ?t L s)" for L s e
    using linked_member [OF assms that(1), of e] that(2) by (auto simp: b at_place_def)
  show "e \<in> set P \<or> (\<exists>L s. valid_place L s \<and> e \<in> set (expire_bucket ?t L s))"
    if "e \<in> dom (et_heap ?t)" for e
    using linked_cover [OF assms, of e] that by (simp add: b d)
qed

lemma linked_alloc:
  assumes "linked P t" "a \<notin> dom (et_heap t)"
  shows "linked (a # P) (t\<lparr>et_heap := (et_heap t)(a \<mapsto> n), et_mexp := x, et_next := y, et_count := c\<rparr>)"
    (is "linked _ ?t")
proof (rule linkedI)
  have b: "expire_bucket ?t L s = expire_bucket t L s" for L s by (cases L) auto
  show "distinct (a # P)" "set (a # P) \<subseteq> dom (et_heap ?t)" using assms by (auto simp: linked_def)
  show "distinct (expire_bucket ?t L s)" if "valid_place L s" for L s
    using linked_distinct [OF assms(1) that] by (simp add: b)
  show "e \<notin> set (a # P) \<and> at_place ?t e L s" if "valid_place L s" "e \<in> set (expire_bucket ?t L s)" for L s e
    using linked_member [OF assms(1) that(1), of e] that(2) assms(2) by (auto simp: b at_place_def)
  show "e \<in> set (a # P) \<or> (\<exists>L s. valid_place L s \<and> e \<in> set (expire_bucket ?t L s))"
    if "e \<in> dom (et_heap ?t)" for e
    using linked_cover [OF assms(1), of e] that by (cases "e = a") (simp_all add: b)
qed

lemma far_ok_change:
  assumes "far_ok t" "et_far t' = et_far t" "et_far_tail t' = et_far_tail t"
    "\<And>b. b \<in> set (et_far t) \<Longrightarrow> node_key t' b = node_key t b"
  shows "far_ok t'"
proof -
  have m: "map (node_key t') (et_far t) = map (node_key t) (et_far t)" using assms(4) by simp
  show ?thesis using assms(1) unfolding far_ok_def assms(2,3) m .
qed

lemma placed_schedule:
  assumes "linked [a] t" "far_ok t"
    "0 < et_cursor t \<Longrightarrow> \<forall>b n. et_heap t b = Some n \<longrightarrow> b \<noteq> a \<longrightarrow> on_time EXPIRE_SPAN3 (et_cursor t) n"
  shows "placed (expire_schedule wall t a)"
proof (cases "0 < et_cursor t")
  case True
  then have "moving [a] (\<lambda>_. False) EXPIRE_SPAN3 UNIV (et_cursor t) t"
    using assms by (auto simp: moving_def)
  then show ?thesis using moving_schedule [of a "[]"] moving_placed by blast
next
  case False
  then show ?thesis using linked_schedule [OF assms(1,2)] by (simp add: placed_def wheel_frame)
qed

lemma unlinked:
  assumes "placed t" "et_heap t a = Some n"
  shows "linked [a] (expire_unlink t a)" "far_ok (expire_unlink t a)"
  using assms linked_unlink [of "[]" t a n] far_ok_unlink [of "[]" t a n] by (auto simp: placed_def)

text \<open>\<open>expire_unlink\<close> followed by \<open>expire_schedule\<close>, as the purge loop does to a node that is not due.\<close>

lemma placed_reschedule:
  assumes "placed t" "et_heap t a = Some n"
  shows "placed (expire_schedule wall (expire_unlink t a) a)"
  using unlinked [OF assms] assms by (intro placed_schedule) (auto simp: placed_def wheel_frame)

section \<open>Forgetting and arming\<close>

lemma card_remove: "finite (dom f) \<Longrightarrow> a \<in> dom f \<Longrightarrow> int (card (dom f - {a})) = int (card (dom f)) - 1"
  by (metis card_Diff_singleton card_gt_0_iff empty_iff int_ops(6) less_one linorder_not_less of_nat_1
      of_nat_le_iff Suc_leI One_nat_def)

lemma wheel_forget:
  assumes "wheel_inv t"
  shows "wheel_inv (expire_forget_locked t m)"
    "expiry_of (expire_forget_locked t m) = (expiry_of t)(m := None)"
    "is_due (expire_forget_locked t m) = (is_due t)(m := False)"
    "et_cursor (expire_forget_locked t m) = et_cursor t"
    "et_mexp (expire_forget_locked t m) = (et_mexp t)(m := None)"
proof -
  let ?t = "expire_forget_locked t m"
  have p: "placed t" and o: "owner_ok t" using assms by (auto simp: wheel_inv_def)
  have "wheel_inv ?t \<and> expiry_of ?t = (expiry_of t)(m := None) \<and> is_due ?t = (is_due t)(m := False) \<and>
     et_cursor ?t = et_cursor t \<and> et_mexp ?t = (et_mexp t)(m := None)"
  proof (cases "et_mexp t m")
    case None
    then show ?thesis using assms by (auto simp: expire_forget_locked_def expiry_of_def is_due_def fun_eq_iff)
  next
    case (Some a)
    obtain n where n: "et_heap t a = Some n" "en_metric n = m" using owner_okD(3) [OF o Some] by blast
    have heap: "et_heap ?t = (et_heap t)(a := None)" and mexp: "et_mexp ?t = (et_mexp t)(m := None)"
      and cur: "et_cursor ?t = et_cursor t" "et_next ?t = et_next t"
      and cnt: "et_count ?t = (if et_count t > 0 then et_count t - 1 else et_count t)"
      and far: "et_far ?t = et_far (expire_unlink t a)" "et_far_tail ?t = et_far_tail (expire_unlink t a)"
      by (simp_all add: expire_forget_locked_def Some Let_def wheel_frame)
    have l: "linked [] ?t"
      using linked_free [OF unlinked(1) [OF p n(1)]] by (simp add: expire_forget_locked_def Some Let_def)
    have other: "b \<noteq> a" if "et_mexp t m' = Some b" "m' \<noteq> m" for b m'
      using owner_okD(3) [OF o that(1)] n that(2) by auto
    have "a \<notin> set (et_far (expire_unlink t a))"
      using linked_member(1) [OF unlinked(1) [OF p n(1)], of LV_FAR 0 a] by auto
    then have "far_ok ?t"
      using unlinked(2) [OF p n(1)] by (intro far_ok_change [OF _ far]) (auto simp: node_key_def heap wheel_frame)
    then have "placed ?t" using l p by (auto simp: placed_def heap cur)
    moreover have fin: "finite (dom (et_heap t))" using p by (auto simp: placed_def intro: finite_nodes)
    then have "0 < card (dom (et_heap t))" using n(1) by (auto simp: card_gt_0_iff)
    then have "et_count ?t = int (card (dom (et_heap ?t)))"
      using card_remove [OF fin domI [where m = "et_heap t", OF n(1)]] owner_okD(4) [OF o] by (auto simp: cnt heap)
    then have "owner_ok ?t" unfolding owner_ok_def
      using owner_okD(1-3) [OF o] n other by (auto simp: heap mexp cur) (metis n(2) option.inject)
    moreover have "expiry_of ?t = (expiry_of t)(m := None)" "is_due ?t = (is_due t)(m := False)"
      using other by (auto simp: expiry_of_def is_due_def heap mexp fun_eq_iff split: option.split)
    ultimately show ?thesis using cur mexp by (simp add: wheel_inv_def)
  qed
  then show "wheel_inv ?t" "expiry_of ?t = (expiry_of t)(m := None)" "is_due ?t = (is_due t)(m := False)"
    "et_cursor ?t = et_cursor t" "et_mexp ?t = (et_mexp t)(m := None)" by auto
qed

lemma schedule_heap:
  "et_heap t a = Some n \<Longrightarrow> \<exists>L s. et_heap (expire_schedule wall t a) =
     (et_heap t)(a \<mapsto> n\<lparr>en_level := L, en_slot := s\<rparr>) \<and> (L = LV_DUE \<longleftrightarrow> node_key t a \<le> expire_base wall t)"
  by (rule schedule_obtain [of wall t a]) (auto simp: wheel_frame)

lemma wheel_arm_fresh:
  fixes key :: int
  assumes "wheel_inv t" "et_mexp t m = None"
  defines "a \<equiv> et_next t"
  defines "t2 \<equiv> t\<lparr>et_heap := (et_heap t)(a \<mapsto> \<lparr>en_key = key, en_metric = m, en_level = LV_DUE, en_slot = 0\<rparr>),
                  et_mexp := (et_mexp t)(m \<mapsto> a), et_next := Suc a, et_count := et_count t + 1\<rparr>"
  shows "wheel_inv (expire_schedule wall t2 a)"
    "expiry_of (expire_schedule wall t2 a) = (expiry_of t)(m \<mapsto> key)"
    "is_due (expire_schedule wall t2 a) = (is_due t)(m := key \<le> expire_base wall t)"
proof -
  have p: "placed t" and o: "owner_ok t" using assms(1) by (auto simp: wheel_inv_def)
  have fresh: "a \<notin> dom (et_heap t)" using owner_okD(2) [OF o, of a] by (auto simp: a_def)
  have l: "linked [] t" and f: "far_ok t" using p by (auto simp: placed_def)
  have notin: "a \<notin> set (et_far t)" using linked_member(2) [OF l, of LV_FAR 0 a] fresh by auto
  have l2: "linked [a] t2" unfolding t2_def by (rule linked_alloc [OF l fresh])
  have f2: "far_ok t2"
    by (rule far_ok_change [OF f]) (use notin in \<open>auto simp: t2_def node_key_def\<close>)
  have place: "placed (expire_schedule wall t2 a)"
    using p by (intro placed_schedule [OF l2 f2]) (auto simp: t2_def placed_def)
  have other: "b \<noteq> a" if "et_mexp t m' = Some b" for b m' using owner_okD(3) [OF o that] fresh by auto
  have t2: "et_heap t2 = (et_heap t)(a \<mapsto> \<lparr>en_key = key, en_metric = m, en_level = LV_DUE, en_slot = 0\<rparr>)"
    "et_mexp t2 = (et_mexp t)(m \<mapsto> a)" "et_next t2 = Suc a" "et_count t2 = et_count t + 1"
    "et_cursor t2 = et_cursor t" by (simp_all add: t2_def)
  have own2: "owner_ok t2" unfolding owner_ok_def
  proof (intro conjI allI impI)
    fix b n assume b: "et_heap t2 b = Some n"
    show "et_mexp t2 (en_metric n) = Some b" "b < et_next t2"
      using b owner_okD(1,2) [OF o, of b n] assms(2) unfolding t2 a_def
      by (cases "b = et_next t"; auto split: if_splits)+
  next
    fix m' b assume "et_mexp t2 m' = Some b"
    then show "\<exists>n. et_heap t2 b = Some n \<and> en_metric n = m'"
      using owner_okD(3) [OF o, of m' b] other [of m' b] by (cases "m' = m") (auto simp: t2)
  next
    show "et_count t2 = int (card (dom (et_heap t2)))"
      using fresh finite_nodes [OF l] owner_okD(4) [OF o] by (simp add: t2)
  qed
  show "wheel_inv (expire_schedule wall t2 a)"
    using place owner_ok_ident [OF ident_schedule own2] by (simp add: wheel_inv_def)
  have "expiry_of t2 = (expiry_of t)(m \<mapsto> key)"
  proof (rule ext)
    fix m' show "expiry_of t2 m' = ((expiry_of t)(m \<mapsto> key)) m'"
      unfolding expiry_of_def t2 using other [of m'] by (cases "m' = m"; cases "et_mexp t m'") auto
  qed
  then show "expiry_of (expire_schedule wall t2 a) = (expiry_of t)(m \<mapsto> key)"
    using expiry_ident [OF ident_schedule] by simp
  have b: "expire_base wall t2 = expire_base wall t" by (simp add: expire_base_def t2)
  have "node_key t2 a = key" by (simp add: node_key_def t2)
  then have "\<exists>L s. et_heap (expire_schedule wall t2 a) = (et_heap t2)(a \<mapsto>
      \<lparr>en_key = key, en_metric = m, en_level = L, en_slot = s\<rparr>) \<and> (L = LV_DUE \<longleftrightarrow> key \<le> expire_base wall t)"
    using schedule_heap [of t2 a "\<lparr>en_key = key, en_metric = m, en_level = LV_DUE, en_slot = 0\<rparr>" wall]
    by (simp add: t2 b)
  then obtain L s where h: "et_heap (expire_schedule wall t2 a) = (et_heap t2)(a \<mapsto>
      \<lparr>en_key = key, en_metric = m, en_level = L, en_slot = s\<rparr>)" "L = LV_DUE \<longleftrightarrow> key \<le> expire_base wall t"
    by blast
  show "is_due (expire_schedule wall t2 a) = (is_due t)(m := key \<le> expire_base wall t)"
  proof
    fix m'
    show "is_due (expire_schedule wall t2 a) m' = ((is_due t)(m := key \<le> expire_base wall t)) m'"
      unfolding is_due_def h(1) schedule_frame t2 using h(2) other [of m']
      by (cases "m' = m"; cases "et_mexp t m'") auto
  qed
qed

lemma wheel_arm:
  assumes "wheel_inv t"
  shows "wheel_inv (expire_arm_locked wall t key m)"
    "expiry_of (expire_arm_locked wall t key m) = (expiry_of t)(m \<mapsto> key)"
    "is_due (expire_arm_locked wall t key m) = (is_due t)(m := key \<le> expire_base wall t)"
    "et_cursor (expire_arm_locked wall t key m) = et_cursor t"
proof -
  define t1 where "t1 = (if et_mexp t m \<noteq> None then expire_forget_locked t m else t)"
  note fg = wheel_forget [OF assms, of m]
  have t1: "wheel_inv t1" "et_mexp t1 m = None" "et_cursor t1 = et_cursor t"
    "(expiry_of t1)(m \<mapsto> key) = (expiry_of t)(m \<mapsto> key)" "(is_due t1)(m := x) = (is_due t)(m := x)" for x
    using assms fg by (auto simp: t1_def)
  have b: "expire_base wall t1 = expire_base wall t" by (simp add: expire_base_def t1(3))
  have eq: "expire_arm_locked wall t key m = expire_schedule wall
      (t1\<lparr>et_heap := (et_heap t1)(et_next t1 \<mapsto> \<lparr>en_key = key, en_metric = m, en_level = LV_DUE, en_slot = 0\<rparr>),
          et_mexp := (et_mexp t1)(m \<mapsto> et_next t1), et_next := Suc (et_next t1),
          et_count := et_count t1 + 1\<rparr>) (et_next t1)"
    by (simp add: expire_arm_locked_def t1_def Let_def)
  note f = wheel_arm_fresh [OF t1(1,2), where key = key and wall = wall]
  show "wheel_inv (expire_arm_locked wall t key m)" using f(1) by (simp add: eq)
  show "expiry_of (expire_arm_locked wall t key m) = (expiry_of t)(m \<mapsto> key)" using f(2) by (simp add: eq t1(4))
  show "is_due (expire_arm_locked wall t key m) = (is_due t)(m := key \<le> expire_base wall t)"
    using f(3) by (simp add: eq t1(5) b)
  show "et_cursor (expire_arm_locked wall t key m) = et_cursor t" by (simp add: eq wheel_frame t1(3))
qed

section \<open>The due list\<close>

lemma due_is_due:
  assumes "wheel_inv t"
  shows "a \<in> set (et_due t) \<longleftrightarrow> (\<exists>n. et_heap t a = Some n \<and> is_due t (en_metric n))"
proof -
  have l: "linked [] t" and o: "owner_ok t" using assms by (auto simp: wheel_inv_def placed_def)
  have "a \<in> set (et_due t) \<longleftrightarrow> (\<exists>n. et_heap t a = Some n \<and> en_level n = LV_DUE)"
    using linked_member(2) [OF l, of LV_DUE 0 a] linked_place [OF l, of a] by fastforce
  then show ?thesis using owner_okD(1) [OF o, of a] by (auto simp: is_due_def)
qed

lemma is_due_expiry: "wheel_inv t \<Longrightarrow> is_due t m \<Longrightarrow> expiry_of t m \<noteq> None"
  by (auto simp: is_due_def expiry_of_def split: option.splits)

lemma movingD:
  assumes "moving [] (\<lambda>_. False) B D now t" "et_heap t a = Some n"
  shows "on_time B (et_cursor t) n" "en_level n = LV_DUE \<Longrightarrow> a \<in> D \<or> en_key n \<le> now"
  using assms by (simp_all add: moving_def)

lemma wheel_advance:
  fixes wall :: int
  assumes "wheel_inv t" "0 < now"
  defines "t' \<equiv> expire_wheel_advance wall t now"
  shows "wheel_inv t'" "expiry_of t' = expiry_of t" "et_cursor t' = now"
    "expiry_of t m = Some k \<Longrightarrow> k \<le> now \<Longrightarrow> is_due t' m"
    "is_due t' m \<Longrightarrow> is_due t m \<or> (\<exists>k. expiry_of t m = Some k \<and> k \<le> now)"
proof -
  have p: "placed t" and o: "owner_ok t" using assms(1) by (auto simp: wheel_inv_def)
  have m: "moving [] (\<lambda>_. False) EXPIRE_SPAN3 (set (et_due t)) now t'" and c: "et_cursor t' = now"
    using moving_advance [OF p assms(2), of wall] by (simp_all only: t'_def)
  have i: "ident t' = ident t" by (simp add: t'_def wheel_frame)
  have o': "owner_ok t'" by (rule owner_ok_ident [OF i o])
  show w': "wheel_inv t'" using moving_placed [OF m] o' by (simp add: wheel_inv_def)
  show e: "expiry_of t' = expiry_of t" by (rule expiry_ident [OF i])
  show "et_cursor t' = now" by (rule c)
  show "is_due t' m" if "expiry_of t m = Some k" "k \<le> now"
  proof -
    have "expiry_of t' m = Some k" using that(1) by (simp add: e)
    then obtain a n where n: "et_mexp t' m = Some a" "et_heap t' a = Some n" "en_key n = k"
      by (auto simp: expiry_of_def split: option.splits)
    have "on_time EXPIRE_SPAN3 now n" using movingD(1) [OF m n(2)] by (simp only: c)
    then have "en_level n = LV_DUE" using on_time_future [of EXPIRE_SPAN3 now n] n(3) that(2)
      by (auto simp: span_defs)
    then show ?thesis using n by (simp add: is_due_def)
  qed
  show "is_due t m \<or> (\<exists>k. expiry_of t m = Some k \<and> k \<le> now)" if "is_due t' m"
  proof -
    obtain a n where n: "et_mexp t' m = Some a" "et_heap t' a = Some n" "en_level n = LV_DUE"
      using \<open>is_due t' m\<close> by (auto simp: is_due_def split: option.splits)
    have "a \<in> set (et_due t) \<or> en_key n \<le> now" by (rule movingD(2) [OF m n(2,3)])
    moreover have "expiry_of t m = Some (en_key n)" unfolding e [symmetric] using n by (simp add: expiry_of_def)
    moreover have "is_due t m" if "a \<in> set (et_due t)"
    proof -
      obtain n0 where "et_heap t a = Some n0" "is_due t (en_metric n0)" 
        using due_is_due [OF assms(1), of a] \<open>a \<in> set (et_due t)\<close> by blast
      moreover have "en_metric n0 = m"
        using ident_heap(3) [OF i] n(1) owner_okD(3) [OF o, of m a] calculation(1) by auto
      ultimately show ?thesis by simp
    qed
    ultimately show ?thesis by blast
  qed
qed

lemma linked_schedule_all:
  assumes "linked as t" "far_ok t"
  shows "linked [] (foldl (expire_schedule wall) t as) \<and> far_ok (foldl (expire_schedule wall) t as)"
  using assms by (induction as arbitrary: t) (auto intro: linked_schedule)

lemma wheel_advance_inv:
  assumes "wheel_inv t" shows "wheel_inv (expire_wheel_advance wall t now)"
proof (cases "0 < now")
  case True
  then show ?thesis using wheel_advance(1) [OF assms] by blast
next
  case False
  have o: "owner_ok (expire_wheel_advance wall t now)"
    using assms owner_ok_ident [OF ident_advance] by (simp add: wheel_inv_def)
  let ?t = "t\<lparr>et_cursor := now\<rparr>"
  have "linked [] ?t" using assms by (simp add: wheel_inv_def placed_def wheel_frame)
  then have "linked (fst (take_all ?t)) (snd (take_all ?t))" by (rule linked_take_all)
  then have "linked [] (expire_reschedule_all wall ?t) \<and> far_ok (expire_reschedule_all wall ?t)"
    unfolding expire_reschedule_all_def split_beta Let_def
    by (rule linked_schedule_all) (simp add: far_ok_def wheel_frame)
  then have "placed (expire_reschedule_all wall ?t)" using False by (simp add: placed_def wheel_frame)
  then show ?thesis using o assms False by (auto simp: expire_wheel_advance_def wheel_inv_def)
qed

lemma finite_expiry_of: "wheel_inv t \<Longrightarrow> finite (dom (expiry_of t))"
proof -
  assume w: "wheel_inv t"
  have "dom (expiry_of t) \<subseteq> (\<lambda>a. en_metric (the (et_heap t a))) ` dom (et_heap t)"
  proof
    fix m assume "m \<in> dom (expiry_of t)"
    then obtain a n where "et_mexp t m = Some a" "et_heap t a = Some n"
      by (auto simp: expiry_of_def split: option.splits)
    moreover from this have "en_metric n = m" using w owner_okD(3) [of t m a] by (auto simp: wheel_inv_def)
    ultimately show "m \<in> (\<lambda>a. en_metric (the (et_heap t a))) ` dom (et_heap t)" by force
  qed
  then show ?thesis using w finite_nodes [of t] by (meson finite_imageI finite_subset placed_def wheel_inv_def)
qed

interpretation wheel: expiry_index wheel_inv expiry_of is_due et_cursor
  "expire_arm_locked wall" expire_forget_locked "expire_wheel_advance wall" for wall
proof
  fix t m k n assume w: "wheel_inv t"
  note a = wheel_arm [OF w] and f = wheel_forget [OF w] and v = wheel_advance [OF w]
  show "wheel_inv (expire_arm_locked wall t k m)" "expiry_of (expire_arm_locked wall t k m) = (expiry_of t)(m \<mapsto> k)"
    "et_cursor (expire_arm_locked wall t k m) = et_cursor t" by (rule a)+
  show "wheel_inv (expire_forget_locked t m)" "expiry_of (expire_forget_locked t m) = (expiry_of t)(m := None)"
    "et_cursor (expire_forget_locked t m) = et_cursor t" "is_due (expire_forget_locked t m) = (is_due t)(m := False)"
    by (rule f)+
  show "wheel_inv (expire_wheel_advance wall t n)" by (rule wheel_advance_inv [OF w])
  show "expiry_of (expire_wheel_advance wall t n) = expiry_of t" by (rule expiry_ident [OF ident_advance])
  show "finite (dom (expiry_of t))" by (rule finite_expiry_of [OF w])
  show "is_due (expire_arm_locked wall t k m) = (is_due t)(m := k \<le> et_cursor t)" if "0 < et_cursor t"
    using a(3) [of wall k m] that by (simp add: expire_base_def)
  show "et_cursor (expire_wheel_advance wall t n) = n" if "0 < n" by (rule v(3) [OF that])
  show "is_due (expire_wheel_advance wall t n) m" if "0 < n" "expiry_of t m = Some k" "k \<le> n"
    by (rule v(4) [OF that])
  show "is_due t m \<or> (\<exists>k. expiry_of t m = Some k \<and> k \<le> n)" if "0 < n" "is_due (expire_wheel_advance wall t n) m"
    by (rule v(5) [OF that])
  show "expiry_of t m \<noteq> None" if "is_due t m" by (rule is_due_expiry [OF w that])
qed

section \<open>Draining and counting\<close>

lemma moving_free_links:
  assumes "linked as t" "far_ok t"
  shows "linked [] (foldl (\<lambda>t a. place_node t a LV_DUE 0) t as) \<and> far_ok (foldl (\<lambda>t a. place_node t a LV_DUE 0) t as)"
  using assms by (induction as arbitrary: t) (simp_all add: linked_place_node)

lemma heap_drain:
  "et_heap (foldl (\<lambda>t a. place_node t a LV_DUE 0) t as) b =
     (if b \<in> set as then map_option (\<lambda>n. n\<lparr>en_level := LV_DUE, en_slot := 0\<rparr>) (et_heap t b) else et_heap t b)"
  by (induction as arbitrary: t) (auto simp: wheel_frame option.map_comp comp_def)

lemma wheel_drain:
  assumes "wheel_inv t"
  shows "wheel_inv (expire_drain_all t)" "expiry_of (expire_drain_all t) = expiry_of t"
    "is_due (expire_drain_all t) m \<longleftrightarrow> expiry_of t m \<noteq> None" "et_cursor (expire_drain_all t) = et_cursor t"
    "set (et_due (expire_drain_all t)) = dom (et_heap t)"
proof -
  let ?t = "expire_drain_all t"
  have l: "linked [] t" and o: "owner_ok t" using assms by (auto simp: wheel_inv_def placed_def)
  have eq: "?t = foldl (\<lambda>t a. place_node t a LV_DUE 0) (snd (take_all t)) (fst (take_all t))"
    by (simp add: expire_drain_all_def split_beta place_node_def)
  have lf: "linked [] ?t \<and> far_ok ?t" unfolding eq
    by (rule moving_free_links [OF linked_take_all [OF l]]) (simp add: far_ok_def wheel_frame)
  have heap: "et_heap ?t a = map_option (\<lambda>n. n\<lparr>en_level := LV_DUE, en_slot := 0\<rparr>) (et_heap t a)" for a
    unfolding eq heap_drain using linked_all_nodes(2) [OF l]
    by (cases "et_heap t a") (auto simp: take_all_list wheel_frame simp del: set_concat)
  show e: "expiry_of ?t = expiry_of t" by (rule expiry_ident) (simp add: wheel_frame)
  show "et_cursor ?t = et_cursor t" unfolding eq by (simp add: cursor_foldl wheel_frame)
  show w: "wheel_inv ?t"
    using lf owner_ok_ident [of ?t t, OF _ o] by (auto simp: wheel_inv_def placed_def heap on_time_def wheel_frame)
  have m: "et_mexp ?t = et_mexp t" by (rule ident_heap(3)) (simp add: wheel_frame)
  show "is_due ?t m \<longleftrightarrow> expiry_of t m \<noteq> None"
    by (auto simp: is_due_def expiry_of_def m heap split: option.splits)
  show "set (et_due ?t) = dom (et_heap t)"
    using due_is_due [OF w] owner_okD(1) [OF o] by (auto simp: is_due_def m heap)
qed

lemma length_filter_concat: "sum_list (map (\<lambda>b. length (filter P b)) bs) = length (filter P (concat bs))"
  by (induction bs) auto

lemma count_expired_nodes:
  assumes "wheel_inv t"
  shows "expire_count_expired t key = card {a \<in> dom (et_heap t). node_key t a \<le> key}"
proof -
  have l: "linked [] t" using assms by (simp add: wheel_inv_def placed_def)
  have "expire_count_expired t key = length (filter (\<lambda>a. node_key t a \<le> key) (concat (all_buckets t)))"
    unfolding expire_count_expired_def expire_count_list_def by (rule length_filter_concat)
  also have "\<dots> = card (set (filter (\<lambda>a. node_key t a \<le> key) (concat (all_buckets t))))"
    using linked_all_nodes(1) [OF l] by (metis distinct_card distinct_filter)
  also have "\<dots> = card {a \<in> dom (et_heap t). node_key t a \<le> key}"
    unfolding set_filter linked_all_nodes(2) [OF l] ..
  finally show ?thesis .
qed

lemma expired_owners:
  assumes "wheel_inv t"
  shows "bij_betw (\<lambda>a. en_metric (the (et_heap t a))) {a \<in> dom (et_heap t). node_key t a \<le> key}
           {m. \<exists>k. expiry_of t m = Some k \<and> k \<le> key}"
proof -
  have o: "owner_ok t" using assms by (simp add: wheel_inv_def)
  show ?thesis
  proof (rule bij_betw_imageI)
    show "inj_on (\<lambda>a. en_metric (the (et_heap t a))) {a \<in> dom (et_heap t). node_key t a \<le> key}"
      using owner_okD(1) [OF o] by (intro inj_onI) (auto, metis option.inject)
    show "(\<lambda>a. en_metric (the (et_heap t a))) ` {a \<in> dom (et_heap t). node_key t a \<le> key} =
        {m. \<exists>k. expiry_of t m = Some k \<and> k \<le> key}"
    proof (intro set_eqI iffI)
      fix m assume "m \<in> (\<lambda>a. en_metric (the (et_heap t a))) ` {a \<in> dom (et_heap t). node_key t a \<le> key}"
      then obtain a n where a: "et_heap t a = Some n" "m = en_metric n" "node_key t a \<le> key" by auto
      then have "expiry_of t m = Some (node_key t a)" using owner_okD(1) [OF o a(1)]
        by (simp add: expiry_of_def node_key_def)
      then show "m \<in> {m. \<exists>k. expiry_of t m = Some k \<and> k \<le> key}" using a(3) by simp
    next
      fix m assume "m \<in> {m. \<exists>k. expiry_of t m = Some k \<and> k \<le> key}"
      then obtain a n where a: "et_mexp t m = Some a" "et_heap t a = Some n" "en_key n \<le> key"
        by (auto simp: expiry_of_def split: option.splits)
      then have "en_metric n = m" using owner_okD(3) [OF o a(1)] by auto
      then show "m \<in> (\<lambda>a. en_metric (the (et_heap t a))) ` {a \<in> dom (et_heap t). node_key t a \<le> key}"
        using a by (force simp: node_key_def)
    qed
  qed
qed

lemma backptr_none:
  assumes "wheel_inv t" shows "expire_backptr_violations t = 0"
proof -
  have l: "linked [] t" and o: "owner_ok t" using assms by (auto simp: wheel_inv_def placed_def)
  have "expire_backptr_list t b = 0" if "b \<in> set (all_buckets t)" for b
  proof -
    have "set b \<subseteq> dom (et_heap t)" using that linked_all_nodes(2) [OF l] by auto
    then show ?thesis using owner_okD(1) [OF o] by (auto simp: expire_backptr_list_def filter_empty_conv)
  qed
  then show ?thesis by (simp add: expire_backptr_violations_def)
qed

lemma linked_count [wheel_frame]: "linked P (t\<lparr>et_count := c\<rparr>) = linked P t" "far_ok (t\<lparr>et_count := c\<rparr>) = far_ok t"
proof -
  have "expire_bucket (t\<lparr>et_count := c\<rparr>) L s = expire_bucket t L s" for L s by (cases L) auto
  then show "linked P (t\<lparr>et_count := c\<rparr>) = linked P t" by (simp add: linked_def at_place_def)
qed (simp add: far_ok_def node_key_heap [of "t\<lparr>et_count := c\<rparr>" t])

lemma free_loop_empties:
  assumes "linked [] t" "far_ok t" "\<And>a n. et_heap t a = Some n \<Longrightarrow> en_level n = LV_DUE"
    "\<And>m a. et_mexp t m = Some a \<Longrightarrow> \<exists>n. et_heap t a = Some n \<and> en_metric n = m"
    "length (et_due t) \<le> fuel"
  shows "et_heap (expire_free_loop fuel t) = Map.empty \<and> et_mexp (expire_free_loop fuel t) = Map.empty \<and>
     linked [] (expire_free_loop fuel t) \<and> far_ok (expire_free_loop fuel t)"
  using assms
proof (induction fuel arbitrary: t)
  case 0
  have "et_heap t a = None" for a
    using linked_place [OF 0(1), of a] 0(3) [of a] 0(5) by (cases "et_heap t a") auto
  moreover from this have "et_mexp t m = None" for m using 0(4) [of m] by (cases "et_mexp t m") auto
  ultimately show ?case using 0 by auto
next
  case (Suc fuel)
  show ?case
  proof (cases "et_due t")
    case Nil
    have "et_heap t a = None" for a
      using linked_place [OF Suc.prems(1), of a] Suc.prems(3) [of a] Nil by (cases "et_heap t a") auto
    moreover from this have "et_mexp t m = None" for m using Suc.prems(4) [of m] by (cases "et_mexp t m") auto
    ultimately show ?thesis using Suc.prems Nil by auto
  next
    case (Cons a as)
    obtain n where n: "et_heap t a = Some n" "en_level n = LV_DUE" "en_slot n = 0"
      using linked_member(2) [OF Suc.prems(1), of LV_DUE 0 a] Cons by auto
    let ?u = "expire_unlink t a"
    let ?t = "?u\<lparr>et_mexp := (et_mexp t)(en_metric n := None), et_heap := (et_heap t)(a := None)\<rparr>"
    have loop: "expire_free_loop (Suc fuel) t = expire_free_loop fuel ?t"
      using Cons n by (simp add: wheel_frame)
    have "linked [a] ?u" using linked_unlink [OF Suc.prems(1) n(1)] by simp
    then have l: "linked [] ?t"
      using linked_free [where x = "(et_mexp t)(en_metric n := None)" and c = 0, of a "[]" ?u]
      by (simp add: wheel_frame)
    have far: "a \<notin> set (et_far ?u)" using linked_member(1) [OF \<open>linked [a] ?u\<close>, of LV_FAR 0 a] by auto
    have "far_ok ?u" using far_ok_unlink [OF Suc.prems(1) n(1) _ Suc.prems(2)] by simp
    then have f: "far_ok ?t"
      by (rule far_ok_change) (use far in \<open>auto simp: node_key_def wheel_frame\<close>)
    have d: "et_due ?t = as" using n Cons by (simp add: unlink_eq [OF Suc.prems(1) n(1)])
    have "\<exists>n'. et_heap ?t b = Some n' \<and> en_metric n' = m" if "et_mexp ?t m = Some b" for m b
      using that Suc.prems(4) [of m b] n(1) by (auto split: if_splits)
    then show ?thesis unfolding loop
      using l f d Cons Suc.prems(3,5) by (intro Suc.IH) (auto split: if_splits)
  qed
qed

lemma free_empties:
  assumes "wheel_inv t"
  shows "et_heap (expire_free t) = Map.empty" "et_mexp (expire_free t) = Map.empty"
    "wheel_inv (expire_free t)" "et_count (expire_free t) = 0"
proof -
  let ?d = "expire_drain_all t"
  note w = wheel_drain [OF assms]
  have "linked [] ?d" "far_ok ?d" and o: "owner_ok ?d" using w(1) by (auto simp: wheel_inv_def placed_def)
  moreover have "en_level n = LV_DUE" if "et_heap ?d a = Some n" for a n
  proof -
    have "dom (et_heap ?d) = dom (et_heap t)" by (rule ident_heap(2)) (simp add: wheel_frame)
    then have "a \<in> set (et_due ?d)" using that w(5) by auto
    then show ?thesis using linked_member(2) [OF \<open>linked [] ?d\<close>, of LV_DUE 0 a] that by auto
  qed
  ultimately have e: "et_heap (expire_free_loop (length (et_due ?d)) ?d) = Map.empty"
    "et_mexp (expire_free_loop (length (et_due ?d)) ?d) = Map.empty"
    "linked [] (expire_free_loop (length (et_due ?d)) ?d)" "far_ok (expire_free_loop (length (et_due ?d)) ?d)"
    using free_loop_empties [of ?d "length (et_due ?d)"] owner_okD(3) [OF o] by auto
  then show "et_heap (expire_free t) = Map.empty" "et_mexp (expire_free t) = Map.empty" "et_count (expire_free t) = 0"
    by (simp_all add: expire_free_def Let_def)
  then show "wheel_inv (expire_free t)"
    using e by (auto simp: wheel_inv_def placed_def owner_ok_def wheel_frame expire_free_def Let_def)
qed

section \<open>Sequences of operations\<close>

lemma wheel_init: "wheel_inv expire_init"
proof -
  have "expire_bucket expire_init L s = []" for L s by (cases L) (auto simp: expire_init_def)
  then show ?thesis
    by (auto simp: wheel_inv_def placed_def owner_ok_def linked_def far_ok_def)
      (auto simp: expire_init_def)
qed

datatype wheel_op = Arm int nat | Forget nat | Advance int | Drain | Free

fun run_op :: "int \<Rightarrow> wheel_op \<Rightarrow> expire_tree \<Rightarrow> expire_tree" where
  "run_op wall (Arm key m) t = expire_arm_locked wall t key m"
| "run_op wall (Forget m) t = expire_forget_locked t m"
| "run_op wall (Advance now) t = expire_wheel_advance wall t now"
| "run_op wall Drain t = expire_drain_all t"
| "run_op wall Free t = expire_free t"

text \<open>The specification: a plain map from metrics to keys.\<close>

fun spec_op :: "wheel_op \<Rightarrow> (nat \<rightharpoonup> int) \<Rightarrow> (nat \<rightharpoonup> int)" where
  "spec_op (Arm key m) M = M(m \<mapsto> key)"
| "spec_op (Forget m) M = M(m := None)"
| "spec_op (Advance now) M = M"
| "spec_op Drain M = M"
| "spec_op Free M = Map.empty"

lemma run_op_refines:
  assumes "wheel_inv t"
  shows "wheel_inv (run_op wall op t) \<and> expiry_of (run_op wall op t) = spec_op op (expiry_of t)"
  using wheel_arm [OF assms] wheel_forget [OF assms] wheel_advance_inv [OF assms] wheel_drain [OF assms]
    free_empties [OF assms] expiry_ident [OF ident_advance]
  by (cases op) (auto simp: expiry_of_def)

lemma run_ops_refine:
  "wheel_inv t \<Longrightarrow> wheel_inv (fold (run_op wall) ops t) \<and>
     expiry_of (fold (run_op wall) ops t) = fold spec_op ops (expiry_of t)"
  by (induction ops arbitrary: t) (use run_op_refines in auto)

section \<open>Properties\<close>



text \<open>
  C14: the wheel refines a plain map from metrics to expiry keys.  After any sequence of arming,
  forgetting, moving the clock, draining and freeing, the key of every metric is the one the map has,
  every expire node's metric points back to it, and the counter is the number of nodes.
\<close>

theorem expire_ops_refine_map:
  "expiry_of (fold (run_op wall) ops expire_init) = fold spec_op ops Map.empty \<and>
   expire_backptr_violations (fold (run_op wall) ops expire_init) = 0 \<and>
   et_count (fold (run_op wall) ops expire_init) = int (card (dom (et_heap (fold (run_op wall) ops expire_init))))"
proof -
  have "expiry_of expire_init = Map.empty" by (auto simp: expiry_of_def expire_init_def)
  then show ?thesis
    using run_ops_refine [OF wheel_init, of wall ops] backptr_none owner_okD(4) by (auto simp: wheel_inv_def)
qed

text \<open>
  \<open>expire_count_expired\<close> returns the number of metrics whose key is at most the given one,
  wherever in the wheel their nodes are.
\<close>

theorem expire_count_expired_correct:
  assumes "wheel_inv t"
  shows "expire_count_expired t key = card {m. \<exists>k. expiry_of t m = Some k \<and> k \<le> key}"
  using count_expired_nodes [OF assms] bij_betw_same_card [OF expired_owners [OF assms]] by simp

theorem expire_count_expired_correct_witness:
  "expire_count_expired (expire_arm_locked 1000 (expire_arm_locked 1000 expire_init 1100 7) 90000 8) 2000 = 1"
proof -
  let ?t1 = "expire_arm_locked 1000 expire_init 1100 7"
  let ?t = "expire_arm_locked 1000 ?t1 90000 8"
  have w1: "wheel_inv ?t1" by (rule wheel_arm(1) [OF wheel_init])
  have w: "wheel_inv ?t" by (rule wheel_arm(1) [OF w1])
  have i: "expiry_of expire_init = Map.empty" by (auto simp: expiry_of_def expire_init_def)
  have "expiry_of ?t = [7 \<mapsto> 1100, 8 \<mapsto> 90000]"
    by (simp add: wheel_arm(2) [OF w1] wheel_arm(2) [OF wheel_init] i)
  then have "{m. \<exists>k. expiry_of ?t m = Some k \<and> k \<le> 2000} = {7}" by (auto split: if_splits)
  then show ?thesis using expire_count_expired_correct [OF w, of 2000] by simp
qed

text \<open>
  \<open>expire_free\<close> releases every node and clears every metric's link, whatever list the node
  was on, and leaves an empty wheel.
\<close>

theorem expire_free_releases_all:
  assumes "wheel_inv t"
  shows "et_heap (expire_free t) = Map.empty \<and> et_mexp (expire_free t) = Map.empty \<and>
     concat (all_buckets (expire_free t)) = [] \<and> et_count (expire_free t) = 0 \<and> wheel_inv (expire_free t)"
proof -
  have "linked [] (expire_free t)" using free_empties(3) [OF assms] by (simp add: wheel_inv_def placed_def)
  then have "set (concat (all_buckets (expire_free t))) = {}"
    using linked_all_nodes(2) free_empties(1) [OF assms] by simp
  then show ?thesis using free_empties [OF assms] by (simp del: set_concat concat_eq_Nil_conv)
qed

theorem expire_free_releases_all_witness:
  "et_heap (expire_arm_locked 1000 expire_init 1100 7) \<noteq> Map.empty \<and>
   et_heap (expire_free (expire_arm_locked 1000 expire_init 1100 7)) = Map.empty"
proof -
  let ?t = "expire_arm_locked 1000 expire_init 1100 7"
  have w: "wheel_inv ?t" by (rule wheel_arm(1) [OF wheel_init])
  have "expiry_of ?t 7 = Some 1100" by (simp add: wheel_arm(2) [OF wheel_init])
  then have "et_heap ?t \<noteq> Map.empty" by (auto simp: expiry_of_def split: option.splits)
  then show ?thesis using expire_free_releases_all [OF w] by simp
qed

end
