(* ===== verification/Rb_Tree.thy ===== *)
theory Rb_Tree
  imports Prelude
begin

text \<open>
  The red-black tree under the metric store (\<open>src/src/metric/metrictree.c\<close>): rotations,
  the top-down insertion loop of \<open>metric_insert_locked\<close> and the top-down deletion loop of
  \<open>metric_delete_inner\<close>.

  The loops keep pointers into the tree.  The model keeps the node under the pointer \<open>q\<close> as
  the focused subtree and its ancestors, the parent \<open>p\<close> first, as a list of frames; the
  sentinel \<open>head\<close> is the empty list.  A dereference of NULL and a rotation through an outdated
  pointer are error values, and the theorems show that neither happens.

  The comparison of the searched labels with those of a node, \<open>labels_cmp (plan, labels, q->labels)\<close>,
  is the argument \<open>c\<close>.
\<close>

section \<open>Nodes and rotations\<close>

datatype color = Red | Black

datatype 'a rbt = Leaf | Node color "'a rbt" 'a "'a rbt"

text \<open>Directions: \<open>LEFT\<close> is False, \<open>RIGHT\<close> is True.\<close>

fun child :: "bool \<Rightarrow> 'a rbt \<Rightarrow> 'a rbt" where
  "child d Leaf = Leaf"
| "child d (Node k l x r) = (if d then r else l)"

fun set_child :: "'a rbt \<Rightarrow> bool \<Rightarrow> 'a rbt \<Rightarrow> 'a rbt" where
  "set_child Leaf d t = Leaf"
| "set_child (Node k l x r) d t = (if d then Node k l x t else Node k t x r)"

fun paint :: "color \<Rightarrow> 'a rbt \<Rightarrow> 'a rbt" where
  "paint k Leaf = Leaf"
| "paint k (Node _ l x r) = Node k l x r"

fun is_red :: "'a rbt \<Rightarrow> bool" where
  "is_red Leaf = False"
| "is_red (Node k l x r) = (k = Red)"

text \<open>The rotations dereference the child they lift; None is a dereference of NULL.\<close>

definition metric_single :: "'a rbt \<Rightarrow> bool \<Rightarrow> 'a rbt option" where
  "metric_single root dir =
     (let save = child (\<not> dir) root
      in if save = Leaf then None
         else Some (paint Black (set_child save dir
                (paint Red (set_child root (\<not> dir) (child dir save))))))"

definition metric_double :: "'a rbt \<Rightarrow> bool \<Rightarrow> 'a rbt option" where
  "metric_double root dir =
     (case metric_single (child (\<not> dir) root) (\<not> dir) of
        None \<Rightarrow> None
      | Some s \<Rightarrow> metric_single (set_child root (\<not> dir) s) dir)"

section \<open>Paths\<close>

datatype 'a frame = Frame color 'a bool "'a rbt"

fun frame_at :: "'a rbt \<Rightarrow> bool \<Rightarrow> 'a frame list" where
  "frame_at Leaf d = []"
| "frame_at (Node k l x r) d = [Frame k x d (if d then l else r)]"

fun build :: "'a frame \<Rightarrow> 'a rbt \<Rightarrow> 'a rbt" where
  "build (Frame k x d s) t = (if d then Node k s x t else Node k t x s)"

fun plug :: "'a frame list \<Rightarrow> 'a rbt \<Rightarrow> 'a rbt" where
  "plug [] t = t"
| "plug (f # fs) t = plug fs (build f t)"

section \<open>Lookup\<close>

text \<open>The search loop of \<open>metric_find_locked\<close>; \<open>e\<close> compares a node's labels with the searched ones.\<close>

fun rb_find :: "('a \<Rightarrow> int) \<Rightarrow> 'a rbt \<Rightarrow> 'a option" where
  "rb_find e Leaf = None"
| "rb_find e (Node k l x r) =
     (if e x > 0 then rb_find e l else if e x < 0 then rb_find e r else Some x)"

section \<open>Insertion\<close>

datatype rb_error = Null_Deref | Stale_Pointer | Out_Of_Fuel

text \<open>The first half of the loop body: hang the new node below \<open>p\<close>, or flip the colours of \<open>q\<close>.\<close>

fun ins_visit :: "'a \<Rightarrow> 'a rbt \<Rightarrow> 'a rbt \<times> bool" where
  "ins_visit x Leaf = (Node Red Leaf x Leaf, True)"
| "ins_visit x (Node k l y r) =
     (if is_red l \<and> is_red r then (Node Red (paint Black l) y (paint Black r), False)
      else (Node k l y r, False))"

text \<open>
  The second half: a red \<open>q\<close> below a red \<open>p\<close> is repaired by a rotation at \<open>g\<close>,
  whose result is stored through \<open>t\<close>.  A single rotation leaves \<open>t\<close> outdated in the next
  round, a double rotation leaves \<open>g\<close> and \<open>t\<close> outdated for two; \<open>stale\<close> counts
  the rounds left.  After a single rotation \<open>q\<close> stays below \<open>p\<close>; after a double one it is
  the top of the rotated part.
\<close>

definition ins_fix :: "'a frame list \<Rightarrow> 'a rbt \<Rightarrow> nat \<Rightarrow> rb_error + ('a frame list \<times> 'a rbt \<times> nat)" where
  "ins_fix fs q stale =
     (case fs of
        Frame Red px d sib # rest \<Rightarrow>
          (if \<not> is_red q then Inr (fs, q, stale - 1)
           else if stale > 0 then Inl Stale_Pointer
           else (case rest of
                   [] \<Rightarrow> Inl Null_Deref
                 | Frame gk gx ld gsib # rest2 \<Rightarrow>
                     (let g = build (Frame gk gx ld gsib) (build (Frame Red px d sib) q)
                      in if d = ld
                         then (case metric_single g (\<not> ld) of
                                 None \<Rightarrow> Inl Null_Deref
                               | Some up \<Rightarrow> Inr (frame_at up ld @ rest2, child ld up, 1))
                         else (case metric_double g (\<not> ld) of
                                 None \<Rightarrow> Inl Null_Deref
                               | Some up \<Rightarrow> Inr (rest2, up, 2)))))
      | _ \<Rightarrow> Inr (fs, q, stale - 1))"

fun ins_loop :: "('a \<Rightarrow> int) \<Rightarrow> 'a \<Rightarrow> nat \<Rightarrow> 'a frame list \<Rightarrow> 'a rbt \<Rightarrow> nat \<Rightarrow> rb_error + 'a rbt" where
  "ins_loop c x 0 fs q stale = Inl Out_Of_Fuel"
| "ins_loop c x (Suc fuel) fs q stale =
     (let (q1, flag) = ins_visit x q
      in case ins_fix fs q1 stale of
           Inl err \<Rightarrow> Inl err
         | Inr (fs2, q2, stale2) \<Rightarrow>
             (if flag then Inr (plug fs2 q2)
              else (case q2 of
                      Leaf \<Rightarrow> Inl Null_Deref
                    | Node k l y r \<Rightarrow>
                        (let dir = (c y > 0)
                         in ins_loop c x fuel (frame_at q2 dir @ fs2) (child dir q2) stale2))))"

text \<open>
  The descent visits every node of the search path once, and again the two nodes a double rotation
  lifts the path by; three rounds per node are enough (\<open>ins_loop_ok\<close>).
\<close>

definition rb_insert :: "('a \<Rightarrow> int) \<Rightarrow> 'a \<Rightarrow> 'a rbt \<Rightarrow> rb_error + 'a rbt" where
  "rb_insert c x t =
     (if t = Leaf then Inr (Node Black Leaf x Leaf)
      else (case ins_loop c x (3 * size t + 3) [] t 0 of
              Inl err \<Rightarrow> Inl err | Inr t' \<Rightarrow> Inr (paint Black t')))"

section \<open>Deletion\<close>

text \<open>
  One round of the deletion loop: the rotations and recolourings that make \<open>q\<close> or its child on
  the search path red.  None is a dereference of NULL.
\<close>

definition del_step :: "'a frame list \<Rightarrow> bool \<Rightarrow> 'a rbt \<Rightarrow> ('a frame list \<times> 'a rbt) option" where
  "del_step fs dir q =
     (if is_red q \<or> is_red (child dir q) then Some (fs, q)
      else if is_red (child (\<not> dir) q) then
        (case metric_single q dir of
           None \<Rightarrow> None
         | Some up \<Rightarrow> Some (frame_at up dir @ fs, child dir up))
      else (case fs of
              [] \<Rightarrow> Some (fs, q)
            | Frame pk px ld s # rest2 \<Rightarrow>
                (if s = Leaf then Some (fs, q)
                 else if \<not> is_red (child (\<not> ld) s) \<and> \<not> is_red (child ld s)
                 then Some (Frame Black px ld (paint Red s) # rest2, paint Red q)
                 else (let p = build (Frame pk px ld s) q
                       in case (if is_red (child ld s) then metric_double p ld else metric_single p ld) of
                            Some (Node _ l y r) \<Rightarrow>
                              (if l = Leaf \<or> r = Leaf then None
                               else (let up = Node Red (paint Black l) y (paint Black r);
                                         p' = child ld up
                                     in Some (frame_at p' ld @ frame_at up ld @ rest2,
                                              paint Red (child ld p'))))
                          | _ \<Rightarrow> None))))"

lemma size_paint [simp]: "size (paint k t) = size t"
  by (cases t) auto

lemma child_paint [simp]: "child d (paint k t) = child d t"
  by (cases t) auto

lemma child_set_child [simp]:
  "t \<noteq> Leaf \<Longrightarrow> child d (set_child t d s) = s" "child (\<not> d) (set_child t d s) = child (\<not> d) t"
  by (cases t; auto)+

lemma size_child: "q \<noteq> Leaf \<Longrightarrow> size (child d q) < size q"
  by (cases q) auto

lemma rotations [rb_simps]:
  "metric_single Leaf d = None"
  "metric_single (Node k l x Leaf) False = None"
  "metric_single (Node k l x (Node k' l' y r')) False = Some (Node Black (Node Red l x l') y r')"
  "metric_single (Node k Leaf x r) True = None"
  "metric_single (Node k (Node k' l' y r') x r) True = Some (Node Black l' y (Node Red r' x r))"
  by (auto simp: metric_single_def)

lemma double_rotations [rb_simps]:
  "metric_double (Node k l x (Node k' (Node k2 a y b) z r)) False =
     Some (Node Black (Node Red l x a) y (Node Red b z r))"
  "metric_double (Node k (Node k' l z (Node k2 a y b)) x r) True =
     Some (Node Black (Node Red l z a) y (Node Red b x r))"
  by (auto simp: metric_double_def rb_simps)

text \<open>A round leaves the child on the search path as it is.\<close>

lemma del_step_child:
  assumes "del_step fs dir q = Some (fs', q')" shows "child dir q' = child dir q"
proof (cases "is_red q \<or> is_red (child dir q) \<or> is_red (child (\<not> dir) q) \<or> fs = []")
  case True
  then show ?thesis
    using assms by (cases q) (auto simp: del_step_def metric_single_def split: if_splits)
next
  case False
  obtain f fs0 where fs: "fs = f # fs0" using False by (cases fs) auto
  obtain pk px ld s where f: "f = Frame pk px ld s" by (cases f)
  show ?thesis
  proof (cases s)
    case Leaf
    then show ?thesis using assms False by (simp add: del_step_def fs f)
  next
    case (Node sk sl sx sr)
    show ?thesis
      using assms False
      by (cases sl; cases sr; cases ld)
        (auto simp: del_step_def fs f Node rb_simps Let_def split: if_splits)
  qed
qed

text \<open>
  The loop of \<open>metric_delete_inner\<close>.  \<open>c\<close> compares the labels with a node's, \<open>e\<close>
  a node's with the labels; \<open>f\<close> is the matched node.  It ends with the path to the last node of
  the descent, that node, and the match.
\<close>

function del_loop :: "('a \<Rightarrow> int) \<Rightarrow> ('a \<Rightarrow> int) \<Rightarrow> 'a frame list \<Rightarrow> 'a rbt \<Rightarrow> 'a option \<Rightarrow>
    ('a frame list \<times> 'a rbt \<times> 'a option) option" where
  "del_loop c e fs Leaf f = None"
| "del_loop c e fs (Node k l x r) f =
     (let dir = (c x > 0); f' = (if e x = 0 then Some x else f)
      in case del_step fs dir (Node k l x r) of
           None \<Rightarrow> None
         | Some (fs', q') \<Rightarrow>
             (if child dir q' = Leaf then Some (fs', q', f')
              else del_loop c e (frame_at q' dir @ fs') (child dir q') f'))"
  by pat_completeness auto
termination
proof (relation "measure (\<lambda>(c, e, fs, q, f). size q)")
  fix c e :: "'a \<Rightarrow> int" and fs k l x r f dir f' y fs' q'
  assume "dir = (0 < c x)" "del_step fs dir (Node k l x r) = Some y" "(fs', q') = y" "child dir q' \<noteq> Leaf"
  then have "child dir q' = child dir (Node k l x r)" using del_step_child by blast
  then show "((c, e, frame_at q' dir @ fs', child dir q', f'), c, e, fs, Node k l x r, f)
      \<in> measure (\<lambda>(c, e, fs, q, f). size q)" by simp
qed simp

section \<open>Validity and order\<close>

fun rb :: "'a rbt \<Rightarrow> nat \<Rightarrow> bool" where
  "rb Leaf n = (n = 0)"
| "rb (Node Black l x r) n = (case n of 0 \<Rightarrow> False | Suc m \<Rightarrow> rb l m \<and> rb r m)"
| "rb (Node Red l x r) n = (\<not> is_red l \<and> \<not> is_red r \<and> rb l n \<and> rb r n)"

fun red_top :: "'a frame list \<Rightarrow> bool" where
  "red_top [] = False"
| "red_top (Frame k x d s # fs) = (k = Red)"

text \<open>\<open>ctx fs n\<close>: a valid subtree of black height \<open>n\<close> may stand at the end of the path \<open>fs\<close>.\<close>

fun ctx :: "'a frame list \<Rightarrow> nat \<Rightarrow> bool" where
  "ctx [] n = True"
| "ctx (Frame Red x d s # fs) n = (rb s n \<and> \<not> is_red s \<and> \<not> red_top fs \<and> ctx fs n)"
| "ctx (Frame Black x d s # fs) n = (rb s n \<and> ctx fs (Suc n))"

fun inorder :: "'a rbt \<Rightarrow> 'a list" where
  "inorder Leaf = []"
| "inorder (Node k l x r) = inorder l @ x # inorder r"

fun lefts :: "'a frame list \<Rightarrow> 'a list" where
  "lefts [] = []"
| "lefts (Frame k x d s # fs) = lefts fs @ (if d then inorder s @ [x] else [])"

fun rights :: "'a frame list \<Rightarrow> 'a list" where
  "rights [] = []"
| "rights (Frame k x d s # fs) = (if d then [] else x # inorder s) @ rights fs"

lemma inorder_plug: "inorder (plug fs t) = lefts fs @ inorder t @ rights fs"
proof (induction fs arbitrary: t)
  case (Cons f fs)
  then show ?case by (cases f) simp
qed simp

lemma inorder_paint [simp]: "inorder (paint k t) = inorder t"
  by (cases t) auto

lemma is_red_paint [simp]: "is_red (paint k t) \<longleftrightarrow> t \<noteq> Leaf \<and> k = Red"
  by (cases t) auto

lemma rb_paint_black: "rb t n \<Longrightarrow> \<exists>m. rb (paint Black t) m"
proof (cases t)
  case (Node k l x r)
  assume "rb t n"
  then show ?thesis using Node by (cases k; cases n) (auto intro: exI [of _ "Suc n"] exI [of _ n])
qed auto

lemma rb_red_black: "rb t n \<Longrightarrow> is_red t \<Longrightarrow> rb (paint Black t) (Suc n)"
  by (cases t; cases "is_red t") auto

lemma rb_black_red:
  "rb t (Suc n) \<Longrightarrow> \<not> is_red t \<Longrightarrow> \<not> is_red (child False t) \<Longrightarrow> \<not> is_red (child True t) \<Longrightarrow> rb (paint Red t) n"
proof (cases t)
  case (Node k l x r)
  assume "rb t (Suc n)" "\<not> is_red t" "\<not> is_red (child False t)" "\<not> is_red (child True t)"
  then show ?thesis using Node by (cases k) auto
qed auto

lemma plug_rb:
  "rb q n \<Longrightarrow> ctx fs n \<Longrightarrow> (is_red q \<Longrightarrow> \<not> red_top fs) \<Longrightarrow> \<exists>m. rb (plug fs q) m"
proof (induction fs arbitrary: q n)
  case (Cons f fs)
  obtain k x d s where f: "f = Frame k x d s" by (cases f)
  show ?case
  proof (cases k)
    case Red
    have "rb (build f q) n" "is_red (build f q)" using Cons.prems by (auto simp: f Red)
    then show ?thesis using Cons.IH [of "build f q" n] Cons.prems(2) by (simp add: f Red)
  next
    case Black
    have "rb (build f q) (Suc n)" "\<not> is_red (build f q)" using Cons.prems by (auto simp: f Black)
    then show ?thesis using Cons.IH [of "build f q" "Suc n"] Cons.prems(2) by (simp add: f Black)
  qed
qed auto

section \<open>Insertion\<close>

text \<open>The nodes that compare below the new labels come first.\<close>

definition split_at :: "('a \<Rightarrow> int) \<Rightarrow> 'a list \<Rightarrow> bool" where
  "split_at c xs \<longleftrightarrow> sorted_wrt (\<lambda>y z. c z > 0 \<longrightarrow> c y > 0) xs"

definition bounded :: "('a \<Rightarrow> int) \<Rightarrow> 'a frame list \<Rightarrow> bool" where
  "bounded c fs \<longleftrightarrow> (\<forall>z \<in> set (lefts fs). c z > 0) \<and> (\<forall>z \<in> set (rights fs). \<not> c z > 0)"

lemma bounded_down:
  assumes "bounded c fs" "split_at c (lefts fs @ inorder (Node k l y r) @ rights fs)"
  shows "bounded c (Frame k y (c y > 0) (if c y > 0 then l else r) # fs)"
  using assms by (auto simp: bounded_def split_at_def sorted_wrt_append)

lemma bounded_filter:
  "bounded c fs \<Longrightarrow> filter (\<lambda>z. c z > 0) (lefts fs @ rights fs) = lefts fs \<and>
     filter (\<lambda>z. \<not> c z > 0) (lefts fs @ rights fs) = rights fs"
  by (simp add: bounded_def filter_id_conv filter_empty_conv)

fun slen :: "('a \<Rightarrow> int) \<Rightarrow> 'a rbt \<Rightarrow> nat" where
  "slen c Leaf = 0"
| "slen c (Node k l y r) = Suc (if c y > 0 then slen c r else slen c l)"

lemma slen_paint [simp]: "slen c (paint k t) = slen c t"
  by (cases t) auto

lemma slen_size: "slen c t \<le> size t"
  by (induction t) auto

fun descend :: "('a \<Rightarrow> int) \<Rightarrow> 'a rbt \<Rightarrow> 'a rbt" where
  "descend c Leaf = Leaf"
| "descend c (Node k l y r) = (if c y > 0 then r else l)"

text \<open>A node that is neither a place to insert at nor one whose colours are flipped.\<close>

fun cool :: "'a rbt \<Rightarrow> bool" where
  "cool Leaf = False"
| "cool (Node k l x r) = (k = Black \<and> \<not> (is_red l \<and> is_red r))"

fun hot :: "'a rbt \<Rightarrow> bool" where
  "hot Leaf = True"
| "hot (Node k l x r) = (is_red l \<and> is_red r)"

fun uncle_black :: "'a frame list \<Rightarrow> bool" where
  "uncle_black (p # Frame k x d s # fs) = (\<not> is_red s)"
| "uncle_black _ = False"

fun sibling_black :: "'a frame list \<Rightarrow> bool" where
  "sibling_black (Frame k x d s # fs) = (\<not> is_red s)"
| "sibling_black [] = False"

definition ins_inv :: "('a \<Rightarrow> int) \<Rightarrow> 'a list \<Rightarrow> 'a frame list \<Rightarrow> 'a rbt \<Rightarrow> nat \<Rightarrow> bool" where
  "ins_inv c xs fs q stale \<longleftrightarrow>
     (\<exists>n. rb q n \<and> ctx fs n) \<and> (is_red q \<longrightarrow> \<not> red_top fs) \<and> stale \<le> 2 \<and>
     (red_top fs \<longrightarrow> hot q \<longrightarrow> stale = 0 \<and> uncle_black fs) \<and>
     (is_red q \<longrightarrow> sibling_black fs \<and> stale \<le> 1 \<or> cool (descend c q)) \<and>
     bounded c fs \<and> inorder (plug fs q) = xs \<and> split_at c xs"

lemma cool_hot: "cool t \<Longrightarrow> \<not> hot t" by (cases t) auto

lemma inv_noflip:
  assumes "ins_inv c xs fs (Node k l y r) stale" "\<not> (is_red l \<and> is_red r)"
  shows "ins_inv c xs (Frame k y (c y > 0) (if c y > 0 then l else r) # fs)
     (if c y > 0 then r else l) (stale - 1)"
proof -
  obtain n where n: "rb (Node k l y r) n" "ctx fs n" using assms(1) by (auto simp: ins_inv_def)
  have b: "bounded c (Frame k y (c y > 0) (if c y > 0 then l else r) # fs)"
    using assms(1) by (intro bounded_down) (auto simp: ins_inv_def inorder_plug)
  show ?thesis
  proof (cases k)
    case Red
    then have "sibling_black fs \<and> stale \<le> 1 \<or> cool (if c y > 0 then r else l)"
      using assms(1) by (auto simp: ins_inv_def)
    then have h: "hot (if c y > 0 then r else l) \<Longrightarrow> sibling_black fs \<and> stale \<le> 1" using cool_hot by blast
    have u: "uncle_black (p # fs)" if "sibling_black fs" for p using that by (cases fs rule: sibling_black.cases) auto
    have "\<not> red_top fs" using assms(1) Red by (auto simp: ins_inv_def)
    then show ?thesis
      using assms b n Red h u unfolding ins_inv_def
      by (auto simp: inorder_plug split: if_splits)
  next
    case Black
    then obtain m where "rb l m" "rb r m" "ctx fs (Suc m)" using n by (cases n) auto
    then show ?thesis
      using assms b Black unfolding ins_inv_def by (auto simp: inorder_plug split: if_splits)
  qed
qed

lemma red_node:
  assumes "rb t m" "is_red t"
  obtains a z b where "t = Node Red a z b" "\<not> is_red a" "\<not> is_red b" "rb a m" "rb b m"
  using assms by (cases t; cases "is_red t") auto

lemma red_child_cool: "rb t m \<Longrightarrow> is_red t \<Longrightarrow> cool (paint Black t)"
  by (erule (1) red_node) simp

lemma flip_node:
  assumes "rb (Node k l y r) n" "is_red l" "is_red r"
  shows "k = Black" "rb (Node Red (paint Black l) y (paint Black r)) n"
    "rb (paint Black l) n" "rb (paint Black r) n" "cool (paint Black l)" "cool (paint Black r)"
proof -
  show k: "k = Black" using assms by (cases k) auto
  then obtain m where "n = Suc m" "rb l m" "rb r m" using assms by (cases n) auto
  then show "rb (Node Red (paint Black l) y (paint Black r)) n" "rb (paint Black l) n" "rb (paint Black r) n"
    "cool (paint Black l)" "cool (paint Black r)"
    using assms(2,3) by (auto simp: rb_red_black red_child_cool)
qed

lemma ins_invD:
  assumes "ins_inv c xs fs q stale"
  shows "bounded c fs" "lefts fs @ inorder q @ rights fs = xs" "split_at c xs" "stale \<le> 2"
    "\<exists>n. rb q n \<and> ctx fs n" "red_top fs \<Longrightarrow> hot q \<Longrightarrow> stale = 0 \<and> uncle_black fs"
  using assms by (simp_all add: ins_inv_def inorder_plug)

lemma ins_inv_black:
  "rb q n \<Longrightarrow> ctx fs n \<Longrightarrow> \<not> is_red q \<Longrightarrow> \<not> hot q \<Longrightarrow> stale \<le> 2 \<Longrightarrow> bounded c fs \<Longrightarrow>
   inorder (plug fs q) = xs \<Longrightarrow> split_at c xs \<Longrightarrow> ins_inv c xs fs q stale"
  unfolding ins_inv_def by blast

lemma inv_flip:
  assumes i: "ins_inv c xs fs (Node k l y r) stale" and red: "is_red l" "is_red r"
    and fs2: "ctx fs2 n" "rb (Node k l y r) n" "\<not> red_top fs2" "lefts fs2 = lefts fs" "rights fs2 = rights fs"
    and st: "stale2 \<le> 2"
  shows "ins_inv c xs (Frame Red y (c y > 0) (paint Black (if c y > 0 then l else r)) # fs2)
     (paint Black (if c y > 0 then r else l)) stale2"
proof -
  note f = flip_node [OF fs2(2) red]
  note iD = ins_invD [OF i]
  have b2: "bounded c fs2" "split_at c (lefts fs2 @ inorder (Node Red l y r) @ rights fs2)"
    using iD(1-3) fs2(4,5) by (simp_all add: bounded_def)
  have b: "bounded c (Frame Red y (c y > 0) (paint Black (if c y > 0 then l else r)) # fs2)"
    using bounded_down [OF b2] by (cases "c y > 0") (simp_all add: bounded_def)
  have h: "\<not> hot (paint Black l)" "\<not> hot (paint Black r)" by (rule cool_hot, rule f)+
  have xs: "lefts fs @ inorder l @ y # inorder r @ rights fs = xs" "split_at c xs"
    using iD(2,3) by simp_all
  show ?thesis
  proof (cases "c y > 0")
    case True
    show ?thesis
      by (rule ins_inv_black [where n = n]) (use True b f(3,4) fs2 h xs st in \<open>simp_all add: inorder_plug\<close>)
  next
    case False
    show ?thesis
      by (rule ins_inv_black [where n = n]) (use False b f(3,4) fs2 h xs st in \<open>simp_all add: inorder_plug\<close>)
  qed
qed

lemma fix_black: "\<not> red_top fs \<Longrightarrow> ins_fix fs q stale = Inr (fs, q, stale - 1)"
  by (cases fs rule: red_top.cases) (auto simp: ins_fix_def split: color.split)

lemma fix_single:
  assumes "ctx (Frame Red px d sib # Frame gk gx d gsib # fs) n" "\<not> is_red gsib" "is_red q"
  obtains G where "ins_fix (Frame Red px d sib # Frame gk gx d gsib # fs) q 0 = Inr (Frame Black px d G # fs, q, 1)"
    "ctx (Frame Black px d G # fs) n" "is_red G"
    "lefts (Frame Black px d G # fs) = lefts (Frame Red px d sib # Frame gk gx d gsib # fs)"
    "rights (Frame Black px d G # fs) = rights (Frame Red px d sib # Frame gk gx d gsib # fs)"
proof -
  have gk: "gk = Black" using assms by (cases gk) auto
  show ?thesis
  proof (cases d)
    case True
    then show ?thesis using assms gk
      by (intro that [of "Node Red gsib gx sib"]) (auto simp: ins_fix_def Let_def rb_simps)
  next
    case False
    then show ?thesis using assms gk
      by (intro that [of "Node Red sib gx gsib"]) (auto simp: ins_fix_def Let_def rb_simps)
  qed
qed

text \<open>The tree a double rotation leaves on top: \<open>a\<close> and \<open>b\<close> are the subtrees of \<open>q\<close>.\<close>

definition lifted :: "'a \<Rightarrow> 'a rbt \<Rightarrow> 'a \<Rightarrow> bool \<Rightarrow> 'a rbt \<Rightarrow> 'a rbt \<Rightarrow> 'a \<Rightarrow> 'a rbt \<Rightarrow> 'a rbt" where
  "lifted px sib gx gd gsib a y b =
     (if gd then Node Black (Node Red gsib gx a) y (Node Red b px sib)
      else Node Black (Node Red sib px a) y (Node Red b gx gsib))"

lemma fix_double:
  assumes "ctx (Frame Red px (\<not> gd) sib # Frame gk gx gd gsib # fs) n" "\<not> is_red gsib"
    "rb (Node Red a y b) n"
  shows "ins_fix (Frame Red px (\<not> gd) sib # Frame gk gx gd gsib # fs) (Node Red a y b) 0
      = Inr (fs, lifted px sib gx gd gsib a y b, 2)"
    "rb (lifted px sib gx gd gsib a y b) (Suc n)" "ctx fs (Suc n)"
    "inorder (plug fs (lifted px sib gx gd gsib a y b)) =
     inorder (plug (Frame Red px (\<not> gd) sib # Frame gk gx gd gsib # fs) (Node Red a y b))"
proof -
  have gk: "gk = Black" using assms by (cases gk) auto
  show "ins_fix (Frame Red px (\<not> gd) sib # Frame gk gx gd gsib # fs) (Node Red a y b) 0
      = Inr (fs, lifted px sib gx gd gsib a y b, 2)"
    by (cases gd) (auto simp: ins_fix_def Let_def rb_simps lifted_def)
  show "rb (lifted px sib gx gd gsib a y b) (Suc n)" "ctx fs (Suc n)"
    using assms gk by (auto simp: lifted_def)
  show "inorder (plug fs (lifted px sib gx gd gsib a y b)) =
     inorder (plug (Frame Red px (\<not> gd) sib # Frame gk gx gd gsib # fs) (Node Red a y b))"
    by (auto simp: inorder_plug lifted_def)
qed

lemma inv_double:
  assumes i: "ins_inv c xs (Frame Red px (\<not> gd) sib # Frame gk gx gd gsib # fs) (Node k l y r) stale"
    and red: "is_red l" "is_red r" and u: "\<not> is_red gsib"
  defines "up \<equiv> lifted px sib gx gd gsib (paint Black l) y (paint Black r)"
  shows "ins_fix (Frame Red px (\<not> gd) sib # Frame gk gx gd gsib # fs) (Node Red (paint Black l) y (paint Black r)) 0
       = Inr (fs, up, 2)"
    "ins_inv c xs (frame_at up (c y > 0) @ fs) (child (c y > 0) up) 2"
    "slen c (child (c y > 0) up) = slen c (Node k l y r)"
proof -
  obtain n where n: "rb (Node k l y r) n" "ctx (Frame Red px (\<not> gd) sib # Frame gk gx gd gsib # fs) n"
    using i by (auto simp: ins_inv_def)
  note f = flip_node [OF n(1) red]
  note d = fix_double [OF n(2) u f(2), folded up_def]
  show "ins_fix (Frame Red px (\<not> gd) sib # Frame gk gx gd gsib # fs) (Node Red (paint Black l) y (paint Black r)) 0
       = Inr (fs, up, 2)" by (rule d(1))
  note bd = ins_invD(1) [OF i]
  then have p: "c px > 0 \<longleftrightarrow> \<not> gd" and g: "c gx > 0 \<longleftrightarrow> gd" and bfs: "bounded c fs"
    by (auto simp: bounded_def split: if_splits)
  have xs: "inorder (plug fs up) = xs" "split_at c xs" using i d(4) by (auto simp: ins_inv_def inorder_plug)
  obtain L R where up: "up = Node Black L y R" by (cases gd) (auto simp: up_def lifted_def)
  have b: "bounded c (frame_at up (c y > 0) @ fs)"
    using bounded_down [OF bfs, of Black L y R] xs by (simp add: up inorder_plug)
  have v: "rb L n" "rb R n" using d(2) by (auto simp: up)
  have "cool (descend c L)" "cool (descend c R)"
    using f p g up by (auto simp: up_def lifted_def)
  then show "ins_inv c xs (frame_at up (c y > 0) @ fs) (child (c y > 0) up) 2"
    unfolding ins_inv_def using b xs v d(3) by (auto simp: up inorder_plug)
  show "slen c (child (c y > 0) up) = slen c (Node k l y r)"
    using p g by (auto simp: up_def lifted_def)
qed

lemma red_uncle_cases:
  assumes "red_top fs" "uncle_black fs"
  obtains px d sib gk gx gd gsib rest where
    "fs = Frame Red px d sib # Frame gk gx gd gsib # rest" "\<not> is_red gsib" "d = gd \<or> d = (\<not> gd)"
  using assms by (cases fs rule: uncle_black.cases; cases "hd fs") auto

lemma ins_leaf:
  assumes i: "ins_inv c xs fs Leaf stale"
  shows "\<exists>fs2 q2 s2. ins_fix fs (Node Red Leaf x Leaf) stale = Inr (fs2, q2, s2) \<and>
     (\<exists>m. rb (plug fs2 q2) m) \<and> inorder (plug fs2 q2) = lefts fs @ x # rights fs"
proof -
  let ?q = "Node Red Leaf x Leaf"
  have v: "rb ?q 0" "ctx fs 0" using ins_invD(5) [OF i] by auto
  show ?thesis
  proof (cases "red_top fs")
    case False
    then show ?thesis using plug_rb [OF v] fix_black [OF False] by (auto simp: inorder_plug)
  next
    case True
    then have st: "stale = 0" "uncle_black fs" using ins_invD(6) [OF i True] by auto
    from True st(2) obtain px d sib gk gx gd gsib rest where
      fs: "fs = Frame Red px d sib # Frame gk gx gd gsib # rest" "\<not> is_red gsib" "d = gd \<or> d = (\<not> gd)"
      by (rule red_uncle_cases)
    show ?thesis
    proof (cases "d = gd")
      case True
      from v(2) fs(2) obtain G where G: "ins_fix fs ?q 0 = Inr (Frame Black px d G # rest, ?q, 1)"
        "ctx (Frame Black px d G # rest) 0" "lefts (Frame Black px d G # rest) = lefts fs"
        "rights (Frame Black px d G # rest) = rights fs"
        unfolding fs(1) True [symmetric] by (rule fix_single [where q = ?q]) simp
      have "\<exists>m. rb (plug (Frame Black px d G # rest) ?q) m" by (rule plug_rb [OF v(1) G(2)]) simp
      moreover have "inorder (plug (Frame Black px d G # rest) ?q) = lefts fs @ x # rights fs"
        unfolding inorder_plug G(3,4) by simp
      ultimately show ?thesis using G(1) st(1) by blast
    next
      case False
      then have d: "d = (\<not> gd)" by simp
      note D = fix_double [OF v(2) [unfolded fs(1) d] fs(2) v(1)]
      have "\<exists>m. rb (plug rest (lifted px sib gx gd gsib Leaf x Leaf)) m"
        by (rule plug_rb [OF D(2,3)]) (simp add: lifted_def split: if_splits)
      then show ?thesis using D(1,4) st(1) by (auto simp: fs(1) d inorder_plug)
    qed
  qed
qed

lemma ins_loop_node:
  assumes "ins_visit x (Node k l y r) = (q1, False)" "ins_fix fs q1 stale = Inr (fs2, Node k2 l2 y r2, stale2)"
  shows "ins_loop c x (Suc fuel) fs (Node k l y r) stale =
     ins_loop c x fuel (frame_at (Node k2 l2 y r2) (c y > 0) @ fs2) (child (c y > 0) (Node k2 l2 y r2)) stale2"
  using assms by (simp del: ins_visit.simps add: Let_def)

lemma ins_loop_ok:
  assumes "ins_inv c xs fs q stale" "3 * slen c q + (2 - stale) < fuel"
  shows "\<exists>t'. ins_loop c x fuel fs q stale = Inr t' \<and> (\<exists>m. rb t' m) \<and>
     inorder t' = filter (\<lambda>z. c z > 0) xs @ x # filter (\<lambda>z. \<not> c z > 0) xs"
  using assms
proof (induction fuel arbitrary: fs q stale)
  case (Suc fuel)
  note i = Suc.prems(1)
  show ?case
  proof (cases q)
    case Leaf
    have "filter (\<lambda>z. c z > 0) xs = lefts fs" "filter (\<lambda>z. \<not> c z > 0) xs = rights fs"
      using bounded_filter [OF ins_invD(1) [OF i]] ins_invD(2) [OF i] Leaf by auto
    then show ?thesis using ins_leaf [OF i [unfolded Leaf], of x] Leaf by auto
  next
    case (Node k l y r)
    let ?d = "c y > 0"
    show ?thesis
    proof (cases "is_red l \<and> is_red r")
      case False
      have "\<not> (is_red q \<and> red_top fs)" using i by (auto simp: ins_inv_def)
      then have "ins_fix fs q stale = Inr (fs, q, stale - 1)"
        by (cases "red_top fs"; cases fs rule: red_top.cases) (auto simp: ins_fix_def fix_black split: color.split)
      then have loop: "ins_loop c x (Suc fuel) fs q stale =
          ins_loop c x fuel (Frame k y ?d (if ?d then l else r) # fs) (if ?d then r else l) (stale - 1)"
        using False unfolding Node by (subst ins_loop_node) auto
      have "3 * slen c (if ?d then r else l) + (2 - (stale - 1)) < fuel"
        using Suc.prems(2) Node ins_invD(4) [OF i] by auto
      then show ?thesis unfolding loop
        by (rule Suc.IH [OF inv_noflip [OF i [unfolded Node] False]])
    next
      case True
      let ?q = "Node Red (paint Black l) y (paint Black r)"
      have vis: "ins_visit x (Node k l y r) = (?q, False)" using True by simp
      obtain n where n: "rb (Node k l y r) n" "ctx fs n" using ins_invD(5) [OF i] Node by auto
      have next_flip: ?thesis if f: "ins_fix fs ?q stale = Inr (fs2, ?q, s2)" "ctx fs2 n" "\<not> red_top fs2"
          "lefts fs2 = lefts fs" "rights fs2 = rights fs" "s2 \<le> 2" "2 - s2 \<le> 4 - stale" for fs2 s2
      proof -
        have inv: "ins_inv c xs (Frame Red y ?d (paint Black (if ?d then l else r)) # fs2)
            (paint Black (if ?d then r else l)) s2"
          using inv_flip [OF i [unfolded Node] _ _ f(2) n(1) f(3-6)] True by blast
        have loop: "ins_loop c x (Suc fuel) fs q stale = ins_loop c x fuel
            (Frame Red y ?d (paint Black (if ?d then l else r)) # fs2) (paint Black (if ?d then r else l)) s2"
          unfolding Node ins_loop_node [OF vis f(1)] by simp
        have "3 * slen c (paint Black (if ?d then r else l)) + (2 - s2) < fuel"
          using Suc.prems(2) f(6,7) Node ins_invD(4) [OF i] by auto
        then show ?thesis unfolding loop by (rule Suc.IH [OF inv])
      qed
      show ?thesis
      proof (cases "red_top fs")
        case False
        show ?thesis
          by (rule next_flip [OF fix_black [OF False] n(2) False]) (use ins_invD(4) [OF i] in auto)
      next
        case red: True
        then have st: "stale = 0" "uncle_black fs" using ins_invD(6) [OF i red] True Node by auto
        from red st(2) obtain px d sib gk gx gd gsib rest where
          fs: "fs = Frame Red px d sib # Frame gk gx gd gsib # rest" "\<not> is_red gsib" "d = gd \<or> d = (\<not> gd)"
          by (rule red_uncle_cases)
        show ?thesis
        proof (cases "d = gd")
          case deq: True
          from n(2) fs(2) obtain G where G: "ins_fix fs ?q 0 = Inr (Frame Black px d G # rest, ?q, 1)"
            "ctx (Frame Black px d G # rest) n" "lefts (Frame Black px d G # rest) = lefts fs"
            "rights (Frame Black px d G # rest) = rights fs"
            unfolding fs(1) deq [symmetric] by (rule fix_single [where q = ?q]) simp
          show ?thesis by (rule next_flip [OF _ G(2) _ G(3,4)]) (use G(1) st(1) in auto)
        next
          case False
          then have d: "d = (\<not> gd)" by simp
          note D = inv_double [OF i [unfolded Node fs(1) d] conjunct1 [OF True] conjunct2 [OF True] fs(2)]
          let ?up = "lifted px sib gx gd gsib (paint Black l) y (paint Black r)"
          obtain L R where up: "?up = Node Black L y R" by (cases gd) (auto simp: lifted_def)
          have "ins_fix fs ?q stale = Inr (rest, Node Black L y R, 2)" using D(1) st(1) by (simp add: fs(1) d up)
          then have loop: "ins_loop c x (Suc fuel) fs q stale = ins_loop c x fuel (frame_at ?up ?d @ rest) (child ?d ?up) 2"
            unfolding Node up by (rule ins_loop_node [OF vis])
          have "3 * slen c (child ?d ?up) + (2 - 2) < fuel" unfolding D(3) using Suc.prems(2) st(1) Node by simp
          then show ?thesis unfolding loop by (rule Suc.IH [OF D(2)])
        qed
      qed
    qed
  qed
qed simp

lemma rb_insert_ok:
  assumes "rb t n" "\<not> is_red t" "split_at c (inorder t)"
  shows "\<exists>t'. rb_insert c x t = Inr t' \<and> \<not> is_red t' \<and> (\<exists>m. rb t' m) \<and>
     inorder t' = filter (\<lambda>z. c z > 0) (inorder t) @ x # filter (\<lambda>z. \<not> c z > 0) (inorder t)"
proof (cases "t = Leaf")
  case True
  then show ?thesis by (simp add: rb_insert_def) (rule exI [of _ "Suc 0"], simp)
next
  case False
  have "ins_inv c (inorder t) [] t 0" using assms by (auto simp: ins_inv_def bounded_def)
  moreover have "3 * slen c t + (2 - 0) < 3 * size t + 3" using slen_size [of c t] by simp
  ultimately obtain t' m where t': "ins_loop c x (3 * size t + 3) [] t 0 = Inr t'" "rb t' m"
      "inorder t' = filter (\<lambda>z. c z > 0) (inorder t) @ x # filter (\<lambda>z. \<not> c z > 0) (inorder t)"
    using ins_loop_ok [of c "inorder t" "[]" t 0 "3 * size t + 3" x] by blast
  have "rb_insert c x t = Inr (paint Black t')" using False t'(1) by (simp add: rb_insert_def)
  moreover have "\<not> is_red (paint Black t')" by simp
  ultimately show ?thesis using rb_paint_black [OF t'(2)] t'(3) by (metis inorder_paint)
qed

section \<open>Deletion\<close>

text \<open>
  At the start of a round the node \<open>q\<close> or its parent is red, or the parent is the sentinel, or
  the parent is a black root without red children.
\<close>

fun del_red :: "'a frame list \<Rightarrow> 'a rbt \<Rightarrow> bool" where
  "del_red [] q = True"
| "del_red [Frame k x d s] q = (is_red q \<or> k = Red \<or> \<not> is_red s)"
| "del_red (Frame k x d s # fs) q = (is_red q \<or> k = Red)"

definition valid :: "'a frame list \<Rightarrow> 'a rbt \<Rightarrow> bool" where
  "valid fs q \<longleftrightarrow> (\<exists>n. rb q n \<and> ctx fs n) \<and> (is_red q \<longrightarrow> \<not> red_top fs)"

text \<open>What a round achieves: \<open>q\<close> or its child on the path is red, or \<open>q\<close> is a root without red children.\<close>

definition ready :: "'a frame list \<Rightarrow> bool \<Rightarrow> 'a rbt \<Rightarrow> bool" where
  "ready fs dir q \<longleftrightarrow> is_red q \<or> is_red (child dir q) \<or>
     fs = [] \<and> \<not> is_red (child dir q) \<and> \<not> is_red (child (\<not> dir) q)"

lemma del_red_sibling:
  "del_red (Frame k x d s # fs) q \<Longrightarrow> \<not> is_red q \<Longrightarrow> ctx (Frame k x d s # fs) n \<Longrightarrow>
   \<not> is_red s \<and> (k = Red \<or> fs = [])"
  by (cases k; cases fs) auto

lemma black_node:
  assumes "rb q n" "\<not> is_red q" "q \<noteq> Leaf"
  obtains l x r m where "q = Node Black l x r" "n = Suc m" "rb l m" "rb r m"
proof (cases q)
  case (Node k l x r)
  then show ?thesis using assms that by (cases k; cases n) auto
qed (use assms in simp)

text \<open>The round at a black node whose sibling's children are black: three recolourings.\<close>

lemma del_recolour:
  assumes "q = Node Black l x r" "s = Node Black sl sx sr" "rb l m" "rb r m" "rb sl m" "rb sr m"
    "\<not> is_red l" "\<not> is_red r" "\<not> is_red sl" "\<not> is_red sr"
    "k = Red \<or> fs = []" "ctx (Frame k px ld s # fs) (Suc m)"
  shows "valid (Frame Black px ld (paint Red s) # fs) (paint Red q)"
  using assms by (cases k) (auto simp: valid_def)

lemma del_rotated:
  assumes q: "q = Node Black l x r" "rb l m" "rb r m" "\<not> is_red l" "\<not> is_red r"
    and s: "rb s1 m" "rb s2 (Suc m)" "\<not> is_red s2"
    and fs: "k = Red \<or> fs = []" "ctx (Frame k px ld s # fs) (Suc m)"
  shows "valid (Frame Black px ld s1 # Frame Red y ld s2 # fs) (paint Red q)"
  using assms by (cases k) (auto simp: valid_def)

text \<open>The rotation at \<open>p\<close>: the node \<open>y\<close> that comes up and the siblings it leaves along the path.\<close>

lemma del_step_rotate:
  assumes q: "\<not> is_red q" "\<not> is_red (child dir q)" "\<not> is_red (child (\<not> dir) q)" "q \<noteq> Leaf"
    and s: "s = Node Black sl sx sr" "rb sl m" "rb sr m" "is_red sl \<or> is_red sr"
  shows "\<exists>s1 y s2. del_step (Frame k px ld s # fs) dir q =
       Some (Frame Black px ld s1 # Frame Red y ld s2 # fs, paint Red q) \<and>
     rb s1 m \<and> rb s2 (Suc m) \<and> \<not> is_red s2 \<and>
     (if ld then inorder s2 @ y # inorder s1 = inorder s else inorder s1 @ y # inorder s2 = inorder s)"
proof -
  obtain qk ql qx qr where Q: "q = Node qk ql qx qr" using q(4) by (cases q) auto
  show ?thesis
  proof (cases ld)
    case True
    show ?thesis
    proof (cases "is_red sr")
      case r: True
      obtain a z b where "sr = Node Red a z b" "rb a m" "rb b m" "\<not> is_red a" "\<not> is_red b"
        using red_node [OF s(3) r] by metis
      then show ?thesis using True s q
        by (intro exI [of _ b] exI [of _ z] exI [of _ "Node Black sl sx a"])
          (auto simp: del_step_def rb_simps Let_def Q)
    next
      case False
      then have l: "is_red sl" using s(4) by simp
      obtain a z b where "sl = Node Red a z b" "rb a m" "rb b m" "\<not> is_red a" "\<not> is_red b"
        using red_node [OF s(2) l] by metis
      then show ?thesis using True s q False
        by (intro exI [of _ sr] exI [of _ sx] exI [of _ "Node Black a z b"])
          (auto simp: del_step_def rb_simps Let_def Q)
    qed
  next
    case ld: False
    show ?thesis
    proof (cases "is_red sl")
      case True
      obtain a z b where "sl = Node Red a z b" "rb a m" "rb b m" "\<not> is_red a" "\<not> is_red b"
        using red_node [OF s(2) True] by metis
      then show ?thesis using ld s q
        by (intro exI [of _ a] exI [of _ z] exI [of _ "Node Black b sx sr"])
          (auto simp: del_step_def rb_simps Let_def Q)
    next
      case False
      then have r: "is_red sr" using s(4) by simp
      obtain a z b where "sr = Node Red a z b" "rb a m" "rb b m" "\<not> is_red a" "\<not> is_red b"
        using red_node [OF s(3) r] by metis
      then show ?thesis using ld s q False
        by (intro exI [of _ sl] exI [of _ sx] exI [of _ "Node Black a z b"])
          (auto simp: del_step_def rb_simps Let_def Q)
    qed
  qed
qed

definition moved :: "bool \<Rightarrow> 'a frame list \<Rightarrow> 'a rbt \<Rightarrow> 'a frame list \<Rightarrow> 'a rbt \<Rightarrow> bool" where
  "moved dir fs q fs' q' \<longleftrightarrow>
     (\<exists>A B. lefts fs' = lefts fs @ A \<and> rights fs' = B @ rights fs \<and> A @ inorder q' @ B = inorder q \<and>
        (A \<noteq> [] \<longrightarrow> dir) \<and> (B \<noteq> [] \<longrightarrow> \<not> dir))"

lemma moved_same:
  "lefts fs' = lefts fs \<Longrightarrow> rights fs' = rights fs \<Longrightarrow> inorder q' = inorder q \<Longrightarrow> moved dir fs q fs' q'"
  by (auto simp: moved_def)

lemma valid_black:
  assumes "valid fs (Node Black l x r)"
  obtains m where "rb l m" "rb r m" "ctx fs (Suc m)"
proof -
  obtain n where "rb (Node Black l x r) n" "ctx fs n" using assms by (auto simp: valid_def)
  then show ?thesis using that by (cases n) auto
qed

lemma paint_node: "paint k (Node k' l x r) = Node k l x r" by simp

lemma del_step_black:
  assumes v: "valid fs (Node Black l x r)" and d: "del_red fs (Node Black l x r)"
    and nr: "\<not> is_red l" "\<not> is_red r"
  shows "\<exists>fs' k'. del_step fs dir (Node Black l x r) = Some (fs', Node k' l x r) \<and> valid fs' (Node k' l x r) \<and>
     ready fs' dir (Node k' l x r) \<and> lefts fs' = lefts fs \<and> rights fs' = rights fs"
proof (cases fs)
  case Nil
  then show ?thesis using v nr by (intro exI [of _ "[]"] exI [of _ Black]) (auto simp: del_step_def ready_def)
next
  case (Cons f rest)
  obtain k px ld s where f: "f = Frame k px ld s" by (cases f)
  obtain m where m: "rb l m" "rb r m" "ctx fs (Suc m)" by (rule valid_black [OF v])
  have s: "\<not> is_red s" "k = Red \<or> rest = []"
    using del_red_sibling [of k px ld s rest "Node Black l x r" "Suc m"] d m(3) by (auto simp: Cons f)
  have "rb s (Suc m)" using m(3) by (cases k) (auto simp: Cons f)
  then obtain sl sx sr where S: "s = Node Black sl sx sr" "rb sl m" "rb sr m"
    using black_node [of s "Suc m"] s(1) by (metis nat.inject rb.simps(1) nat.distinct(1))
  have c: "ctx (Frame k px ld s # rest) (Suc m)" using m(3) by (simp add: Cons f)
  show ?thesis
  proof (cases "is_red sl \<or> is_red sr")
    case False
    then have "del_step fs dir (Node Black l x r) = Some (Frame Black px ld (paint Red s) # rest, Node Red l x r)"
      using nr S by (cases dir; cases ld) (auto simp: del_step_def Cons f)
    moreover have "valid (Frame Black px ld (paint Red s) # rest) (Node Red l x r)"
      using del_recolour [OF refl S(1) m(1,2) S(2,3) nr _ _ s(2) c] False by simp
    moreover have "ready fs' dir (Node Red l x r)" for fs' :: "'a frame list" by (simp add: ready_def)
    ultimately show ?thesis
      by (intro exI [of _ "Frame Black px ld (paint Red s) # rest"] exI [of _ Red]) (auto simp: Cons f)
  next
    case True
    have kids: "\<not> is_red (child dir (Node Black l x r))" "\<not> is_red (child (\<not> dir) (Node Black l x r))" using nr by auto
    obtain s1 y s2 where R: "del_step (Frame k px ld s # rest) dir (Node Black l x r) =
         Some (Frame Black px ld s1 # Frame Red y ld s2 # rest, Node Red l x r)"
       "rb s1 m" "rb s2 (Suc m)" "\<not> is_red s2"
       "if ld then inorder s2 @ y # inorder s1 = inorder s else inorder s1 @ y # inorder s2 = inorder s"
      using del_step_rotate [of "Node Black l x r" dir s sl sx sr m k px ld rest, OF _ kids _ S True]
      unfolding paint_node by fastforce
    have "valid (Frame Black px ld s1 # Frame Red y ld s2 # rest) (Node Red l x r)"
      using del_rotated [OF refl m(1,2) nr R(2-4) s(2) c, of y] by simp
    moreover have "lefts (Frame Black px ld s1 # Frame Red y ld s2 # rest) = lefts fs"
      "rights (Frame Black px ld s1 # Frame Red y ld s2 # rest) = rights fs"
      using R(5) by (cases ld; simp add: Cons f)+
    moreover have "ready fs' dir (Node Red l x r)" for fs' :: "'a frame list" by (simp add: ready_def)
    ultimately show ?thesis using R(1) unfolding Cons f by blast
  qed
qed

lemma del_step_turn:
  assumes v: "valid fs (Node Black l x r)" and nr: "\<not> is_red (if dir then r else l)" "is_red (if dir then l else r)"
  shows "\<exists>fs' k' l' r'. del_step fs dir (Node Black l x r) = Some (fs', Node k' l' x r') \<and> valid fs' (Node k' l' x r') \<and>
     ready fs' dir (Node k' l' x r') \<and> moved dir fs (Node Black l x r) fs' (Node k' l' x r')"
proof -
  obtain m where m: "rb l m" "rb r m" "ctx fs (Suc m)" by (rule valid_black [OF v])
  show ?thesis
  proof (cases dir)
    case True
    then have l: "is_red l" "\<not> is_red r" using nr by auto
    obtain a z b where L: "l = Node Red a z b" "\<not> is_red a" "\<not> is_red b" "rb a m" "rb b m"
      by (rule red_node [OF m(1) l(1)])
    let ?fs = "Frame Black z True a # fs"
    have "del_step fs dir (Node Black l x r) = Some (?fs, Node Red b x r)"
      using True L l by (simp add: del_step_def rb_simps)
    moreover have "valid ?fs (Node Red b x r)" using L l m by (auto simp: valid_def)
    moreover have "moved dir fs (Node Black l x r) ?fs (Node Red b x r)"
      unfolding moved_def using True L by (intro exI [of _ "inorder a @ [z]"] exI [of _ "[]"]) simp
    ultimately show ?thesis by (metis is_red.simps(2) ready_def)
  next
    case False
    then have r: "is_red r" "\<not> is_red l" using nr by auto
    obtain a z b where R: "r = Node Red a z b" "\<not> is_red a" "\<not> is_red b" "rb a m" "rb b m"
      by (rule red_node [OF m(2) r(1)])
    let ?fs = "Frame Black z False b # fs"
    have "del_step fs dir (Node Black l x r) = Some (?fs, Node Red l x a)"
      using False R r by (simp add: del_step_def rb_simps)
    moreover have "valid ?fs (Node Red l x a)" using R r m by (auto simp: valid_def)
    moreover have "moved dir fs (Node Black l x r) ?fs (Node Red l x a)"
      unfolding moved_def using False R by (intro exI [of _ "[]"] exI [of _ "z # inorder b"]) simp
    ultimately show ?thesis by (metis is_red.simps(2) ready_def)
  qed
qed

lemma del_step_ok:
  assumes v: "valid fs (Node k l x r)" and d: "del_red fs (Node k l x r)"
  shows "\<exists>fs' k' l' r'. del_step fs dir (Node k l x r) = Some (fs', Node k' l' x r') \<and> valid fs' (Node k' l' x r') \<and>
     ready fs' dir (Node k' l' x r') \<and> moved dir fs (Node k l x r) fs' (Node k' l' x r')"
proof (cases "k = Red \<or> is_red (if dir then r else l)")
  case True
  then have "del_step fs dir (Node k l x r) = Some (fs, Node k l x r)" "ready fs dir (Node k l x r)"
    by (auto simp: del_step_def ready_def)
  then show ?thesis using v moved_same by blast
next
  case False
  then have k: "k = Black" by (cases k) auto
  show ?thesis
  proof (cases "is_red (if dir then l else r)")
    case True
    then show ?thesis using del_step_turn [of fs l x r dir] v False unfolding k by blast
  next
    case nr: False
    then have "\<not> is_red l" "\<not> is_red r" using False by (auto split: if_splits)
    then obtain fs' k' where "del_step fs dir (Node k l x r) = Some (fs', Node k' l x r)" "valid fs' (Node k' l x r)"
        "ready fs' dir (Node k' l x r)" "lefts fs' = lefts fs" "rights fs' = rights fs"
      using del_step_black [of fs l x r dir] v d unfolding k by blast
    moreover from this have "moved dir fs (Node k l x r) fs' (Node k' l x r)" by (simp add: moved_same)
    ultimately show ?thesis by blast
  qed
qed

lemma ready_down:
  assumes "valid fs (Node k l x r)" "ready fs dir (Node k l x r)"
  shows "valid (frame_at (Node k l x r) dir @ fs) (child dir (Node k l x r))"
    "del_red (frame_at (Node k l x r) dir @ fs) (child dir (Node k l x r))"
proof -
  obtain n where n: "rb (Node k l x r) n" "ctx fs n" "k = Red \<longrightarrow> \<not> red_top fs" using assms(1) by (auto simp: valid_def)
  show "valid (frame_at (Node k l x r) dir @ fs) (child dir (Node k l x r))"
    using n by (cases k; cases n) (auto simp: valid_def)
  show "del_red (frame_at (Node k l x r) dir @ fs) (child dir (Node k l x r))"
    using assms(2) by (cases fs) (auto simp: ready_def)
qed

lemma ready_exit:
  assumes "valid fs (Node k l x r)" "ready fs dir (Node k l x r)" "child dir (Node k l x r) = Leaf"
  shows "l = Leaf" "r = Leaf" "\<exists>m. rb (plug fs Leaf) m" "\<exists>m. rb (plug fs (Node k l x r)) m"
proof -
  obtain n where n: "rb (Node k l x r) n" "ctx fs n" "k = Red \<longrightarrow> \<not> red_top fs" using assms(1) by (auto simp: valid_def)
  have leaf: "t = Leaf" if "rb t 0" "\<not> is_red t" for t :: "'a rbt" using black_node [OF that] by auto
  have "l = Leaf \<and> r = Leaf \<and> (k = Red \<and> n = 0 \<or> fs = [])"
    using assms(2,3) n(1) leaf by (cases k; cases n; cases dir) (auto simp: ready_def)
  then show "l = Leaf" "r = Leaf" "\<exists>m. rb (plug fs Leaf) m" using n(2) plug_rb [of Leaf 0 fs] by auto
  show "\<exists>m. rb (plug fs (Node k l x r)) m" using plug_rb [OF n(1,2)] n(3) by simp
qed

text \<open>In the order of the tree, nodes above the labels, at most one equal node, nodes below.\<close>

definition strict_at :: "('a \<Rightarrow> int) \<Rightarrow> 'a list \<Rightarrow> bool" where
  "strict_at c xs \<longleftrightarrow> sorted_wrt (\<lambda>y z. c z \<ge> 0 \<longrightarrow> c y > 0) xs"

definition found :: "('a \<Rightarrow> int) \<Rightarrow> 'a list \<Rightarrow> 'a option \<Rightarrow> bool" where
  "found c zs f \<longleftrightarrow> (\<forall>z \<in> set zs. c z = 0 \<longrightarrow> f = Some z) \<and> (\<forall>z. f = Some z \<longrightarrow> z \<in> set zs \<and> c z = 0)"

lemma strict_split:
  assumes "strict_at c (us @ x # vs)"
  shows "c x \<ge> 0 \<Longrightarrow> u \<in> set us \<Longrightarrow> c u > 0" "c x \<le> 0 \<Longrightarrow> v \<in> set vs \<Longrightarrow> c v < 0"
proof -
  have l: "\<forall>u \<in> set us. c x \<ge> 0 \<longrightarrow> c u > 0" and r: "\<forall>v \<in> set vs. c v \<ge> 0 \<longrightarrow> c x > 0"
    using assms unfolding strict_at_def sorted_wrt_append sorted_wrt.simps by (blast intro: list.set_intros)+
  show "c x \<ge> 0 \<Longrightarrow> u \<in> set us \<Longrightarrow> c u > 0" using l by simp
  show "c x \<le> 0 \<Longrightarrow> v \<in> set vs \<Longrightarrow> c v < 0" using bspec [OF r, of v] by linarith
qed

lemma foundI:
  "(\<And>z. z \<in> set zs \<Longrightarrow> c z = 0 \<Longrightarrow> f = Some z) \<Longrightarrow> (\<And>z. f = Some z \<Longrightarrow> z \<in> set zs \<and> c z = 0) \<Longrightarrow> found c zs f"
  unfolding found_def by blast

lemma foundD:
  assumes "found c zs f"
  shows "z \<in> set zs \<Longrightarrow> c z = 0 \<Longrightarrow> f = Some z" "f = Some z \<Longrightarrow> z \<in> set zs \<and> c z = 0"
  using assms unfolding found_def by blast+

lemma found_visit:
  assumes f: "found c (us @ vs) f" and s: "strict_at c (us' @ x # vs')"
    and sub: "set us \<subseteq> set us'" "set vs \<subseteq> set vs'"
    and new: "\<And>z. z \<in> set us' \<Longrightarrow> c z = 0 \<Longrightarrow> z \<in> set us" "\<And>z. z \<in> set vs' \<Longrightarrow> c z = 0 \<Longrightarrow> z \<in> set vs"
  shows "found c (us' @ x # vs') (if c x = 0 then Some x else f)"
proof (rule foundI)
  fix z assume z: "z \<in> set (us' @ x # vs')" "c z = 0"
  show "(if c x = 0 then Some x else f) = Some z"
  proof (cases "c x = 0")
    case True
    then show ?thesis using z strict_split(1) [OF s, of z] strict_split(2) [OF s, of z] by auto
  next
    case False
    then show ?thesis using z new [of z] foundD(1) [OF f, of z] by auto
  qed
next
  fix z assume "(if c x = 0 then Some x else f) = Some z"
  then show "z \<in> set (us' @ x # vs') \<and> c z = 0"
    using foundD(2) [OF f, of z] sub by (auto split: if_splits)
qed

text \<open>One round, seen on the list of nodes: the part before and behind the focused node grows.\<close>

lemma del_round:
  assumes "bounded c fs" "found c (lefts fs @ rights fs) f"
    "strict_at c (lefts fs @ inorder (Node k l x r) @ rights fs)"
    "moved (c x > 0) fs (Node k l x r) fs' (Node k' l' x r')"
  shows "lefts fs' @ inorder (Node k' l' x r') @ rights fs' = lefts fs @ inorder (Node k l x r) @ rights fs"
    "bounded c fs'" "found c (lefts fs' @ x # rights fs') (if c x = 0 then Some x else f)"
proof -
  obtain A B where ab: "lefts fs' = lefts fs @ A" "rights fs' = B @ rights fs"
    "A @ inorder (Node k' l' x r') @ B = inorder (Node k l x r)" "A \<noteq> [] \<longrightarrow> c x > 0" "B \<noteq> [] \<longrightarrow> \<not> c x > 0"
    using assms(4) by (auto simp: moved_def)
  show eq: "lefts fs' @ inorder (Node k' l' x r') @ rights fs' = lefts fs @ inorder (Node k l x r) @ rights fs"
    unfolding ab(1,2) ab(3) [symmetric] by simp
  have s: "strict_at c ((lefts fs' @ inorder l') @ x # (inorder r' @ rights fs'))"
    using assms(3) unfolding eq [symmetric] by simp
  have A: "c z > 0" if "z \<in> set A" for z
    using strict_split(1) [OF s, of z] ab(1,4) that by (cases A) auto
  have B: "c z < 0" if "z \<in> set B" for z
    using strict_split(2) [OF s, of z] ab(2,5) that by (cases B) auto
  have "\<not> c z > 0" if "z \<in> set B" for z using B [OF that] by simp
  then show "bounded c fs'" using assms(1) A by (auto simp: bounded_def ab(1,2))
  have s': "strict_at c (lefts fs' @ x # rights fs')"
    using s by (auto simp: strict_at_def sorted_wrt_append)
  show "found c (lefts fs' @ x # rights fs') (if c x = 0 then Some x else f)"
  proof (rule found_visit [OF assms(2) s'])
    show "set (lefts fs) \<subseteq> set (lefts fs')" "set (rights fs) \<subseteq> set (rights fs')" using ab(1,2) by auto
    show "z \<in> set (lefts fs)" if "z \<in> set (lefts fs')" "c z = 0" for z using that A [of z] ab(1) by auto
    show "z \<in> set (rights fs)" if "z \<in> set (rights fs')" "c z = 0" for z using that B [of z] ab(2) by auto
  qed
qed

lemma strict_split_at: "strict_at c xs \<Longrightarrow> split_at c xs"
  unfolding strict_at_def split_at_def by (erule sorted_wrt_mono_rel [rotated]) simp

lemma del_descend:
  assumes "bounded c fs" "found c (lefts fs @ x # rights fs) f"
    "strict_at c (lefts fs @ inorder (Node k l x r) @ rights fs)"
  defines "fs2 \<equiv> frame_at (Node k l x r) (c x > 0) @ fs"
  shows "bounded c fs2" "found c (lefts fs2 @ rights fs2) f"
    "lefts fs2 @ inorder (child (c x > 0) (Node k l x r)) @ rights fs2 = lefts fs @ inorder (Node k l x r) @ rights fs"
proof -
  have s: "strict_at c ((lefts fs @ inorder l) @ x # (inorder r @ rights fs))" using assms(3) by simp
  note lt = strict_split(1) [OF s] and gt = strict_split(2) [OF s]
  show "bounded c fs2"
    using bounded_down [OF assms(1), of k l x r] s by (simp add: fs2_def strict_split_at)
  show "found c (lefts fs2 @ rights fs2) f"
  proof (cases "c x > 0")
    case True
    then have l: "c z \<noteq> 0" if "z \<in> set (inorder l)" for z using lt [of z] that by simp
    show ?thesis
    proof (rule foundI)
      show "f = Some z" if "z \<in> set (lefts fs2 @ rights fs2)" "c z = 0" for z
        using foundD(1) [OF assms(2), of z] l [of z] that True by (auto simp: fs2_def)
      show "z \<in> set (lefts fs2 @ rights fs2) \<and> c z = 0" if "f = Some z" for z
        using foundD(2) [OF assms(2) that] True by (auto simp: fs2_def)
    qed
  next
    case False
    then have r: "c z \<noteq> 0" if "z \<in> set (inorder r)" for z using gt [of z] that by auto
    show ?thesis
    proof (rule foundI)
      show "f = Some z" if "z \<in> set (lefts fs2 @ rights fs2)" "c z = 0" for z
        using foundD(1) [OF assms(2), of z] r [of z] that False by (auto simp: fs2_def)
      show "z \<in> set (lefts fs2 @ rights fs2) \<and> c z = 0" if "f = Some z" for z
        using foundD(2) [OF assms(2) that] False by (auto simp: fs2_def)
    qed
  qed
  show "lefts fs2 @ inorder (child (c x > 0) (Node k l x r)) @ rights fs2 = lefts fs @ inorder (Node k l x r) @ rights fs"
    by (simp add: fs2_def)
qed

lemma del_loop_ok:
  assumes "valid fs q" "del_red fs q" "q \<noteq> Leaf" "\<And>z. e z = 0 \<longleftrightarrow> c z = 0"
    "bounded c fs" "found c (lefts fs @ rights fs) f" "strict_at c xs" "lefts fs @ inorder q @ rights fs = xs"
  shows "\<exists>fs' k x f'. del_loop c e fs q f = Some (fs', Node k Leaf x Leaf, f') \<and>
     (\<exists>m. rb (plug fs' Leaf) m) \<and> (\<exists>m. rb (plug fs' (Node k Leaf x Leaf)) m) \<and>
     lefts fs' @ x # rights fs' = xs \<and> bounded c fs' \<and> found c xs f'"
  using assms
proof (induction c e fs q f rule: del_loop.induct)
  case (2 c e fs k l x r f)
  let ?d = "c x > 0" and ?f = "if c x = 0 then Some x else f"
  obtain fs' k' l' r' where st: "del_step fs ?d (Node k l x r) = Some (fs', Node k' l' x r')"
      "valid fs' (Node k' l' x r')" "ready fs' ?d (Node k' l' x r')" "moved ?d fs (Node k l x r) fs' (Node k' l' x r')"
    using del_step_ok [OF "2.prems"(1,2), of ?d] by blast
  note rd = del_round [OF "2.prems"(5,6) "2.prems"(7) [folded "2.prems"(8)] st(4)]
  have xs: "lefts fs' @ inorder (Node k' l' x r') @ rights fs' = xs" using rd(1) "2.prems"(8) by simp
  show ?case
  proof (cases "child ?d (Node k' l' x r') = Leaf")
    case True
    note ex = ready_exit [OF st(2,3) True]
    have "del_loop c e fs (Node k l x r) f = Some (fs', Node k' l' x r', ?f)"
      using st(1) True "2.prems"(4) by (simp add: Let_def)
    then show ?thesis using ex rd(2,3) xs by auto
  next
    case False
    note dn = ready_down [OF st(2,3)]
    note ds = del_descend [OF rd(2,3), of k' l' r', unfolded xs, OF "2.prems"(7)]
    have "del_loop c e fs (Node k l x r) f =
        del_loop c e (frame_at (Node k' l' x r') ?d @ fs') (child ?d (Node k' l' x r')) ?f"
      using st(1) False "2.prems"(4) by (simp add: Let_def)
    then show ?thesis
      using "2.IH" [OF refl _ st(1) refl False dn _ "2.prems"(4) ds(1)] ds(2,3) "2.prems"(4,7) False by simp
  qed
qed simp

text \<open>Where the match is when the loop ends: the last node, or the next one in order.\<close>

lemma del_content:
  assumes xs: "lefts fs @ x # rights fs = xs" and b: "bounded c fs" and s: "strict_at c xs"
    and f: "found c xs (Some y)"
  shows "x = y \<and> lefts fs @ rights fs = filter (\<lambda>z. c z \<noteq> 0) xs \<or>
     c x > 0 \<and> (\<exists>R. rights fs = y # R \<and> lefts fs @ x # R = filter (\<lambda>z. c z \<noteq> 0) xs)"
proof -
  have s1: "strict_at c (lefts fs @ x # rights fs)" using s xs by simp
  have y: "y \<in> set xs" "c y = 0" using foundD(2) [OF f refl] by auto
  have l: "filter (\<lambda>z. c z \<noteq> 0) (lefts fs) = lefts fs" using b by (auto simp: bounded_def filter_id_conv)
  consider "c x = 0" | "c x < 0" | "c x > 0" by linarith
  then show ?thesis
  proof cases
    case 1
    have "filter (\<lambda>z. c z \<noteq> 0) (rights fs) = rights fs"
      using strict_split(2) [OF s1] 1 by (fastforce simp: filter_id_conv)
    moreover have "x = y" using foundD(1) [OF f, of x] 1 xs by auto
    ultimately show ?thesis using l 1 xs by (auto simp flip: xs)
  next
    case 2
    have "y \<in> set (lefts fs) \<union> {x} \<union> set (rights fs)" using y(1) xs by auto
    then show ?thesis using 2 y(2) b strict_split(2) [OF s1, of y] by (auto simp: bounded_def)
  next
    case 3
    moreover have "y \<notin> set (lefts fs)" using y(2) b by (force simp: bounded_def)
    ultimately have "y \<in> set (rights fs)" using y xs by auto
    then obtain r R where R: "rights fs = r # R" by (cases "rights fs") auto
    have s2: "strict_at c ((lefts fs @ [x]) @ r # R)" using s1 R by simp
    have r: "\<not> c r > 0" using b R by (auto simp: bounded_def)
    then have "y = r" using \<open>y \<in> set (rights fs)\<close> R strict_split(2) [OF s2, of y] y(2) by auto
    moreover have "filter (\<lambda>z. c z \<noteq> 0) R = R"
      using strict_split(2) [OF s2] r by (fastforce simp: filter_id_conv)
    ultimately show ?thesis using 3 R l y(2) xs by (auto simp flip: xs)
  qed
qed

lemma rb_find_sound: "rb_find e t = Some z \<Longrightarrow> z \<in> set (inorder t) \<and> e z = 0"
  by (induction t) (auto split: if_splits)

lemma strict_at_sub:
  "strict_at c (us @ x # vs) \<Longrightarrow> strict_at c us" "strict_at c (us @ x # vs) \<Longrightarrow> strict_at c vs"
  by (simp_all add: strict_at_def sorted_wrt_append)

lemma rb_find_complete:
  assumes "strict_at c (inorder t)" "\<And>z. sgn (e z) = - sgn (c z)" "z \<in> set (inorder t)" "c z = 0"
  shows "rb_find e t = Some z"
  using assms(1,3)
proof (induction t)
  case (Node k l x r)
  have s: "strict_at c (inorder l @ x # inorder r)" using Node.prems(1) by simp
  have gt: "e x > 0 \<longleftrightarrow> c x < 0" and lt: "e x < 0 \<longleftrightarrow> c x > 0" using assms(2) [of x] by (auto simp: sgn_if split: if_splits)
  consider "z \<in> set (inorder l)" | "z = x" | "z \<in> set (inorder r)" using Node.prems(2) by auto
  then show ?case
  proof cases
    case 1
    then have "c x < 0" using strict_split(1) [OF s, of z] assms(4) by force
    then show ?thesis using Node.IH(1) [OF strict_at_sub(1) [OF s] 1] gt by simp
  next
    case 2
    then show ?thesis using assms(4) gt lt by auto
  next
    case 3
    then have "c x > 0" using strict_split(2) [OF s, of z] assms(4) by force
    then show ?thesis using Node.IH(2) [OF strict_at_sub(2) [OF s] 3] gt lt by simp
  qed
qed simp

section \<open>Properties\<close>

text \<open>
  C10: Inserting into a valid red-black tree whose order agrees with the comparison returns a tree:
  the loop ends, never rotates through NULL or through an outdated pointer, and the result is a valid
  red-black tree with a black root and the new node between the nodes that compare below it and the rest.
\<close>

theorem rb_insert_correct:
  assumes "rb t n" "\<not> is_red t" "split_at c (inorder t)"
  shows "\<exists>t'. rb_insert c x t = Inr t' \<and> \<not> is_red t' \<and> (\<exists>m. rb t' m) \<and>
     inorder t' = filter (\<lambda>z. c z > 0) (inorder t) @ x # filter (\<lambda>z. \<not> c z > 0) (inorder t)"
  by (rule rb_insert_ok [OF assms])

text \<open>Inserting 4 below 1, 2, 3 in a tree that needs a colour flip.\<close>

theorem rb_insert_correct_witness:
  "let t = Node Black (Node Red Leaf 1 Leaf) (2 :: int) (Node Red Leaf 3 Leaf); c = (\<lambda>z. 4 - z)
   in rb t (Suc 0) \<and> \<not> is_red t \<and> split_at c (inorder t) \<and>
      (\<exists>t'. rb_insert c 4 t = Inr t' \<and> inorder t' = [1, 2, 3, 4])"
proof -
  let ?t = "Node Black (Node Red Leaf 1 Leaf) (2 :: int) (Node Red Leaf 3 Leaf)" and ?c = "\<lambda>z. 4 - z :: int"
  have h: "rb ?t (Suc 0)" "\<not> is_red ?t" "split_at ?c (inorder ?t)" by (simp_all add: split_at_def)
  show ?thesis using rb_insert_correct [OF h, of 4] h by (auto simp: Let_def)
qed

text \<open>
  C28: A lookup in a tree whose order agrees with the comparison finds the node with equal labels
  exactly when there is one.
\<close>

theorem rb_find_correct:
  assumes "strict_at c (inorder t)" "\<And>z. sgn (e z) = - sgn (c z)"
  shows "rb_find e t = Some z \<longleftrightarrow> z \<in> set (inorder t) \<and> c z = 0"
proof
  assume "rb_find e t = Some z"
  then show "z \<in> set (inorder t) \<and> c z = 0"
    using rb_find_sound [of e t z] assms(2) [of z] by (auto simp: sgn_if split: if_splits)
qed (use rb_find_complete [OF assms] in blast)

theorem rb_find_correct_witness:
  "let t = Node Black (Node Red Leaf 1 Leaf) (2 :: int) Leaf; c = (\<lambda>z. 1 - z); e = (\<lambda>z. z - 1)
   in strict_at c (inorder t) \<and> (\<forall>z. sgn (e z) = - sgn (c z)) \<and> rb_find e t = Some 1"
proof -
  let ?t = "Node Black (Node Red Leaf 1 Leaf) (2 :: int) Leaf"
  have h: "strict_at (\<lambda>z. 1 - z) (inorder ?t)" "\<And>z. sgn (z - 1) = - sgn (1 - z :: int)"
    by (auto simp: strict_at_def sgn_if)
  show ?thesis using rb_find_correct [OF h, of 1] h by (simp add: Let_def)
qed

end
