(* ===== verification/Metric_Store.thy ===== *)
theory Metric_Store
  imports Labels Expire_Wheel Rb_Tree "HOL-Library.Word"
begin

text \<open>
  The metric store of a namespace: the tree of series (\<open>src/src/metric/metrictree.c\<close>) together
  with the wheel that expires them, and the purge (\<open>expire_purge\<close> of
  \<open>src/src/metric/expiretree.c\<close>).

  A \<open>metric_node\<close> is a record that carries the address the wheel knows it by; the 64 bits of its
  value union are a word, so that a read under another type sees the same bits.  Addition of doubles is
  the argument \<open>dadd\<close> on bit patterns, the wall clock is the argument \<open>wall\<close>.  The window
  lists of the percentile buffers, locks and allocation failure are left out.

  The theory shows that inserting, updating, deleting and purging act on the list of series as one
  expects, keep the tree, the wheel and the links between them consistent, and never dereference NULL.
\<close>

unbundle bit_operations_syntax

section \<open>State\<close>

definition DATATYPE_DOUBLE :: int where "DATATYPE_DOUBLE = 1"
definition DATATYPE_INT :: int where "DATATYPE_INT = 2"
definition DATATYPE_UINT :: int where "DATATYPE_UINT = 3"

record metric_node =
  m_addr :: nat
  m_labels :: chain
  m_type :: int
  m_u :: "64 word"
  m_list_len :: int
  m_enabled :: int
  m_pbuf :: "nat option"

record metric_tree =
  mt_root :: "metric_node rbt"
  mt_count :: int
  mt_plan :: nat
  mt_words :: words
  mt_next :: nat

text \<open>The part of \<open>namespace_struct\<close> the store uses.\<close>

record store =
  s_tree :: metric_tree
  s_wheel :: expire_tree
  s_max_series :: nat
  s_dropped :: "64 word"

section \<open>Values\<close>

text \<open>\<open>isnan (v) || isinf (v)\<close> on the bits of a double: the exponent is all ones.\<close>

definition dbl_special :: "64 word \<Rightarrow> bool" where
  "dbl_special v = (v AND 0x7FF0000000000000 = 0x7FF0000000000000)"

text \<open>The value a fresh node gets; \<open>calloc\<close> leaves 0 under an unknown type.\<close>

definition make_node :: "metric_tree \<Rightarrow> chain \<Rightarrow> int \<Rightarrow> 64 word \<Rightarrow> metric_node \<times> metric_tree" where
  "make_node T labels type val =
     (let (labels', W) = labels_cache_fill labels (mt_words T)
      in (\<lparr>m_addr = mt_next T, m_labels = labels', m_type = type,
            m_u = (if type = DATATYPE_INT \<or> type = DATATYPE_UINT then val
                   else if type = DATATYPE_DOUBLE then (if dbl_special val then 0 else val)
                   else 0),
            m_list_len = 0, m_enabled = 0, m_pbuf = None\<rparr>,
          T\<lparr>mt_words := W, mt_next := Suc (mt_next T)\<rparr>))"

definition set_value :: "int \<Rightarrow> 64 word \<Rightarrow> metric_node \<Rightarrow> metric_node" where
  "set_value type val n =
     (let n' = n\<lparr>m_type := type\<rparr>
      in if type = DATATYPE_INT \<or> type = DATATYPE_UINT then n'\<lparr>m_u := val\<rparr>
         else if type = DATATYPE_DOUBLE then n'\<lparr>m_u := (if dbl_special val then 0 else val)\<rparr>
         else n')"

text \<open>\<open>metric_gset\<close> adds under the given type and leaves the stored type alone.\<close>

definition add_value :: "(64 word \<Rightarrow> 64 word \<Rightarrow> 64 word) \<Rightarrow> int \<Rightarrow> 64 word \<Rightarrow> metric_node \<Rightarrow> metric_node" where
  "add_value dadd type val n =
     (if type = DATATYPE_INT \<or> type = DATATYPE_UINT then n\<lparr>m_u := m_u n + val\<rparr>
      else if type = DATATYPE_DOUBLE \<and> \<not> dbl_special val then n\<lparr>m_u := dadd (m_u n) val\<rparr>
      else n)"

section \<open>Lookup and insertion\<close>

definition metric_find_locked :: "metric_tree \<Rightarrow> chain \<Rightarrow> metric_node option" where
  "metric_find_locked T labels = rb_find (\<lambda>x. labels_cmp (mt_plan T) (m_labels x) labels) (mt_root T)"

text \<open>The result is the address of the new node with the tree and the wheel.\<close>

definition metric_insert_locked ::
    "int \<Rightarrow> metric_tree \<Rightarrow> chain \<Rightarrow> int \<Rightarrow> 64 word \<Rightarrow> expire_tree \<Rightarrow> int \<Rightarrow>
     rb_error + (nat \<times> metric_tree \<times> expire_tree)" where
  "metric_insert_locked wall T labels type val W ttl =
     (let (node, T1) = make_node T labels type val
      in case rb_insert (\<lambda>z. labels_cmp (mt_plan T) labels (m_labels z)) node (mt_root T) of
           Inl err \<Rightarrow> Inl err
         | Inr root \<Rightarrow>
             Inr (m_addr node, T1\<lparr>mt_root := root, mt_count := mt_count T1 + 1\<rparr>,
                  expire_arm_locked wall W (wall + ttl) (m_addr node)))"

definition metric_refresh_expire :: "int \<Rightarrow> expire_tree \<Rightarrow> nat \<Rightarrow> int \<Rightarrow> expire_tree" where
  "metric_refresh_expire wall W m ttl =
     (let new_key = wall + ttl
      in if expiry_of W m = Some new_key then W
         else if ttl \<ge> TTL_NEVER \<and> (case expiry_of W m of None \<Rightarrow> False | Some k \<Rightarrow> k > wall) then W
         else expire_arm_locked wall W new_key m)"

text \<open>A write through a node pointer.\<close>

definition update_node :: "nat \<Rightarrow> (metric_node \<Rightarrow> metric_node) \<Rightarrow> metric_node rbt \<Rightarrow> metric_node rbt" where
  "update_node a f t = map_rbt (\<lambda>n. if m_addr n = a then f n else n) t"

definition metric_set :: "int \<Rightarrow> metric_tree \<Rightarrow> expire_tree \<Rightarrow> nat \<Rightarrow> int \<Rightarrow> 64 word \<Rightarrow> int \<Rightarrow> metric_tree \<times> expire_tree" where
  "metric_set wall T W a type val ttl =
     (T\<lparr>mt_root := update_node a (set_value type val) (mt_root T)\<rparr>, metric_refresh_expire wall W a ttl)"

definition metric_gset ::
    "(64 word \<Rightarrow> 64 word \<Rightarrow> 64 word) \<Rightarrow> int \<Rightarrow> metric_tree \<Rightarrow> expire_tree \<Rightarrow> nat \<Rightarrow> int \<Rightarrow> 64 word \<Rightarrow> int \<Rightarrow>
     metric_tree \<times> expire_tree" where
  "metric_gset dadd wall T W a type val ttl =
     (T\<lparr>mt_root := update_node a (add_value dadd type val) (mt_root T)\<rparr>, metric_refresh_expire wall W a ttl)"

text \<open>
  \<open>metric_upsert\<close>: the address is None when the series cap refuses a new series.
\<close>

definition metric_upsert ::
    "(64 word \<Rightarrow> 64 word \<Rightarrow> 64 word) \<Rightarrow> int \<Rightarrow> store \<Rightarrow> chain \<Rightarrow> int \<Rightarrow> 64 word \<Rightarrow> int \<Rightarrow> bool \<Rightarrow> bool \<Rightarrow>
     rb_error + (nat option \<times> store)" where
  "metric_upsert dadd wall S labels type val ttl add bypass =
     (case metric_find_locked (s_tree S) labels of
        Some mnode \<Rightarrow>
          (let (T, W) = (if add then metric_gset dadd wall (s_tree S) (s_wheel S) (m_addr mnode) type val ttl
                         else metric_set wall (s_tree S) (s_wheel S) (m_addr mnode) type val ttl)
           in Inr (Some (m_addr mnode), S\<lparr>s_tree := T, s_wheel := W\<rparr>))
      | None \<Rightarrow>
          (if \<not> bypass \<and> s_max_series S > 0 \<and> mt_count (s_tree S) \<ge> int (s_max_series S)
           then Inr (None, S\<lparr>s_dropped := s_dropped S + 1\<rparr>)
           else (case metric_insert_locked wall (s_tree S) labels type val (s_wheel S) ttl of
                   Inl err \<Rightarrow> Inl err
                 | Inr (a, T, W) \<Rightarrow> Inr (Some a, S\<lparr>s_tree := T, s_wheel := W\<rparr>))))"

section \<open>Deletion\<close>

text \<open>What the deletion copies from the node it unlinks into the node that matched.\<close>

definition move_content :: "metric_node \<Rightarrow> metric_node \<Rightarrow> metric_node" where
  "move_content q f = f\<lparr>m_labels := m_labels q, m_type := m_type q, m_list_len := m_list_len q,
                        m_enabled := m_enabled q, m_pbuf := m_pbuf q, m_u := m_u q\<rparr>"

text \<open>The child that replaces the unlinked node: \<open>q->child[q->child[LEFT] == NULL]\<close>.\<close>

definition splice :: "'a rbt \<Rightarrow> 'a rbt" where
  "splice q = (if child False q = Leaf then child True q else child False q)"

text \<open>\<open>metric_delete_inner\<close>: None is a dereference of NULL.\<close>

definition metric_delete_inner ::
    "int \<Rightarrow> metric_tree \<Rightarrow> chain \<Rightarrow> expire_tree \<Rightarrow> (bool \<times> metric_tree \<times> expire_tree) option" where
  "metric_delete_inner wall T labels W =
     (if mt_root T = Leaf then Some (False, T, W)
      else (case del_loop (\<lambda>q. labels_cmp (mt_plan T) labels (m_labels q))
                   (\<lambda>q. labels_cmp (mt_plan T) (m_labels q) labels) [] (mt_root T) None of
              Some (fs, Node k l q r, f) \<Rightarrow>
                (case f of
                   None \<Rightarrow> Some (False, T\<lparr>mt_root := paint Black (plug fs (Node k l q r))\<rparr>, W)
                 | Some f \<Rightarrow>
                     (let rest = plug fs (splice (Node k l q r))
                      in if m_addr f = m_addr q
                         then Some (True,
                                T\<lparr>mt_root := paint Black rest, mt_count := mt_count T - 1,
                                  mt_words := labels_free (m_labels q) (mt_words T)\<rparr>,
                                expire_forget_locked W (m_addr q))
                         else (let q_key = (case expiry_of W (m_addr q) of None \<Rightarrow> 0 | Some k \<Rightarrow> k)
                               in Some (True,
                                    T\<lparr>mt_root := paint Black (update_node (m_addr f) (move_content q) rest),
                                      mt_count := mt_count T - 1,
                                      mt_words := labels_free (m_labels f) (mt_words T)\<rparr>,
                                    expire_arm_locked wall (expire_forget_locked W (m_addr q)) q_key (m_addr f)))))
            | _ \<Rightarrow> None))"

definition metric_delete :: "int \<Rightarrow> store \<Rightarrow> chain \<Rightarrow> (bool \<times> store) option" where
  "metric_delete wall S labels =
     map_option (\<lambda>(ok, T, W). (ok, S\<lparr>s_tree := T, s_wheel := W\<rparr>))
       (metric_delete_inner wall (s_tree S) labels (s_wheel S))"

section \<open>Purging\<close>

text \<open>The labels behind a metric pointer; None when the node is not in the tree.\<close>

definition labels_at :: "metric_tree \<Rightarrow> nat \<Rightarrow> chain option" where
  "labels_at T m = map_option m_labels (find (\<lambda>n. m_addr n = m) (inorder (mt_root T)))"

text \<open>
  One round of the purge on the head \<open>a\<close> of the due list.  The flag of the result says that the
  entry was an orphan.  A metric pointer to a node outside the tree is the error None.
\<close>

definition purge_round ::
    "int \<Rightarrow> int \<Rightarrow> bool \<Rightarrow> metric_tree \<Rightarrow> expire_tree \<Rightarrow> nat \<Rightarrow> (bool \<times> metric_tree \<times> expire_tree) option" where
  "purge_round wall key drain T W a =
     (case et_heap W a of
        None \<Rightarrow> None
      | Some n \<Rightarrow>
          (if \<not> drain \<and> en_key n > key
           then Some (False, T, expire_schedule wall (expire_unlink W a) a)
           else (case labels_at T (en_metric n) of
                   None \<Rightarrow> None
                 | Some labels \<Rightarrow>
                     (case metric_delete_inner wall T labels W of
                        None \<Rightarrow> None
                      | Some (True, T', W') \<Rightarrow> Some (False, T', W')
                      | Some (False, T', W') \<Rightarrow>
                          Some (True, T',
                            if et_mexp W' (en_metric n) \<noteq> None then expire_forget_locked W' (en_metric n)
                            else if et_due W' \<noteq> [] \<and> hd (et_due W') = a
                            then (let W2 = expire_unlink W' a
                                  in W2\<lparr>et_heap := (et_heap W2)(a := None),
                                        et_count := (if et_count W2 > 0 then et_count W2 - 1 else et_count W2)\<rparr>)
                            else W')))))"

text \<open>The inner loop; the first argument is the guard.  The result has the guard left and the orphans.\<close>

fun purge_loop ::
    "nat \<Rightarrow> int \<Rightarrow> int \<Rightarrow> bool \<Rightarrow> metric_tree \<Rightarrow> expire_tree \<Rightarrow> nat \<Rightarrow>
     (nat \<times> nat \<times> metric_tree \<times> expire_tree) option" where
  "purge_loop guard wall key drain T W orphans =
     (case et_due W of
        [] \<Rightarrow> Some (guard, orphans, T, W)
      | a # _ \<Rightarrow>
          (case guard of
             0 \<Rightarrow> Some (0, orphans, T, W)
           | Suc guard' \<Rightarrow>
               (case purge_round wall key drain T W a of
                  None \<Rightarrow> None
                | Some (orphan, T', W') \<Rightarrow>
                    purge_loop guard' wall key drain T' W' (if orphan then Suc orphans else orphans))))"

text \<open>
  The outer loop runs once for a timed purge and again while series are left for a full one.  The
  first argument is fuel for the outer loop: when no series is armed it would not end in the code.
\<close>

fun purge_passes ::
    "nat \<Rightarrow> nat \<Rightarrow> int \<Rightarrow> int \<Rightarrow> bool \<Rightarrow> metric_tree \<Rightarrow> expire_tree \<Rightarrow> nat \<Rightarrow>
     (nat \<times> metric_tree \<times> expire_tree) option" where
  "purge_passes 0 guard wall key drain T W orphans = None"
| "purge_passes (Suc fuel) guard wall key drain T W orphans =
     (case purge_loop guard wall key drain T
             (if drain then expire_drain_all W else expire_wheel_advance wall W key) orphans of
        None \<Rightarrow> None
      | Some (guard', orphans', T', W') \<Rightarrow>
          (if drain \<and> mt_count T' > 0 \<and> guard' > 0
           then purge_passes fuel guard' wall key drain T' W' orphans'
           else Some (orphans', T', W')))"

definition INT64_MAX :: int where "INT64_MAX = 9223372036854775807"

definition expire_purge :: "int \<Rightarrow> int \<Rightarrow> store \<Rightarrow> (nat \<times> store) option" where
  "expire_purge wall key S =
     (let guard = nat (mt_count (s_tree S) + et_count (s_wheel S) + 1)
      in case purge_passes (Suc guard) guard wall key (key = INT64_MAX) (s_tree S) (s_wheel S) 0 of
           None \<Rightarrow> None
         | Some (orphans, T, W) \<Rightarrow> Some (orphans, S\<lparr>s_tree := T, s_wheel := W\<rparr>))"

section \<open>Consistency\<close>

declare purge_loop.simps [simp del]

definition label_sorted :: "nat \<Rightarrow> metric_node list \<Rightarrow> bool" where
  "label_sorted plan ns \<longleftrightarrow> sorted_wrt (\<lambda>y z. labels_cmp plan (m_labels y) (m_labels z) < 0) ns"

definition tree_ok :: "metric_tree \<Rightarrow> bool" where
  "tree_ok T \<longleftrightarrow> (\<exists>n. rb (mt_root T) n) \<and> \<not> is_red (mt_root T) \<and>
     label_sorted (mt_plan T) (inorder (mt_root T)) \<and>
     distinct (map m_addr (inorder (mt_root T))) \<and>
     (\<forall>n \<in> set (inorder (mt_root T)). m_addr n < mt_next T) \<and>
     mt_count T = int (length (inorder (mt_root T)))"

definition store_ok :: "metric_tree \<Rightarrow> expire_tree \<Rightarrow> bool" where
  "store_ok T W \<longleftrightarrow> tree_ok T \<and> wheel_inv W \<and> dom (expiry_of W) = m_addr ` set (inorder (mt_root T))"

text \<open>The series of the store in label order, with their expiry and without the addresses.\<close>

definition series :: "metric_tree \<Rightarrow> expire_tree \<Rightarrow> (metric_node \<times> int option) list" where
  "series T W = map (\<lambda>n. (n\<lparr>m_addr := 0\<rparr>, expiry_of W (m_addr n))) (inorder (mt_root T))"

lemma strict_labels:
  assumes "label_sorted plan ns"
  shows "strict_at (\<lambda>z. labels_cmp plan lab (m_labels z)) ns"
proof -
  have "labels_cmp plan lab (m_labels y) > 0"
    if "labels_cmp plan (m_labels y) (m_labels z) < 0" "labels_cmp plan lab (m_labels z) \<ge> 0" for y z
    using that labels.cmp_less_le_trans [of plan "m_labels y" "m_labels z" lab]
      labels.cmp_le_iff [of plan lab "m_labels z"] labels.cmp_gt_iff [of plan lab "m_labels y"] by blast
  then show ?thesis
    using assms unfolding strict_at_def label_sorted_def by (elim sorted_wrt_mono_rel [rotated]) blast
qed

lemma sgn_labels: "sgn (labels_cmp plan (m_labels z) lab) = - sgn (labels_cmp plan lab (m_labels z))"
  by (rule labels.cmp_swap)

lemma zero_labels: "labels_cmp plan (m_labels z) lab = 0 \<longleftrightarrow> labels_cmp plan lab (m_labels z) = 0"
  by (rule labels.cmp_eq_sym)

lemma find_labels:
  assumes "label_sorted (mt_plan T) (inorder (mt_root T))"
  shows "metric_find_locked T lab = Some z \<longleftrightarrow>
     z \<in> set (inorder (mt_root T)) \<and> labels_cmp (mt_plan T) lab (m_labels z) = 0"
proof
  assume "metric_find_locked T lab = Some z"
  then show "z \<in> set (inorder (mt_root T)) \<and> labels_cmp (mt_plan T) lab (m_labels z) = 0"
    using rb_find_sound [of _ "mt_root T" z] zero_labels unfolding metric_find_locked_def by blast
next
  assume "z \<in> set (inorder (mt_root T)) \<and> labels_cmp (mt_plan T) lab (m_labels z) = 0"
  then show "metric_find_locked T lab = Some z" unfolding metric_find_locked_def
    by (intro rb_find_complete [OF strict_labels [OF assms, of lab] sgn_labels]) auto
qed

lemma label_sorted_equal:
  assumes "label_sorted plan ns" "y \<in> set ns" "z \<in> set ns" "labels_cmp plan (m_labels y) (m_labels z) = 0"
  shows "y = z"
  using assms unfolding label_sorted_def
proof (induction ns)
  case (Cons n ns)
  then show ?case
    using labels.cmp_eq_sym [of plan "m_labels y" "m_labels z"] by fastforce
qed simp

lemma label_sorted_filter: "label_sorted plan ns \<Longrightarrow> label_sorted plan (filter P ns)"
  by (simp add: label_sorted_def sorted_wrt_filter)

lemma cache_fill_keys: "map l_key (fst (labels_cache_fill ls W)) = map l_key ls"
  by (induction ls arbitrary: W) (auto simp: Let_def split_beta split: option.split)

lemma labels_cmp_keys: "map l_key a = map l_key a' \<Longrightarrow> labels_cmp n a b = labels_cmp n a' b"
proof (induction n arbitrary: a a' b)
  case (Suc n)
  have "head_key a = head_key a'" "map l_key (tl a) = map l_key (tl a')" "a = [] \<longleftrightarrow> a' = []"
    using Suc.prems by (cases a; cases a'; auto)+
  then show ?case
    using Suc.IH [of "tl a" "tl a'" "tl b"] by (simp add: labels_cmp.simps(2) split: option.split)
qed simp

lemma labels_cmp_keys2: "map l_key b = map l_key b' \<Longrightarrow> labels_cmp n a b = labels_cmp n a b'"
  using labels_cmp_keys [of b b' n a] labels_cmp_swap [of n a b] labels_cmp_swap [of n a b'] by simp

section \<open>Insertion\<close>

lemma split_filters:
  "split_at c xs \<Longrightarrow> filter (\<lambda>z. c z > 0) xs @ filter (\<lambda>z. \<not> c z > 0) xs = xs"
proof (induction xs)
  case (Cons x xs)
  then have "filter (\<lambda>z. c z > 0) xs = []" if "\<not> c x > 0"
    using that by (auto simp: split_at_def filter_empty_conv)
  then show ?case using Cons by (auto simp: split_at_def)
qed simp

lemma label_sorted_insert:
  assumes s: "label_sorted plan xs" and k: "map l_key (m_labels x) = map l_key lab"
    and new: "\<forall>z \<in> set xs. labels_cmp plan lab (m_labels z) \<noteq> 0"
  shows "label_sorted plan (filter (\<lambda>z. labels_cmp plan lab (m_labels z) > 0) xs @ x #
     filter (\<lambda>z. \<not> labels_cmp plan lab (m_labels z) > 0) xs)"
proof -
  let ?c = "\<lambda>z. labels_cmp plan lab (m_labels z)"
  have app: "label_sorted plan (filter (\<lambda>z. ?c z > 0) xs @ filter (\<lambda>z. \<not> ?c z > 0) xs)"
    using split_filters [OF strict_split_at [OF strict_labels [OF s]]] s by simp
  have gt: "labels_cmp plan (m_labels z) (m_labels x) < 0" if "?c z > 0" for z
    using that labels.cmp_gt_iff [of plan lab "m_labels z"] labels_cmp_keys2 [OF k] by simp
  have lt: "labels_cmp plan (m_labels x) (m_labels z) < 0" if "z \<in> set xs" "\<not> ?c z > 0" for z
    using that new labels_cmp_keys [OF k] by fastforce
  show ?thesis
    using app gt lt unfolding label_sorted_def by (auto simp: sorted_wrt_append)
qed

lemma make_node_simps:
  "m_addr (fst (make_node T lab type val)) = mt_next T"
  "map l_key (m_labels (fst (make_node T lab type val))) = map l_key lab"
  "mt_root (snd (make_node T lab type val)) = mt_root T"
  "mt_count (snd (make_node T lab type val)) = mt_count T"
  "mt_plan (snd (make_node T lab type val)) = mt_plan T"
  "mt_next (snd (make_node T lab type val)) = Suc (mt_next T)"
  by (simp_all add: make_node_def split_beta cache_fill_keys Let_def)

lemma expiry_fresh:
  "store_ok T W \<Longrightarrow> expiry_of W (mt_next T) = None"
  unfolding store_ok_def tree_ok_def by (force simp: dom_def)

lemma insert_locked_ok:
  fixes type :: int and val :: "64 word"
  assumes ok: "store_ok T W" and new: "metric_find_locked T lab = None"
  defines "c \<equiv> \<lambda>z. labels_cmp (mt_plan T) lab (m_labels z)"
  defines "node \<equiv> fst (make_node T lab type val)"
  shows "\<exists>T'. metric_insert_locked wall T lab type val W ttl =
       Inr (mt_next T, T', expire_arm_locked wall W (wall + ttl) (mt_next T)) \<and>
     store_ok T' (expire_arm_locked wall W (wall + ttl) (mt_next T)) \<and> mt_plan T' = mt_plan T \<and>
     inorder (mt_root T') = filter (\<lambda>z. c z > 0) (inorder (mt_root T)) @ node #
       filter (\<lambda>z. \<not> c z > 0) (inorder (mt_root T))"
proof -
  let ?xs = "inorder (mt_root T)" and ?W = "expire_arm_locked wall W (wall + ttl) (mt_next T)"
  have t: "tree_ok T" "wheel_inv W" "dom (expiry_of W) = m_addr ` set ?xs" using ok by (auto simp: store_ok_def)
  obtain n where v: "rb (mt_root T) n" "\<not> is_red (mt_root T)" "label_sorted (mt_plan T) ?xs"
    using t(1) by (auto simp: tree_ok_def)
  have sp: "split_at c ?xs" unfolding c_def by (rule strict_split_at [OF strict_labels [OF v(3)]])
  obtain root m where r: "rb_insert c node (mt_root T) = Inr root" "\<not> is_red root" "rb root m"
      "inorder root = filter (\<lambda>z. c z > 0) ?xs @ node # filter (\<lambda>z. \<not> c z > 0) ?xs"
    using rb_insert_ok [OF v(1,2) sp, of node] by blast
  define T' where "T' = (snd (make_node T lab type val))\<lparr>mt_root := root,
      mt_count := mt_count (snd (make_node T lab type val)) + 1\<rparr>"
  have T': "mt_root T' = root" "mt_count T' = mt_count T + 1" "mt_plan T' = mt_plan T" "mt_next T' = Suc (mt_next T)"
    by (simp_all add: T'_def make_node_simps)
  have ins: "metric_insert_locked wall T lab type val W ttl = Inr (mt_next T, T', ?W)"
    using r(1) by (simp add: metric_insert_locked_def split_beta c_def node_def T'_def make_node_simps Let_def)
  have sets: "set (inorder root) = insert node (set ?xs)" using r(4) by auto
  have len: "length (inorder root) = Suc (length ?xs)"
    using arg_cong [OF split_filters [OF sp], of length] r(4) by simp
  have addr: "m_addr node = mt_next T" by (simp add: node_def make_node_simps)
  have below: "\<forall>z \<in> set ?xs. m_addr z < mt_next T" using t(1) by (simp add: tree_ok_def)
  have "distinct (map m_addr (filter (\<lambda>z. c z > 0) ?xs @ filter (\<lambda>z. \<not> c z > 0) ?xs))"
    unfolding split_filters [OF sp] using t(1) by (simp add: tree_ok_def)
  then have d: "distinct (map m_addr (inorder root))" using r(4) below addr by auto
  have "\<forall>z \<in> set ?xs. c z \<noteq> 0" using find_labels [OF v(3), of lab] new by (force simp: c_def)
  then have s: "label_sorted (mt_plan T) (inorder root)"
    unfolding r(4) c_def by (intro label_sorted_insert [OF v(3)]) (simp_all add: node_def make_node_simps)
  have "tree_ok T'"
    unfolding tree_ok_def T' using r(2,3) s d len below addr t(1) by (auto simp: sets tree_ok_def)
  moreover have "dom (expiry_of ?W) = m_addr ` set (inorder root)"
    using wheel.expiry_arm [OF t(2)] t(3) by (simp add: sets addr)
  ultimately have "store_ok T' ?W" using wheel.inv_arm [OF t(2)] T'(1) by (simp add: store_ok_def)
  then show ?thesis using ins r(4) T' by blast
qed

text \<open>A write through a node pointer that keeps labels and address.\<close>

lemma inorder_map [simp]: "inorder (map_rbt f t) = map f (inorder t)"
  by (induction t) auto

lemma is_red_map [simp]: "is_red (map_rbt f t) = is_red t"
  by (cases t) auto

lemma rb_map [simp]: "rb (map_rbt f t) n = rb t n"
proof (induction t arbitrary: n)
  case (Node k l x r)
  then show ?case by (cases k; cases n) auto
qed auto

lemma inorder_update:
  "inorder (update_node a f t) = map (\<lambda>n. if m_addr n = a then f n else n) (inorder t)"
  by (simp add: update_node_def)

lemma map_ok:
  assumes "store_ok T W" and g: "\<And>n. m_addr (g n) = m_addr n" "\<And>n. m_labels (g n) = m_labels n"
    and W: "wheel_inv W'" "dom (expiry_of W') = dom (expiry_of W)"
  shows "store_ok (T\<lparr>mt_root := map_rbt g (mt_root T)\<rparr>) W'"
proof -
  have "label_sorted p (map g ns) = label_sorted p ns" for p ns
    by (simp add: label_sorted_def sorted_wrt_map g)
  then show ?thesis
    using assms(1) W unfolding store_ok_def tree_ok_def by (auto simp: image_image g comp_def)
qed

lemma update_ok:
  assumes "store_ok T W" "\<And>n. m_addr (f n) = m_addr n" "\<And>n. m_labels (f n) = m_labels n"
    "wheel_inv W'" "dom (expiry_of W') = dom (expiry_of W)"
  shows "store_ok (T\<lparr>mt_root := update_node a f (mt_root T)\<rparr>) W'"
  unfolding update_node_def by (rule map_ok [OF assms(1)]) (use assms in auto)

lemma refresh_ok:
  assumes "wheel_inv W" "expiry_of W m = Some k0"
  shows "wheel_inv (metric_refresh_expire wall W m ttl)"
    "expiry_of (metric_refresh_expire wall W m ttl) =
       (expiry_of W)(m \<mapsto> if ttl \<ge> TTL_NEVER \<and> k0 > wall then k0 else wall + ttl)"
proof -
  show "wheel_inv (metric_refresh_expire wall W m ttl)"
    using wheel.inv_arm [OF assms(1)] assms(1) by (auto simp: metric_refresh_expire_def Let_def)
  have "expiry_of W = (expiry_of W)(m \<mapsto> k0)" using assms(2) by auto
  then show "expiry_of (metric_refresh_expire wall W m ttl) =
       (expiry_of W)(m \<mapsto> if ttl \<ge> TTL_NEVER \<and> k0 > wall then k0 else wall + ttl)"
    using assms(2) wheel.expiry_arm [OF assms(1), of wall "wall + ttl" m]
    by (cases "k0 = wall + ttl"; cases "ttl \<ge> TTL_NEVER"; cases "k0 > wall")
      (simp_all add: metric_refresh_expire_def Let_def)
qed

section \<open>Deletion\<close>

lemma move_content_simps [simp]:
  "m_addr (move_content q f) = m_addr f" "m_labels (move_content q f) = m_labels q"
  "(move_content q f)\<lparr>m_addr := a\<rparr> = q\<lparr>m_addr := a\<rparr>"
  by (simp_all add: move_content_def)

lemma update_one:
  assumes "distinct (map m_addr (L @ y # R))"
  shows "map (\<lambda>n. if m_addr n = m_addr y then f n else n) (L @ y # R) = L @ f y # R"
proof -
  have "map (\<lambda>n. if m_addr n = m_addr y then f n else n) A = A" if "m_addr y \<notin> m_addr ` set A" for A
    using that by (induction A) auto
  then show ?thesis using assms by auto
qed

lemma expiry_other:
  assumes "\<And>n. n \<in> set A \<Longrightarrow> e' (m_addr n) = e (m_addr n)"
  shows "map (\<lambda>n. (n\<lparr>m_addr := 0\<rparr>, e' (m_addr n))) A = map (\<lambda>n. (n\<lparr>m_addr := 0\<rparr>, e (m_addr n))) A"
  using assms by simp

lemma tree_okI:
  "rb (mt_root T) m \<Longrightarrow> \<not> is_red (mt_root T) \<Longrightarrow> inorder (mt_root T) = ns \<Longrightarrow> label_sorted (mt_plan T) ns \<Longrightarrow>
   distinct (map m_addr ns) \<Longrightarrow> \<forall>n \<in> set ns. m_addr n < mt_next T \<Longrightarrow> mt_count T = int (length ns) \<Longrightarrow> tree_ok T"
  unfolding tree_ok_def by blast

text \<open>The two ways a deletion ends, seen on the list of nodes.\<close>

lemma drop_node_ok:
  fixes V :: words
  assumes ok: "store_ok T W" and xs: "inorder (mt_root T) = L @ y # R"
    and root: "inorder root = L @ R" "rb root m" "\<not> is_red root"
  defines "T' \<equiv> T\<lparr>mt_root := root, mt_count := mt_count T - 1, mt_words := V\<rparr>"
    and "W' \<equiv> expire_forget_locked W (m_addr y)"
  shows "store_ok T' W'"
    "series T' W' = map (\<lambda>n. (n\<lparr>m_addr := 0\<rparr>, expiry_of W (m_addr n))) (L @ R)"
proof -
  have t: "tree_ok T" "wheel_inv W" "dom (expiry_of W) = m_addr ` set (L @ y # R)"
    using ok by (auto simp: store_ok_def xs)
  have d: "distinct (map m_addr (L @ y # R))" and s: "label_sorted (mt_plan T) (L @ y # R)"
    and b: "\<forall>n \<in> set (L @ y # R). m_addr n < mt_next T" and l: "mt_count T = int (length (L @ y # R))"
    using t(1) by (simp_all add: tree_ok_def xs)
  have e: "expiry_of W' = (expiry_of W)(m_addr y := None)" by (simp add: W'_def wheel.expiry_forget [OF t(2)])
  have "label_sorted (mt_plan T) (L @ R)" using s by (simp add: label_sorted_def sorted_wrt_append)
  then have "tree_ok T'"
    by (intro tree_okI [where m = m and ns = "L @ R"]) (use root d b l in \<open>simp_all add: T'_def\<close>)
  moreover have notin: "m_addr y \<notin> m_addr ` set (L @ R)" using d by auto
  have "dom (expiry_of W') = insert (m_addr y) (m_addr ` set (L @ R)) - {m_addr y}" using t(3) by (simp add: e)
  then have "dom (expiry_of W') = m_addr ` set (L @ R)" using notin Diff_insert_absorb by metis
  ultimately show "store_ok T' W'"
    using wheel.inv_forget [OF t(2)] by (simp add: store_ok_def W'_def T'_def root)
  show "series T' W' = map (\<lambda>n. (n\<lparr>m_addr := 0\<rparr>, expiry_of W (m_addr n))) (L @ R)"
  proof -
    have "series T' W' = map (\<lambda>n. (n\<lparr>m_addr := 0\<rparr>, expiry_of W' (m_addr n))) (L @ R)"
      by (simp add: series_def T'_def root)
    also have "\<dots> = map (\<lambda>n. (n\<lparr>m_addr := 0\<rparr>, expiry_of W (m_addr n))) (L @ R)"
    proof (rule expiry_other)
      fix n assume "n \<in> set (L @ R)"
      then have "m_addr n \<noteq> m_addr y" using notin by (metis imageI)
      then show "expiry_of W' (m_addr n) = expiry_of W (m_addr n)" by (simp add: e)
    qed
    finally show ?thesis .
  qed
qed

lemma move_node_ok:
  fixes V :: words and wall :: int
  assumes ok: "store_ok T W" and xs: "inorder (mt_root T) = L @ x # y # R"
    and root: "inorder root = L @ y # R" "rb root m" "\<not> is_red root"
    and k: "expiry_of W (m_addr x) = Some k"
  defines "T' \<equiv> T\<lparr>mt_root := update_node (m_addr y) (move_content x) root, mt_count := mt_count T - 1, mt_words := V\<rparr>"
    and "W' \<equiv> expire_arm_locked wall (expire_forget_locked W (m_addr x)) k (m_addr y)"
  shows "store_ok T' W'"
    "series T' W' = map (\<lambda>n. (n\<lparr>m_addr := 0\<rparr>, expiry_of W (m_addr n))) (L @ x # R)"
proof -
  have t: "tree_ok T" "wheel_inv W" "dom (expiry_of W) = m_addr ` set (L @ x # y # R)"
    using ok by (auto simp: store_ok_def xs)
  have d: "distinct (map m_addr (L @ x # y # R))" and s: "label_sorted (mt_plan T) (L @ x # y # R)"
    and b: "\<forall>n \<in> set (L @ x # y # R). m_addr n < mt_next T" and l: "mt_count T = int (length (L @ x # y # R))"
    using t(1) by (simp_all add: tree_ok_def xs)
  have ne: "m_addr y \<noteq> m_addr x" using d by auto
  have e: "expiry_of W' = (expiry_of W)(m_addr x := None, m_addr y \<mapsto> k)"
    unfolding W'_def by (rule wheel.rehome(1) [OF t(2) ne])
  have dy: "distinct (map m_addr (L @ y # R))" using d by auto
  have notin: "m_addr x \<notin> insert (m_addr y) (m_addr ` set (L @ R))" "m_addr y \<notin> m_addr ` set (L @ R)" using d by auto
  have r: "inorder (mt_root T') = L @ move_content x y # R"
    using update_one [OF dy] by (simp add: T'_def inorder_update root)
  have "label_sorted (mt_plan T) (L @ move_content x y # R)"
    using s by (simp add: label_sorted_def sorted_wrt_append)
  moreover have "rb (mt_root T') m" "\<not> is_red (mt_root T')" using root by (simp_all add: T'_def update_node_def)
  ultimately have "tree_ok T'"
    by (intro tree_okI [OF _ _ r]) (use d b l in \<open>simp_all add: T'_def\<close>)
  moreover have "dom (expiry_of W') = insert (m_addr y) (insert (m_addr x) (insert (m_addr y) (m_addr ` set (L @ R))) - {m_addr x})"
    using t(3) by (simp add: e insert_commute)
  then have "dom (expiry_of W') = insert (m_addr y) (m_addr ` set (L @ R))"
    using notin Diff_insert_absorb [of "m_addr x" "insert (m_addr y) (m_addr ` set (L @ R))"] by simp
  then have "dom (expiry_of W') = m_addr ` set (L @ move_content x y # R)" by simp
  ultimately show "store_ok T' W'"
    using wheel.rehome(2) [OF t(2) ne] by (simp add: store_ok_def W'_def r)
  have keep: "map (\<lambda>n. (n\<lparr>m_addr := 0\<rparr>, expiry_of W' (m_addr n))) A =
      map (\<lambda>n. (n\<lparr>m_addr := 0\<rparr>, expiry_of W (m_addr n))) A" if "set A \<subseteq> set (L @ R)" for A
  proof (rule expiry_other)
    fix n assume "n \<in> set A"
    then have "m_addr n \<noteq> m_addr x" "m_addr n \<noteq> m_addr y" using that notin by (metis imageI insertCI subsetD)+
    then show "expiry_of W' (m_addr n) = expiry_of W (m_addr n)" by (simp add: e)
  qed
  have "expiry_of W' (m_addr y) = expiry_of W (m_addr x)" by (simp add: e k)
  then show "series T' W' = map (\<lambda>n. (n\<lparr>m_addr := 0\<rparr>, expiry_of W (m_addr n))) (L @ x # R)"
    unfolding series_def r using keep [of L] keep [of R] by simp
qed

lemma delete_inner_ok:
  assumes ok: "store_ok T W" and y: "y \<in> set (inorder (mt_root T))" "labels_cmp (mt_plan T) lab (m_labels y) = 0"
  shows "\<exists>T' W'. metric_delete_inner wall T lab W = Some (True, T', W') \<and> store_ok T' W' \<and> mt_plan T' = mt_plan T \<and>
     series T' W' = filter (\<lambda>(n, _). labels_cmp (mt_plan T) lab (m_labels n) \<noteq> 0) (series T W) \<and>
     length (inorder (mt_root T)) = Suc (length (inorder (mt_root T'))) \<and>
     (W' = expire_forget_locked W (m_addr y) \<or>
      (\<exists>a k. a \<noteq> m_addr y \<and> expiry_of W a = Some k \<and>
         W' = expire_arm_locked wall (expire_forget_locked W a) k (m_addr y)))"
proof -
  let ?c = "\<lambda>z. labels_cmp (mt_plan T) lab (m_labels z)" and ?e = "\<lambda>z. labels_cmp (mt_plan T) (m_labels z) lab"
  let ?xs = "inorder (mt_root T)"
  obtain n where v: "rb (mt_root T) n" "\<not> is_red (mt_root T)" "label_sorted (mt_plan T) ?xs"
    and d: "distinct (map m_addr ?xs)"
    using ok by (auto simp: store_ok_def tree_ok_def)
  have w: "dom (expiry_of W) = m_addr ` set ?xs" using ok by (simp add: store_ok_def)
  have ne: "mt_root T \<noteq> Leaf" using y by auto
  note st = strict_labels [OF v(3), of lab]
  have "valid [] (mt_root T)" "found ?c (lefts [] @ rights []) None" "bounded ?c []"
    using v by (auto simp: valid_def found_def bounded_def)
  then have "\<exists>fs' k x f'. del_loop ?c ?e [] (mt_root T) None = Some (fs', Node k Leaf x Leaf, f') \<and>
      (\<exists>m. rb (plug fs' Leaf) m) \<and> (\<exists>m. rb (plug fs' (Node k Leaf x Leaf)) m) \<and>
      lefts fs' @ x # rights fs' = ?xs \<and> bounded ?c fs' \<and> found ?c ?xs f'"
    by (intro del_loop_ok) (use ne st zero_labels in simp_all)
  then obtain fs k x f where D: "del_loop ?c ?e [] (mt_root T) None = Some (fs, Node k Leaf x Leaf, f)"
      "\<exists>m. rb (plug fs Leaf) m" "lefts fs @ x # rights fs = ?xs" "bounded ?c fs" "found ?c ?xs f"
    by blast
  have f: "f = Some y" using foundD(1) [OF D(5) y] .
  obtain m where m: "rb (paint Black (plug fs Leaf)) m" using D(2) rb_paint_black by blast
  have io: "inorder (paint Black (plug fs Leaf)) = lefts fs @ rights fs" "\<not> is_red (paint Black (plug fs Leaf))"
    by (simp_all add: inorder_plug)
  have ser: "filter (\<lambda>(n, _). labels_cmp (mt_plan T) lab (m_labels n) \<noteq> 0) (series T W) =
      map (\<lambda>n. (n\<lparr>m_addr := 0\<rparr>, expiry_of W (m_addr n))) (filter (\<lambda>z. ?c z \<noteq> 0) ?xs)"
    unfolding series_def filter_map comp_def by simp
  have paint_update: "paint Black (update_node a g t) = update_node a g (paint Black t)" for a g t
    by (cases t) (simp_all add: update_node_def)
  from del_content [OF D(3,4) st D(5) [unfolded f]] show ?thesis
  proof
    assume c: "x = y \<and> lefts fs @ rights fs = filter (\<lambda>z. ?c z \<noteq> 0) ?xs"
    let ?T = "T\<lparr>mt_root := paint Black (plug fs Leaf), mt_count := mt_count T - 1,
        mt_words := labels_free (m_labels y) (mt_words T)\<rparr>" and ?W = "expire_forget_locked W (m_addr y)"
    have xs: "?xs = lefts fs @ y # rights fs" using c D(3) by simp
    have "metric_delete_inner wall T lab W = Some (True, ?T, ?W)"
      using D(1) f ne c by (simp add: metric_delete_inner_def splice_def Let_def)
    moreover note drop_node_ok [OF ok xs io(1) m io(2), where V = "labels_free (m_labels y) (mt_words T)"]
    moreover have "length ?xs = Suc (length (inorder (mt_root ?T)))" by (simp add: xs inorder_plug)
    moreover have "mt_plan ?T = mt_plan T" by simp
    ultimately show ?thesis unfolding ser using c by (intro exI [of _ ?T] exI [of _ ?W]) simp
  next
    assume "?c x > 0 \<and> (\<exists>R. rights fs = y # R \<and> lefts fs @ x # R = filter (\<lambda>z. ?c z \<noteq> 0) ?xs)"
    then obtain R where R: "rights fs = y # R" "lefts fs @ x # R = filter (\<lambda>z. ?c z \<noteq> 0) ?xs" by blast
    have xs: "?xs = lefts fs @ x # y # R" using D(3) R(1) by simp
    have nexy: "m_addr y \<noteq> m_addr x" using d unfolding xs by auto
    obtain q where q: "expiry_of W (m_addr x) = Some q" using w xs by (auto simp: dom_def)
    let ?W = "expire_arm_locked wall (expire_forget_locked W (m_addr x)) q (m_addr y)"
    let ?T = "T\<lparr>mt_root := update_node (m_addr y) (move_content x) (paint Black (plug fs Leaf)),
        mt_count := mt_count T - 1, mt_words := labels_free (m_labels y) (mt_words T)\<rparr>"
    have "metric_delete_inner wall T lab W = Some (True, ?T, ?W)"
      using D(1) f ne nexy q by (simp add: metric_delete_inner_def splice_def Let_def paint_update)
    moreover note move_node_ok [OF ok xs io(1) [unfolded R(1)] m io(2) q, where V = "labels_free (m_labels y) (mt_words T)" and wall = wall]
    moreover have "length ?xs = Suc (length (inorder (mt_root ?T)))"
      by (simp add: xs inorder_update inorder_plug R(1))
    moreover have "mt_plan ?T = mt_plan T" by simp
    moreover have "\<exists>a k. a \<noteq> m_addr y \<and> expiry_of W a = Some k \<and>
         ?W = expire_arm_locked wall (expire_forget_locked W a) k (m_addr y)" using q nexy [symmetric] by blast
    ultimately show ?thesis unfolding ser R(2) [symmetric] by blast
  qed
qed

lemma delete_miss_ok:
  assumes ok: "store_ok T W" and new: "metric_find_locked T lab = None"
  shows "\<exists>T'. metric_delete_inner wall T lab W = Some (False, T', W) \<and> store_ok T' W \<and> series T' W = series T W"
proof (cases "mt_root T = Leaf")
  case True
  then show ?thesis using ok by (simp add: metric_delete_inner_def)
next
  case False
  let ?c = "\<lambda>z. labels_cmp (mt_plan T) lab (m_labels z)" and ?e = "\<lambda>z. labels_cmp (mt_plan T) (m_labels z) lab"
  let ?xs = "inorder (mt_root T)"
  obtain n where v: "rb (mt_root T) n" "\<not> is_red (mt_root T)" "label_sorted (mt_plan T) ?xs"
    using ok by (auto simp: store_ok_def tree_ok_def)
  note st = strict_labels [OF v(3), of lab]
  have "valid [] (mt_root T)" "found ?c (lefts [] @ rights []) None" "bounded ?c []"
    using v by (auto simp: valid_def found_def bounded_def)
  then have "\<exists>fs' k x f'. del_loop ?c ?e [] (mt_root T) None = Some (fs', Node k Leaf x Leaf, f') \<and>
      (\<exists>m. rb (plug fs' Leaf) m) \<and> (\<exists>m. rb (plug fs' (Node k Leaf x Leaf)) m) \<and>
      lefts fs' @ x # rights fs' = ?xs \<and> bounded ?c fs' \<and> found ?c ?xs f'"
    by (intro del_loop_ok) (use False st zero_labels in simp_all)
  then obtain fs k x f m where D: "del_loop ?c ?e [] (mt_root T) None = Some (fs, Node k Leaf x Leaf, f)"
      "rb (plug fs (Node k Leaf x Leaf)) m" "lefts fs @ x # rights fs = ?xs" "found ?c ?xs f"
    by blast
  have f: "f = None"
  proof (cases f)
    case (Some y)
    then show ?thesis using foundD(2) [OF D(4) Some] find_labels [OF v(3), of lab y] new by simp
  qed
  let ?t = "paint Black (plug fs (Node k Leaf x Leaf))"
  have io: "inorder ?t = ?xs" using D(3) by (simp add: inorder_plug)
  obtain m' where m': "rb ?t m'" using rb_paint_black [OF D(2)] by blast
  have "metric_delete_inner wall T lab W = Some (False, T\<lparr>mt_root := ?t\<rparr>, W)"
    using D(1) f False by (simp add: metric_delete_inner_def)
  moreover have "tree_ok (T\<lparr>mt_root := ?t\<rparr>)"
    by (rule tree_okI [where m = m' and ns = ?xs]) (use ok m' io in \<open>simp_all add: store_ok_def tree_ok_def\<close>)
  then have "store_ok (T\<lparr>mt_root := ?t\<rparr>) W" using ok io by (simp add: store_ok_def)
  moreover have "series (T\<lparr>mt_root := ?t\<rparr>) W = series T W" using io by (simp add: series_def)
  ultimately show ?thesis by blast
qed

section \<open>Purging\<close>

text \<open>The metrics that are due; the guard of the purge is compared with their number.\<close>

definition due_metrics :: "expire_tree \<Rightarrow> nat set" where
  "due_metrics W = {m. is_due W m}"

lemma finite_due: "wheel_inv W \<Longrightarrow> finite (due_metrics W)"
  by (rule finite_subset [OF _ wheel.finite_expiry]) (auto simp: due_metrics_def dest: wheel.due_armed)

lemma due_head:
  assumes "wheel_inv W" "et_due W = a # as"
  obtains n where "et_heap W a = Some n" "is_due W (en_metric n)" "expiry_of W (en_metric n) = Some (en_key n)"
    "et_mexp W (en_metric n) = Some a"
proof -
  obtain n where n: "et_heap W a = Some n" "is_due W (en_metric n)" using due_is_due [OF assms(1), of a] assms(2) by auto
  then show ?thesis
    using that [OF n] owner_okD(1) [of W a n] assms(1) by (simp add: wheel_inv_def expiry_of_def)
qed

lemma no_due: "wheel_inv W \<Longrightarrow> et_due W = [] \<Longrightarrow> \<not> is_due W m"
proof
  assume w: "wheel_inv W" "et_due W = []" and "is_due W m"
  then obtain a n where a: "et_mexp W m = Some a" "et_heap W a = Some n" by (auto simp: is_due_def split: option.splits)
  moreover have "en_metric n = m" using a owner_okD(3) [of W m a] w(1) by (auto simp: wheel_inv_def)
  ultimately have "a \<in> set (et_due W)" using due_is_due [OF w(1), of a] \<open>is_due W m\<close> by auto
  then show False using w(2) by simp
qed

text \<open>The first branch of the round: a node that is not due yet goes back to the wheel.\<close>

lemma reschedule_round:
  fixes wall :: int
  assumes w: "wheel_inv W" and n: "et_heap W a = Some n" and m: "et_mexp W (en_metric n) = Some a"
  defines "W' \<equiv> expire_schedule wall (expire_unlink W a) a"
  shows "wheel_inv W'" "expiry_of W' = expiry_of W" "et_cursor W' = et_cursor W"
    "is_due W' = (is_due W)(en_metric n := en_key n \<le> expire_base wall W)"
proof -
  have p: "placed W" "owner_ok W" using w by (auto simp: wheel_inv_def)
  have i: "ident W' = ident W" by (simp add: W'_def wheel_frame)
  show "wheel_inv W'"
    using placed_reschedule [OF p(1) n, of wall] owner_ok_ident [OF i p(2)] by (simp add: wheel_inv_def W'_def)
  show "expiry_of W' = expiry_of W" by (rule expiry_ident [OF i])
  show "et_cursor W' = et_cursor W" by (simp add: W'_def wheel_frame)
  have "et_heap (expire_unlink W a) a = Some n" using n by (simp add: wheel_frame)
  from schedule_heap [OF this, of wall] obtain L s where
    h: "et_heap W' = (et_heap W)(a \<mapsto> n\<lparr>en_level := L, en_slot := s\<rparr>)"
       "L = LV_DUE \<longleftrightarrow> node_key (expire_unlink W a) a \<le> expire_base wall (expire_unlink W a)"
    unfolding W'_def unlink_frame by blast
  have "node_key (expire_unlink W a) a = en_key n" using n by (simp add: node_key_def wheel_frame)
  moreover have "expire_base wall (expire_unlink W a) = expire_base wall W" by (simp add: expire_base_def wheel_frame)
  ultimately have L: "L = LV_DUE \<longleftrightarrow> en_key n \<le> expire_base wall W" using h(2) by simp
  have x: "et_mexp W' = et_mexp W" by (rule ident_heap(3) [OF i])
  show "is_due W' = (is_due W)(en_metric n := en_key n \<le> expire_base wall W)"
  proof
    fix m'
    have "b \<noteq> a" if "et_mexp W m' = Some b" "m' \<noteq> en_metric n" for b
      using owner_okD(3) [OF p(2) that(1)] n that(2) by auto
    then show "is_due W' m' = ((is_due W)(en_metric n := en_key n \<le> expire_base wall W)) m'"
      unfolding is_due_def x h(1) using m L by (cases "m' = en_metric n"; cases "et_mexp W m'") auto
  qed
qed

definition live :: "int \<Rightarrow> metric_node \<times> int option \<Rightarrow> bool" where
  "live key s = (case snd s of None \<Rightarrow> False | Some k \<Rightarrow> k > key)"

lemma labels_at_node:
  assumes "store_ok T W" "expiry_of W m = Some k"
  obtains y where "y \<in> set (inorder (mt_root T))" "m_addr y = m" "labels_at T m = Some (m_labels y)"
proof -
  have "m \<in> m_addr ` set (inorder (mt_root T))" using assms by (auto simp: store_ok_def dom_def)
  then obtain y where y: "find (\<lambda>n. m_addr n = m) (inorder (mt_root T)) = Some y"
    by (cases "find (\<lambda>n. m_addr n = m) (inorder (mt_root T))") (auto simp: find_None_iff)
  then have "y \<in> set (inorder (mt_root T))" "m_addr y = m" by (auto simp: find_Some_iff)
  then show ?thesis using that y by (simp add: labels_at_def)
qed

lemma label_unique:
  assumes "store_ok T W" "y \<in> set (inorder (mt_root T))" "(n, e) \<in> set (series T W)"
    "labels_cmp (mt_plan T) (m_labels y) (m_labels n) = 0"
  shows "e = expiry_of W (m_addr y)"
proof -
  obtain z where z: "z \<in> set (inorder (mt_root T))" "n = z\<lparr>m_addr := 0\<rparr>" "e = expiry_of W (m_addr z)"
    using assms(3) by (auto simp: series_def)
  have "y = z"
    using assms z by (intro label_sorted_equal [of "mt_plan T" "inorder (mt_root T)"]) (auto simp: store_ok_def tree_ok_def)
  then show ?thesis using z(3) by simp
qed

text \<open>The second branch: the deletion of the metric behind a due node.\<close>

lemma delete_round:
  assumes ok: "store_ok T W" and m: "expiry_of W m = Some k0" and lab: "labels_at T m = Some lab"
  shows "\<exists>T' W'. metric_delete_inner wall T lab W = Some (True, T', W') \<and> store_ok T' W' \<and>
     length (inorder (mt_root T)) = Suc (length (inorder (mt_root T'))) \<and>
     (k0 \<le> key \<longrightarrow> filter (live key) (series T' W') = filter (live key) (series T W)) \<and>
     (W' = expire_forget_locked W m \<or>
      (\<exists>a k. a \<noteq> m \<and> expiry_of W a = Some k \<and> W' = expire_arm_locked wall (expire_forget_locked W a) k m))"
proof -
  obtain y where y: "y \<in> set (inorder (mt_root T))" "m_addr y = m" "labels_at T m = Some (m_labels y)"
    by (rule labels_at_node [OF ok m])
  have l: "lab = m_labels y" using lab y(3) by simp
  obtain T' W' where D: "metric_delete_inner wall T lab W = Some (True, T', W')" "store_ok T' W'"
     "series T' W' = filter (\<lambda>(n, _). labels_cmp (mt_plan T) lab (m_labels n) \<noteq> 0) (series T W)"
     "length (inorder (mt_root T)) = Suc (length (inorder (mt_root T')))"
     "W' = expire_forget_locked W (m_addr y) \<or>
      (\<exists>a k. a \<noteq> m_addr y \<and> expiry_of W a = Some k \<and>
         W' = expire_arm_locked wall (expire_forget_locked W a) k (m_addr y))"
    using delete_inner_ok [OF ok y(1), of lab wall] labels.cmp_refl [of "mt_plan T" "m_labels y"] unfolding l by blast
  have "filter (live key) (series T' W') = filter (live key) (series T W)" if "k0 \<le> key"
    unfolding D(3) filter_filter
  proof (rule filter_cong [OF refl])
    fix s assume s: "s \<in> set (series T W)"
    have "\<not> live key s" if "labels_cmp (mt_plan T) lab (m_labels (fst s)) = 0"
      using label_unique [OF ok y(1), of "fst s" "snd s"] s that \<open>k0 \<le> key\<close> m unfolding l y(2) by (simp add: live_def)
    then show "((case s of (n, _) \<Rightarrow> labels_cmp (mt_plan T) lab (m_labels n) \<noteq> 0) \<and> live key s) = live key s"
      by (auto simp: split_beta)
  qed
  then show ?thesis using D(1,2,4,5) unfolding y(2) by blast
qed

lemma due_shrinks:
  assumes "wheel.punctual W" "is_due W m"
    "W' = expire_forget_locked W m \<or>
      (\<exists>a k. a \<noteq> m \<and> expiry_of W a = Some k \<and> W' = expire_arm_locked wall (expire_forget_locked W a) k m)"
  shows "due_metrics W' \<subset> due_metrics W \<and> wheel.punctual W' \<and> et_cursor W' = et_cursor W"
proof -
  have w: "wheel_inv W" "0 < et_cursor W" using assms(1) by (auto simp: wheel.punctual_def)
  from assms(3) show ?thesis
  proof
    assume f: "W' = expire_forget_locked W m"
    have "due_metrics W' = due_metrics W - {m}" unfolding f due_metrics_def wheel.due_forget [OF w(1)] by (auto split: if_splits)
    moreover have "m \<in> due_metrics W" using assms(2) by (simp add: due_metrics_def)
    ultimately show ?thesis using wheel.punctual_forget [OF assms(1)] wheel.clock_forget [OF w(1)] f by auto
  next
    assume "\<exists>a k. a \<noteq> m \<and> expiry_of W a = Some k \<and> W' = expire_arm_locked wall (expire_forget_locked W a) k m"
    then obtain a k where a: "a \<noteq> m" "expiry_of W a = Some k" "W' = expire_arm_locked wall (expire_forget_locked W a) k m"
      by blast
    let ?F = "expire_forget_locked W a"
    have F: "wheel_inv ?F" "et_cursor ?F = et_cursor W" "is_due ?F = (is_due W)(a := False)" "wheel.punctual ?F"
      using wheel.inv_forget [OF w(1)] wheel.clock_forget [OF w(1)] wheel.due_forget [OF w(1)]
        wheel.punctual_forget [OF assms(1)] by auto
    have d: "is_due W' = (is_due W)(a := False, m := k \<le> et_cursor W)"
      unfolding a(3) using wheel.due_arm [OF F(1), of wall k m] F(2,3) w(2) by simp
    have p: "k \<le> et_cursor W \<Longrightarrow> is_due W a" using assms(1) a(2) by (auto simp: wheel.punctual_def)
    have "due_metrics W' \<subset> due_metrics W"
    proof (cases "k \<le> et_cursor W")
      case True
      then have "due_metrics W' = due_metrics W - {a}" "a \<in> due_metrics W"
        using d p a(1) assms(2) by (auto simp: due_metrics_def split: if_splits)
      then show ?thesis by auto
    next
      case False
      then have "due_metrics W' = due_metrics W - {a, m}" "m \<in> due_metrics W"
        using d assms(2) by (auto simp: due_metrics_def split: if_splits)
      then show ?thesis by auto
    qed
    then show ?thesis
      using wheel.punctual_arm [OF F(4)] wheel.clock_arm [OF F(1)] F(2) a(3) by auto
  qed
qed

lemma purge_round_timed:
  assumes ok: "store_ok T W" and p: "wheel.punctual W" "et_cursor W = key" and due: "et_due W = a # as"
  shows "\<exists>T' W'. purge_round wall key False T W a = Some (False, T', W') \<and> store_ok T' W' \<and> wheel.punctual W' \<and>
     et_cursor W' = key \<and> due_metrics W' \<subset> due_metrics W \<and>
     filter (live key) (series T' W') = filter (live key) (series T W)"
proof -
  have w: "wheel_inv W" "0 < et_cursor W" using p(1) by (auto simp: wheel.punctual_def)
  obtain n where n: "et_heap W a = Some n" "is_due W (en_metric n)" "expiry_of W (en_metric n) = Some (en_key n)"
    "et_mexp W (en_metric n) = Some a" by (rule due_head [OF w(1) due])
  show ?thesis
  proof (cases "en_key n > key")
    case True
    let ?W = "expire_schedule wall (expire_unlink W a) a"
    note r = reschedule_round [OF w(1) n(1,4), of wall]
    have "\<not> en_key n \<le> expire_base wall W" using True p(2) w(2) by (simp add: expire_base_def)
    then have d: "is_due ?W = (is_due W)(en_metric n := False)" using r(4) by simp
    have "due_metrics ?W = due_metrics W - {en_metric n}" "en_metric n \<in> due_metrics W"
      using n(2) unfolding due_metrics_def d by (auto split: if_splits)
    then have "due_metrics ?W \<subset> due_metrics W" by blast
    moreover have "wheel.punctual ?W"
      unfolding wheel.punctual_def
    proof (intro conjI allI impI)
      show "wheel_inv ?W" "0 < et_cursor ?W" using r(1,3) w(2) by simp_all
      fix m k assume mk: "expiry_of ?W m = Some k" "k \<le> et_cursor ?W"
      then have "m \<noteq> en_metric n" using n(3) True p(2) r(2,3) by auto
      moreover have "is_due W m" using p(1) mk r(2,3) by (simp add: wheel.punctual_def)
      ultimately show "is_due ?W m" by (simp add: d)
    qed
    moreover have "store_ok T ?W" using ok r(1,2) by (simp add: store_ok_def)
    moreover have "series T ?W = series T W" by (simp add: series_def r(2))
    moreover have "purge_round wall key False T W a = Some (False, T, ?W)" using n(1) True by (simp add: purge_round_def)
    ultimately show ?thesis using r(3) p(2) by auto
  next
    case False
    obtain y where "y \<in> set (inorder (mt_root T))" "m_addr y = en_metric n" and
      lab: "labels_at T (en_metric n) = Some (m_labels y)" by (rule labels_at_node [OF ok n(3)])
    obtain T' W' where D: "metric_delete_inner wall T (m_labels y) W = Some (True, T', W')" "store_ok T' W'"
     "filter (live key) (series T' W') = filter (live key) (series T W)"
     "W' = expire_forget_locked W (en_metric n) \<or> (\<exists>a k. a \<noteq> en_metric n \<and> expiry_of W a = Some k \<and>
         W' = expire_arm_locked wall (expire_forget_locked W a) k (en_metric n))"
      using delete_round [OF ok n(3) lab, of wall key] False by auto
    have "purge_round wall key False T W a = Some (False, T', W')"
      using n(1) False lab D(1) by (simp add: purge_round_def)
    moreover have "due_metrics W' \<subset> due_metrics W" "wheel.punctual W'" "et_cursor W' = key"
      using due_shrinks [OF p(1) n(2) D(4)] p(2) by simp_all
    ultimately show ?thesis using D(2,3) by (intro exI conjI)
  qed
qed

lemma all_live:
  assumes "store_ok T W" "wheel.punctual W" "et_due W = []"
  shows "filter (live (et_cursor W)) (series T W) = series T W"
proof (rule filter_True, rule ballI)
  fix s assume "s \<in> set (series T W)"
  then obtain n where n: "n \<in> set (inorder (mt_root T))" "snd s = expiry_of W (m_addr n)" by (auto simp: series_def)
  then obtain k where k: "expiry_of W (m_addr n) = Some k" using assms(1) by (auto simp: store_ok_def dom_def)
  have "\<not> is_due W (m_addr n)" using no_due assms(2,3) by (auto simp: wheel.punctual_def)
  then have "k > et_cursor W" using assms(2) k by (force simp: wheel.punctual_def)
  then show "live (et_cursor W) s" by (simp add: live_def n k)
qed

lemma purge_loop_timed:
  assumes "store_ok T W" "wheel.punctual W" "et_cursor W = key" "card (due_metrics W) \<le> guard"
  shows "\<exists>g T' W'. purge_loop guard wall key False T W orphans = Some (g, orphans, T', W') \<and> store_ok T' W' \<and>
     series T' W' = filter (live key) (series T W) \<and> et_cursor W' = key \<and> et_due W' = []"
  using assms
proof (induction guard arbitrary: T W)
  case (0 T W)
  have w: "wheel_inv W" using 0(2) by (simp add: wheel.punctual_def)
  then have none: "\<not> is_due W m" for m using 0(4) finite_due [OF w] by (auto simp: due_metrics_def)
  then have due: "et_due W = []" using due_is_due [OF w] by (cases "et_due W") auto
  then show ?case
    using 0 all_live [OF 0(1,2)] by (subst purge_loop.simps) auto
next
  case (Suc guard T W)
  have w: "wheel_inv W" using Suc.prems(2) by (simp add: wheel.punctual_def)
  show ?case
  proof (cases "et_due W")
    case Nil
    then show ?thesis using Suc.prems all_live [OF Suc.prems(1,2)] by (subst purge_loop.simps) auto
  next
    case (Cons a as)
    obtain T' W' where r: "purge_round wall key False T W a = Some (False, T', W')" "store_ok T' W'" "wheel.punctual W'"
       "et_cursor W' = key" "due_metrics W' \<subset> due_metrics W"
       "filter (live key) (series T' W') = filter (live key) (series T W)"
      using purge_round_timed [OF Suc.prems(1-3) Cons] by blast
    have "card (due_metrics W') \<le> guard"
      using psubset_card_mono [OF finite_due [OF w] r(5)] Suc.prems(4) by simp
    then show ?thesis
      using Suc.IH [OF r(2-4)] r(1,6) Cons by (subst purge_loop.simps) simp
  qed
qed

lemma due_bound:
  assumes "store_ok T W"
  shows "card (due_metrics W) \<le> nat (mt_count T)"
proof -
  have w: "wheel_inv W" and d: "dom (expiry_of W) = m_addr ` set (inorder (mt_root T))"
    and c: "mt_count T = int (length (inorder (mt_root T)))" using assms by (auto simp: store_ok_def tree_ok_def)
  have "due_metrics W \<subseteq> m_addr ` set (inorder (mt_root T))"
    using wheel.due_armed [OF w] d by (auto simp: due_metrics_def)
  then have "card (due_metrics W) \<le> card (m_addr ` set (inorder (mt_root T)))" by (rule card_mono [rotated]) simp
  also have "\<dots> \<le> length (inorder (mt_root T))" using card_image_le card_length le_trans List.finite_set by metis
  finally show ?thesis by (simp add: c)
qed

text \<open>The full purge: every round deletes one series.\<close>

lemma purge_round_drain:
  assumes ok: "store_ok T W" and due: "et_due W = a # as"
  shows "\<exists>T' W'. purge_round wall key True T W a = Some (False, T', W') \<and> store_ok T' W' \<and>
     length (inorder (mt_root T)) = Suc (length (inorder (mt_root T')))"
proof -
  have w: "wheel_inv W" using ok by (simp add: store_ok_def)
  obtain n where n: "et_heap W a = Some n" "is_due W (en_metric n)" "expiry_of W (en_metric n) = Some (en_key n)"
    "et_mexp W (en_metric n) = Some a" by (rule due_head [OF w due])
  obtain y where "y \<in> set (inorder (mt_root T))" "m_addr y = en_metric n" and
    lab: "labels_at T (en_metric n) = Some (m_labels y)" by (rule labels_at_node [OF ok n(3)])
  obtain T' W' where D: "metric_delete_inner wall T (m_labels y) W = Some (True, T', W')" "store_ok T' W'"
     "length (inorder (mt_root T)) = Suc (length (inorder (mt_root T')))"
    using delete_round [OF ok n(3) lab, of wall] by blast
  then have "purge_round wall key True T W a = Some (False, T', W')" using n(1) lab by (simp add: purge_round_def)
  then show ?thesis using D by blast
qed

lemma purge_loop_drain:
  assumes "store_ok T W" "length (inorder (mt_root T)) \<le> guard"
  shows "\<exists>g T' W'. purge_loop guard wall key True T W orphans = Some (g, orphans, T', W') \<and> store_ok T' W' \<and>
     et_due W' = [] \<and> g + length (inorder (mt_root T)) = guard + length (inorder (mt_root T')) \<and>
     (et_due W \<noteq> [] \<longrightarrow> length (inorder (mt_root T')) < length (inorder (mt_root T)))"
  using assms
proof (induction guard arbitrary: T W)
  case (0 T W)
  have "et_due W = []"
    using purge_round_drain [OF 0(1)] 0(2) by (cases "et_due W") auto
  then show ?case using 0 by (subst purge_loop.simps) simp
next
  case (Suc guard T W)
  show ?case
  proof (cases "et_due W")
    case Nil
    then show ?thesis using Suc.prems by (subst purge_loop.simps) simp
  next
    case (Cons a as)
    obtain T' W' where r: "purge_round wall key True T W a = Some (False, T', W')" "store_ok T' W'"
      "length (inorder (mt_root T)) = Suc (length (inorder (mt_root T')))"
      using purge_round_drain [OF Suc.prems(1) Cons] by blast
    obtain g T2 W2 where i: "purge_loop guard wall key True T' W' orphans = Some (g, orphans, T2, W2)" "store_ok T2 W2"
       "et_due W2 = []" "g + length (inorder (mt_root T')) = guard + length (inorder (mt_root T2))"
       "et_due W' \<noteq> [] \<longrightarrow> length (inorder (mt_root T2)) < length (inorder (mt_root T'))"
      using Suc.IH [OF r(2)] r(3) Suc.prems(2) by auto
    have "purge_loop (Suc guard) wall key True T W orphans = Some (g, orphans, T2, W2)"
      using r(1) i(1) Cons by (subst purge_loop.simps) simp
    moreover have "length (inorder (mt_root T2)) < length (inorder (mt_root T))"
    proof (cases "et_due W' = []")
      case True
      then have "T2 = T'" using i(1) by (subst (asm) purge_loop.simps) simp
      then show ?thesis using r(3) by simp
    next
      case False
      then show ?thesis using i(5) r(3) by simp
    qed
    ultimately show ?thesis using i(2-4) r(3) by auto
  qed
qed

lemma drain_ok:
  assumes "store_ok T W"
  shows "store_ok T (expire_drain_all W)" "mt_root T \<noteq> Leaf \<Longrightarrow> et_due (expire_drain_all W) \<noteq> []"
proof -
  have w: "wheel_inv W" and d: "dom (expiry_of W) = m_addr ` set (inorder (mt_root T))"
    using assms by (auto simp: store_ok_def)
  show ok: "store_ok T (expire_drain_all W)" using assms wheel_drain(1,2) [OF w] by (simp add: store_ok_def)
  assume "mt_root T \<noteq> Leaf"
  then obtain x where "x \<in> set (inorder (mt_root T))" by (cases "mt_root T") auto
  then obtain k where k: "expiry_of W (m_addr x) = Some k" using d by (auto simp: dom_def)
  then have "is_due (expire_drain_all W) (m_addr x)" using wheel_drain(3) [OF w] by simp
  then show "et_due (expire_drain_all W) \<noteq> []" using no_due [OF wheel_drain(1) [OF w]] by blast
qed

lemma purge_passes_drain:
  assumes "store_ok T W" "length (inorder (mt_root T)) < guard" "length (inorder (mt_root T)) < fuel"
  shows "\<exists>T' W'. purge_passes fuel guard wall key True T W orphans = Some (orphans, T', W') \<and> store_ok T' W' \<and>
     mt_root T' = Leaf"
  using assms
proof (induction fuel arbitrary: T W guard)
  case (Suc fuel T W guard)
  let ?D = "expire_drain_all W"
  obtain g T' W' where l: "purge_loop guard wall key True T ?D orphans = Some (g, orphans, T', W')" "store_ok T' W'"
     "g + length (inorder (mt_root T)) = guard + length (inorder (mt_root T'))"
     "et_due ?D \<noteq> [] \<longrightarrow> length (inorder (mt_root T')) < length (inorder (mt_root T))"
    using purge_loop_drain [OF drain_ok(1) [OF Suc.prems(1)]] Suc.prems(2) less_imp_le by meson
  have c: "mt_count T' = int (length (inorder (mt_root T')))" using l(2) by (simp add: store_ok_def tree_ok_def)
  show ?case
  proof (cases "mt_root T' = Leaf")
    case True
    then have "purge_passes (Suc fuel) guard wall key True T W orphans = Some (orphans, T', W')" using l(1) c by simp
    then show ?thesis using l(2) True by blast
  next
    case False
    have ne: "inorder (mt_root T') \<noteq> []" using False by (cases "mt_root T'") auto
    have "mt_root T \<noteq> Leaf"
    proof
      assume "mt_root T = Leaf"
      then have "inorder (mt_root T) = []" by simp
      then have "et_due ?D = []" using l(4) by auto
      then have "T' = T" using l(1) by (subst (asm) purge_loop.simps) simp
      then show False using False \<open>mt_root T = Leaf\<close> by simp
    qed
    then have "length (inorder (mt_root T')) < length (inorder (mt_root T))" using l(4) drain_ok(2) [OF Suc.prems(1)] by blast
    then have "length (inorder (mt_root T')) < g" "length (inorder (mt_root T')) < fuel" "0 < g"
      using l(3) Suc.prems(2,3) by auto
    then show ?thesis using Suc.IH [OF l(2), of g] l(1) c ne by simp
  qed
qed simp

section \<open>The store against the list of its series\<close>

definition store_inv :: "store \<Rightarrow> bool" where
  "store_inv S \<longleftrightarrow> store_ok (s_tree S) (s_wheel S)"

definition contents :: "store \<Rightarrow> (metric_node \<times> int option) list" where
  "contents S = series (s_tree S) (s_wheel S)"

definition side :: "store \<Rightarrow> chain \<Rightarrow> metric_node \<times> int option \<Rightarrow> int" where
  "side S lab s = labels_cmp (mt_plan (s_tree S)) lab (m_labels (fst s))"

definition refreshed :: "int \<Rightarrow> int \<Rightarrow> int option \<Rightarrow> int option" where
  "refreshed wall ttl e =
     Some (case e of None \<Rightarrow> wall + ttl | Some k \<Rightarrow> if ttl \<ge> TTL_NEVER \<and> k > wall then k else wall + ttl)"

definition full_store :: "store \<Rightarrow> bool" where
  "full_store S \<longleftrightarrow> s_max_series S > 0 \<and> length (contents S) \<ge> s_max_series S"

text \<open>The store that holds no series.\<close>

definition empty_store :: "nat \<Rightarrow> store" where
  "empty_store cap =
     \<lparr>s_tree = \<lparr>mt_root = Leaf, mt_count = 0, mt_plan = 1, mt_words = Map.empty, mt_next = 0\<rparr>,
      s_wheel = expire_init, s_max_series = cap, s_dropped = 0\<rparr>"

lemma empty_store_ok: "store_inv (empty_store cap)" "contents (empty_store cap) = []"
proof -
  have "expiry_of expire_init = Map.empty"
    by (rule ext) (simp add: expiry_of_def expire_init_def)
  then show "store_inv (empty_store cap)" "contents (empty_store cap) = []"
    using wheel_init
    by (auto simp: store_inv_def contents_def series_def empty_store_def store_ok_def tree_ok_def label_sorted_def)
qed

definition series_upsert ::
    "(64 word \<Rightarrow> 64 word \<Rightarrow> 64 word) \<Rightarrow> int \<Rightarrow> store \<Rightarrow> chain \<Rightarrow> int \<Rightarrow> 64 word \<Rightarrow> int \<Rightarrow> bool \<Rightarrow> bool \<Rightarrow>
     (metric_node \<times> int option) list" where
  "series_upsert dadd wall S lab type val ttl add bypass =
     (if \<exists>s \<in> set (contents S). side S lab s = 0
      then map (\<lambda>s. if side S lab s = 0
                     then ((if add then add_value dadd type val else set_value type val) (fst s), refreshed wall ttl (snd s))
                     else s) (contents S)
      else if \<not> bypass \<and> full_store S then contents S
      else filter (\<lambda>s. side S lab s > 0) (contents S) @
           ((fst (make_node (s_tree S) lab type val))\<lparr>m_addr := 0\<rparr>, Some (wall + ttl)) #
           filter (\<lambda>s. \<not> side S lab s > 0) (contents S))"

lemma side_series:
  "side S lab (n\<lparr>m_addr := 0\<rparr>, e) = labels_cmp (mt_plan (s_tree S)) lab (m_labels n)"
  by (simp add: side_def)

lemma filter_series:
  "filter (\<lambda>s. P (side S lab s)) (contents S) =
     map (\<lambda>n. (n\<lparr>m_addr := 0\<rparr>, expiry_of (s_wheel S) (m_addr n)))
       (filter (\<lambda>n. P (labels_cmp (mt_plan (s_tree S)) lab (m_labels n))) (inorder (mt_root (s_tree S))))"
  by (simp add: contents_def series_def filter_map comp_def side_series)

lemma present:
  "store_inv S \<Longrightarrow>
   (\<exists>s \<in> set (contents S). side S lab s = 0) = (metric_find_locked (s_tree S) lab \<noteq> None)"
  using find_labels [of "s_tree S" lab]
  by (auto simp: contents_def series_def side_series store_inv_def store_ok_def tree_ok_def)

lemma count_contents: "store_inv S \<Longrightarrow> mt_count (s_tree S) = int (length (contents S))"
  by (simp add: store_inv_def store_ok_def tree_ok_def contents_def series_def)

lemma value_keeps [simp]:
  "m_addr (set_value type val n) = m_addr n" "m_labels (set_value type val n) = m_labels n"
  "m_addr (add_value dadd type val n) = m_addr n" "m_labels (add_value dadd type val n) = m_labels n"
  "set_value type val (n\<lparr>m_addr := a\<rparr>) = (set_value type val n)\<lparr>m_addr := a\<rparr>"
  "add_value dadd type val (n\<lparr>m_addr := a\<rparr>) = (add_value dadd type val n)\<lparr>m_addr := a\<rparr>"
  by (simp_all add: set_value_def add_value_def Let_def)

text \<open>An update in place of the series that matched.\<close>

lemma update_series:
  fixes f :: "metric_node \<Rightarrow> metric_node" and wall ttl :: int
  assumes inv: "store_inv S" and y: "metric_find_locked (s_tree S) lab = Some y"
    and f: "\<And>n. m_addr (f n) = m_addr n" "\<And>n. m_labels (f n) = m_labels n"
      "\<And>n. f (n\<lparr>m_addr := 0\<rparr>) = (f n)\<lparr>m_addr := 0\<rparr>"
  defines "T' \<equiv> (s_tree S)\<lparr>mt_root := update_node (m_addr y) f (mt_root (s_tree S))\<rparr>"
  defines "W' \<equiv> metric_refresh_expire wall (s_wheel S) (m_addr y) ttl"
  shows "store_ok T' W'"
    "series T' W' = map (\<lambda>s. if side S lab s = 0 then (f (fst s), refreshed wall ttl (snd s)) else s) (contents S)"
proof -
  let ?T = "s_tree S" and ?W = "s_wheel S"
  have ok: "store_ok ?T ?W" using inv by (simp add: store_inv_def)
  have srt: "label_sorted (mt_plan ?T) (inorder (mt_root ?T))" and w: "wheel_inv ?W"
    and d: "dom (expiry_of ?W) = m_addr ` set (inorder (mt_root ?T))"
    and dist: "distinct (map m_addr (inorder (mt_root ?T)))"
    using ok by (auto simp: store_ok_def tree_ok_def)
  have y': "y \<in> set (inorder (mt_root ?T))" "labels_cmp (mt_plan ?T) lab (m_labels y) = 0"
    using y find_labels [OF srt] by blast+
  obtain k where k: "expiry_of ?W (m_addr y) = Some k" using y'(1) d by (auto simp: dom_def)
  note r = refresh_ok [OF w k, of wall ttl]
  have e: "expiry_of W' = (expiry_of ?W)(m_addr y := refreshed wall ttl (Some k))"
    unfolding W'_def r(2) by (simp add: refreshed_def)
  have "dom (expiry_of W') = dom (expiry_of ?W)" unfolding e using k by (auto simp: refreshed_def dom_def)
  then show "store_ok T' W'" unfolding T'_def
    using update_ok [OF ok, of f] f(1,2) r(1) unfolding W'_def by blast
  have "((f' n)\<lparr>m_addr := 0\<rparr>, expiry_of W' (m_addr (f' n))) =
      (if side S lab (n\<lparr>m_addr := 0\<rparr>, expiry_of ?W (m_addr n)) = 0
       then (f (n\<lparr>m_addr := 0\<rparr>), refreshed wall ttl (expiry_of ?W (m_addr n)))
       else (n\<lparr>m_addr := 0\<rparr>, expiry_of ?W (m_addr n)))"
    if n: "n \<in> set (inorder (mt_root ?T))" and f': "f' = (\<lambda>n. if m_addr n = m_addr y then f n else n)" for n f'
  proof -
    have a: "m_addr n = m_addr y \<Longrightarrow> n = y" using n y'(1) dist by (auto simp: distinct_map inj_on_def)
    have l: "n = y" if "labels_cmp (mt_plan ?T) lab (m_labels n) = 0"
      using label_sorted_equal [OF srt n y'(1)] that y'(2) by (simp add: labels_cmp_eq_0)
    show ?thesis
    proof (cases "n = y")
      case True
      then show ?thesis using y'(2) k by (simp add: f' side_series f e)
    next
      case False
      then have "m_addr n \<noteq> m_addr y" "labels_cmp (mt_plan ?T) lab (m_labels n) \<noteq> 0" using a l by blast+
      then show ?thesis by (simp add: f' side_series e)
    qed
  qed
  then show "series T' W' = map (\<lambda>s. if side S lab s = 0 then (f (fst s), refreshed wall ttl (snd s)) else s) (contents S)"
    unfolding contents_def series_def T'_def by (simp add: inorder_update comp_def cong: if_cong)
qed

lemma update_store [simp]:
  "store_inv (S\<lparr>s_tree := T, s_wheel := W\<rparr>) = store_ok T W" "contents (S\<lparr>s_tree := T, s_wheel := W\<rparr>) = series T W"
  "store_inv (S\<lparr>s_dropped := d\<rparr>) = store_inv S" "contents (S\<lparr>s_dropped := d\<rparr>) = contents S"
  by (simp_all add: store_inv_def contents_def)

lemma metric_upsert_hit:
  assumes inv: "store_inv S" and y: "metric_find_locked (s_tree S) lab = Some y"
  shows "\<exists>S'. metric_upsert dadd wall S lab type val ttl add bypass = Inr (Some (m_addr y), S') \<and> store_inv S' \<and>
     contents S' = series_upsert dadd wall S lab type val ttl add bypass \<and> s_dropped S' = s_dropped S \<and>
     s_max_series S' = s_max_series S"
proof -
  have p: "\<exists>s \<in> set (contents S). side S lab s = 0" using present [OF inv, of lab] y by simp
  show ?thesis
  proof (cases add)
    case True
    then show ?thesis
      using update_series [OF inv y, of "add_value dadd type val" wall ttl] y p
      by (simp add: metric_upsert_def metric_gset_def series_upsert_def)
  next
    case False
    then show ?thesis
      using update_series [OF inv y, of "set_value type val" wall ttl] y p
      by (simp add: metric_upsert_def metric_set_def series_upsert_def)
  qed
qed

lemma fresh_series:
  fixes wall ttl :: int
  assumes ok: "store_ok T W" and W': "W' = expire_arm_locked wall W (wall + ttl) (mt_next T)"
    and T': "inorder (mt_root T') = A @ n # B" "set (A @ B) = set (inorder (mt_root T))"
    and n: "m_addr n = mt_next T"
  shows "series T' W' = map (\<lambda>n. (n\<lparr>m_addr := 0\<rparr>, expiry_of W (m_addr n))) A @
     (n\<lparr>m_addr := 0\<rparr>, Some (wall + ttl)) # map (\<lambda>n. (n\<lparr>m_addr := 0\<rparr>, expiry_of W (m_addr n))) B"
proof -
  have w: "wheel_inv W" and lt: "\<forall>z \<in> set (inorder (mt_root T)). m_addr z < mt_next T"
    using ok by (auto simp: store_ok_def tree_ok_def)
  have e: "expiry_of W' = (expiry_of W)(mt_next T \<mapsto> wall + ttl)" unfolding W' by (rule wheel.expiry_arm [OF w])
  have "set A \<subseteq> set (inorder (mt_root T))" "set B \<subseteq> set (inorder (mt_root T))" using T'(2) by auto
  then have "\<And>z. z \<in> set A \<Longrightarrow> m_addr z \<noteq> mt_next T" "\<And>z. z \<in> set B \<Longrightarrow> m_addr z \<noteq> mt_next T" using lt by fastforce+
  then show ?thesis unfolding series_def T'(1) by (simp add: e n)
qed

lemma metric_upsert_miss:
  assumes inv: "store_inv S" and y: "metric_find_locked (s_tree S) lab = None"
  shows "\<exists>r S'. metric_upsert dadd wall S lab type val ttl add bypass = Inr (r, S') \<and> store_inv S' \<and>
     contents S' = series_upsert dadd wall S lab type val ttl add bypass \<and>
     (r = None \<longleftrightarrow> \<not> bypass \<and> full_store S) \<and> s_dropped S' = s_dropped S + (if r = None then 1 else 0) \<and>
     s_max_series S' = s_max_series S"
proof -
  let ?T = "s_tree S" and ?W = "s_wheel S"
  have p: "\<not> (\<exists>s \<in> set (contents S). side S lab s = 0)" using present [OF inv, of lab] y by simp
  have full: "full_store S \<longleftrightarrow> s_max_series S > 0 \<and> mt_count ?T \<ge> int (s_max_series S)"
    by (auto simp: full_store_def count_contents [OF inv])
  show ?thesis
  proof (cases "\<not> bypass \<and> full_store S")
    case True
    then show ?thesis using y p inv unfolding full by (simp add: metric_upsert_def series_upsert_def full)
  next
    case False
    have ok: "store_ok ?T ?W" using inv by (simp add: store_inv_def)
    let ?c = "\<lambda>z. labels_cmp (mt_plan ?T) lab (m_labels z)" and ?n = "fst (make_node ?T lab type val)"
    let ?W' = "expire_arm_locked wall ?W (wall + ttl) (mt_next ?T)" and ?xs = "inorder (mt_root ?T)"
    obtain T' where T': "metric_insert_locked wall ?T lab type val ?W ttl = Inr (mt_next ?T, T', ?W')"
      "store_ok T' ?W'" "inorder (mt_root T') = filter (\<lambda>z. ?c z > 0) ?xs @ ?n # filter (\<lambda>z. \<not> ?c z > 0) ?xs"
      using insert_locked_ok [OF ok y] by blast
    have "set (filter (\<lambda>z. ?c z > 0) ?xs @ filter (\<lambda>z. \<not> ?c z > 0) ?xs) = set ?xs" by auto
    note fresh_series [OF ok refl T'(3) this make_node_simps(1), of wall ttl]
    then have "series T' ?W' = series_upsert dadd wall S lab type val ttl add bypass"
      unfolding series_upsert_def if_not_P [OF p] if_not_P [OF False]
      by (simp only: filter_series [of "\<lambda>c. 0 < c"] filter_series [of "\<lambda>c. \<not> 0 < c"])
    moreover have "metric_upsert dadd wall S lab type val ttl add bypass =
        Inr (Some (mt_next ?T), S\<lparr>s_tree := T', s_wheel := ?W'\<rparr>)"
      using y False T'(1) unfolding metric_upsert_def full by auto
    ultimately show ?thesis using T'(2) False by auto
  qed
qed

lemma metric_upsert_ok:
  assumes "store_inv S"
  shows "\<exists>r S'. metric_upsert dadd wall S lab type val ttl add bypass = Inr (r, S') \<and> store_inv S' \<and>
     contents S' = series_upsert dadd wall S lab type val ttl add bypass \<and>
     (r = None \<longleftrightarrow> (\<forall>s \<in> set (contents S). side S lab s \<noteq> 0) \<and> \<not> bypass \<and> full_store S) \<and>
     s_dropped S' = s_dropped S + (if r = None then 1 else 0) \<and> s_max_series S' = s_max_series S"
proof (cases "metric_find_locked (s_tree S) lab")
  case None
  then have "\<forall>s \<in> set (contents S). side S lab s \<noteq> 0" using present [OF assms, of lab] by auto
  then show ?thesis using metric_upsert_miss [OF assms None, of dadd wall type val ttl add bypass] by auto
next
  case (Some y)
  then have "\<exists>s \<in> set (contents S). side S lab s = 0" using present [OF assms, of lab] by auto
  then show ?thesis using metric_upsert_hit [OF assms Some, of dadd wall type val ttl add bypass] by auto
qed

lemma metric_delete_ok:
  assumes "store_inv S"
  shows "\<exists>S'. metric_delete wall S lab = Some ((\<exists>s \<in> set (contents S). side S lab s = 0), S') \<and> store_inv S' \<and>
     contents S' = filter (\<lambda>s. side S lab s \<noteq> 0) (contents S) \<and> s_max_series S' = s_max_series S"
proof -
  let ?T = "s_tree S" and ?W = "s_wheel S"
  have ok: "store_ok ?T ?W" using assms by (simp add: store_inv_def)
  show ?thesis
  proof (cases "metric_find_locked ?T lab")
    case None
    then have p: "\<not> (\<exists>s \<in> set (contents S). side S lab s = 0)" using present [OF assms, of lab] by simp
    then have "filter (\<lambda>s. side S lab s \<noteq> 0) (contents S) = contents S" by (auto intro: filter_True)
    moreover obtain T' where "metric_delete_inner wall ?T lab ?W = Some (False, T', ?W)" "store_ok T' ?W"
      "series T' ?W = series ?T ?W" using delete_miss_ok [OF ok None, of wall] by blast
    ultimately show ?thesis
      using p by (intro exI [of _ "S\<lparr>s_tree := T', s_wheel := ?W\<rparr>"]) (simp add: metric_delete_def contents_def store_inv_def)
  next
    case (Some y)
    then have y: "y \<in> set (inorder (mt_root ?T))" "labels_cmp (mt_plan ?T) lab (m_labels y) = 0"
      using find_labels [of ?T lab] ok by (auto simp: store_ok_def tree_ok_def)
    have p: "\<exists>s \<in> set (contents S). side S lab s = 0" using present [OF assms, of lab] Some by simp
    obtain T' W' where D: "metric_delete_inner wall ?T lab ?W = Some (True, T', W')" "store_ok T' W'"
      "series T' W' = filter (\<lambda>(n, _). labels_cmp (mt_plan ?T) lab (m_labels n) \<noteq> 0) (series ?T ?W)"
      using delete_inner_ok [OF ok y] by blast
    have "metric_delete wall S lab = Some (True, S\<lparr>s_tree := T', s_wheel := W'\<rparr>)" by (simp add: metric_delete_def D(1))
    then show ?thesis using p D(2,3) by (auto simp: contents_def side_def split_beta')
  qed
qed

lemma expire_purge_timed_ok:
  assumes inv: "store_inv S" and key: "0 < key" "key \<noteq> INT64_MAX"
  shows "\<exists>S'. expire_purge wall key S = Some (0, S') \<and> store_inv S' \<and>
     contents S' = filter (live key) (contents S) \<and> s_max_series S' = s_max_series S"
proof -
  let ?T = "s_tree S" and ?W = "s_wheel S" and ?A = "expire_wheel_advance wall (s_wheel S) key"
  let ?guard = "nat (mt_count ?T + et_count ?W + 1)"
  have w: "wheel_inv ?W" and ok: "store_ok ?T ?W" using inv by (auto simp: store_inv_def store_ok_def)
  have okA: "store_ok ?T ?A"
    using ok wheel.inv_advance [OF w] wheel.expiry_advance [OF w] by (simp add: store_ok_def)
  have pA: "wheel.punctual ?A" "et_cursor ?A = key"
    using wheel.punctual_advance [OF w key(1)] wheel.clock_advance [OF w key(1)] by auto
  have "et_count ?W \<ge> 0" using w by (simp add: wheel_inv_def owner_ok_def)
  then have g: "card (due_metrics ?A) \<le> ?guard" using due_bound [OF okA] by linarith
  have s: "series ?T ?A = series ?T ?W" using wheel.expiry_advance [OF w] by (simp add: series_def)
  obtain g' T' W' where l: "purge_loop ?guard wall key False ?T ?A 0 = Some (g', 0, T', W')" "store_ok T' W'"
      "series T' W' = filter (live key) (series ?T ?A)"
    using purge_loop_timed [OF okA pA g] by blast
  then show ?thesis using key(2) unfolding expire_purge_def by (simp add: Let_def s contents_def)
qed

lemma expire_purge_full_ok:
  assumes inv: "store_inv S"
  shows "\<exists>S'. expire_purge wall INT64_MAX S = Some (0, S') \<and> store_inv S' \<and> contents S' = [] \<and>
     s_max_series S' = s_max_series S"
proof -
  let ?guard = "nat (mt_count (s_tree S) + et_count (s_wheel S) + 1)"
  have ok: "store_ok (s_tree S) (s_wheel S)" using inv by (simp add: store_inv_def)
  have "et_count (s_wheel S) \<ge> 0" using ok by (simp add: store_ok_def wheel_inv_def owner_ok_def)
  moreover have "mt_count (s_tree S) = int (length (inorder (mt_root (s_tree S))))" using ok by (simp add: store_ok_def tree_ok_def)
  ultimately have "length (inorder (mt_root (s_tree S))) < ?guard" by linarith
  then obtain T' W' where r: "purge_passes (Suc ?guard) ?guard wall INT64_MAX True (s_tree S) (s_wheel S) 0 = Some (0, T', W')"
     "store_ok T' W'" "mt_root T' = Leaf"
    using purge_passes_drain [OF ok] less_SucI by meson
  then show ?thesis unfolding expire_purge_def by (simp add: Let_def series_def del: purge_passes.simps)
qed

text \<open>A store with two series, written at times 100 and 101 with a time to live of 60 and 300.\<close>

definition sample_labels :: "string \<Rightarrow> chain" where
  "sample_labels name = [\<lparr>l_name = ''__name__'', l_name_len = 8, l_key = Some name, l_key_len = length name\<rparr>]"

definition upserted :: "int \<Rightarrow> store \<Rightarrow> string \<Rightarrow> 64 word \<Rightarrow> int \<Rightarrow> store" where
  "upserted wall S name val ttl =
     (case metric_upsert (+) wall S (sample_labels name) DATATYPE_UINT val ttl False False of
        Inr (_, S') \<Rightarrow> S' | Inl _ \<Rightarrow> S)"

definition sample_store :: store where
  "sample_store = upserted 101 (upserted 100 (empty_store 2) ''up'' 1 60) ''cpu'' 7 300"

text \<open>What the examples look at: keys, value and expiry.\<close>

definition digest :: "metric_node \<times> int option \<Rightarrow> string option list \<times> 64 word \<times> int option" where
  "digest s = (map l_key (m_labels (fst s)), m_u (fst s), snd s)"

lemma upsert_plan:
  "metric_upsert dadd wall S lab type val ttl add bypass = Inr (r, S') \<Longrightarrow> mt_plan (s_tree S') = mt_plan (s_tree S)"
  by (auto simp: metric_upsert_def metric_set_def metric_gset_def metric_insert_locked_def Let_def split_beta make_node_simps
      split: option.splits if_splits sum.splits)

lemma upserted_ok:
  assumes "store_inv S"
  shows "store_inv (upserted wall S name val ttl)"
    "contents (upserted wall S name val ttl) =
       series_upsert (+) wall S (sample_labels name) DATATYPE_UINT val ttl False False"
    "s_max_series (upserted wall S name val ttl) = s_max_series S"
  using metric_upsert_ok [OF assms, of "(+)" wall "sample_labels name" DATATYPE_UINT val ttl False False]
  by (auto simp: upserted_def)

lemma upserted_plan: "mt_plan (s_tree (upserted wall S name val ttl)) = mt_plan (s_tree S)"
  by (auto simp: upserted_def upsert_plan split: sum.split)

lemma sample_digest:
  "digest ((fst (make_node T (sample_labels name) DATATYPE_UINT val))\<lparr>m_addr := 0\<rparr>, e) = ([Some name], val, e)"
  using make_node_simps(2) [of T "sample_labels name" DATATYPE_UINT val]
  by (simp add: digest_def sample_labels_def make_node_def split_beta Let_def)

lemma sample_ok:
  "store_inv sample_store" "map digest (contents sample_store) = [([Some ''cpu''], 7, Some 401), ([Some ''up''], 1, Some 160)]"
  "mt_plan (s_tree sample_store) = 1" "s_max_series sample_store = 2"
proof -
  let ?S0 = "empty_store 2" and ?S1 = "upserted 100 (empty_store 2) ''up'' 1 60"
  note u1 = upserted_ok [OF empty_store_ok(1) [of 2], of 100 "''up''" 1 60]
  note u2 = upserted_ok [OF u1(1), of 101 "''cpu''" 7 300]
  have p: "mt_plan (s_tree ?S1) = 1" "mt_plan (s_tree sample_store) = 1"
    unfolding sample_store_def upserted_plan by (simp_all add: empty_store_def)
  then show "store_inv sample_store" "mt_plan (s_tree sample_store) = 1" "s_max_series sample_store = 2"
    using u2(1,3) u1(3) by (simp_all add: sample_store_def empty_store_def)
  let ?n1 = "(fst (make_node (s_tree ?S0) (sample_labels ''up'') DATATYPE_UINT 1))\<lparr>m_addr := 0\<rparr>"
  have c1: "contents ?S1 = [(?n1, Some 160)]"
    unfolding u1(2) by (auto simp: series_upsert_def empty_store_ok full_store_def)
  have k1: "map l_key (m_labels ?n1) = [Some ''up'']"
    using sample_digest [of "s_tree ?S0" "''up''" 1 None] by (simp add: digest_def)
  have "side ?S1 (sample_labels ''cpu'') (?n1, Some 160) = labels_cmp 1 (sample_labels ''cpu'') (sample_labels ''up'')"
    unfolding side_def p(1) fst_conv by (rule labels_cmp_keys2) (simp only: k1, simp add: sample_labels_def)
  also have "labels_cmp 1 (sample_labels ''cpu'') (sample_labels ''up'') < 0"
    unfolding One_nat_def labels_cmp.simps(2) by (simp add: sample_labels_def)
  finally have sd: "side ?S1 (sample_labels ''cpu'') (?n1, Some 160) < 0" .
  have "s_max_series ?S1 = 2" unfolding u1(3) by (simp add: empty_store_def)
  then have c2: "contents sample_store = [((fst (make_node (s_tree ?S1) (sample_labels ''cpu'') DATATYPE_UINT 7))\<lparr>m_addr := 0\<rparr>, Some 401), (?n1, Some 160)]"
    unfolding sample_store_def u2(2) using sd by (simp add: series_upsert_def c1 full_store_def)
  show "map digest (contents sample_store) = [([Some ''cpu''], 7, Some 401), ([Some ''up''], 1, Some 160)]"
    unfolding c2 by (simp add: sample_digest)
qed

section \<open>Histories of the store\<close>

text \<open>The sort plan grows when a new label name appears; the tree keeps its shape.\<close>

definition grow_plan :: "nat \<Rightarrow> store \<Rightarrow> store" where
  "grow_plan p S = S\<lparr>s_tree := (s_tree S)\<lparr>mt_plan := max p (mt_plan (s_tree S))\<rparr>\<rparr>"

definition fits :: "store \<Rightarrow> bool" where
  "fits S \<longleftrightarrow> (\<forall>s \<in> set (contents S). length (m_labels (fst s)) \<le> mt_plan (s_tree S))"

inductive store_step :: "store \<Rightarrow> store \<Rightarrow> bool" where
  step_grow: "store_step S (grow_plan p S)"
| step_upsert: "length lab \<le> mt_plan (s_tree S) \<Longrightarrow>
     metric_upsert dadd wall S lab type val ttl add False = Inr (r, S') \<Longrightarrow> store_step S S'"
| step_delete: "metric_delete wall S lab = Some (ok, S') \<Longrightarrow> store_step S S'"
| step_purge: "0 < key \<Longrightarrow> expire_purge wall key S = Some (orphans, S') \<Longrightarrow> store_step S S'"

inductive_cases store_step_cases: "store_step S S'"

definition history_inv :: "nat \<Rightarrow> store \<Rightarrow> bool" where
  "history_inv cap S \<longleftrightarrow> store_inv S \<and> fits S \<and> s_max_series S = cap \<and> (cap > 0 \<longrightarrow> length (contents S) \<le> cap)"

lemma contents_grow: "contents (grow_plan p S) = contents S"
  by (simp add: contents_def series_def grow_plan_def)

lemma grow_ok:
  assumes "store_inv S" "fits S"
  shows "store_inv (grow_plan p S)" "fits (grow_plan p S)"
proof -
  let ?T = "s_tree S" and ?p = "max p (mt_plan (s_tree S))"
  have len: "length (m_labels n) \<le> mt_plan ?T" if "n \<in> set (inorder (mt_root ?T))" for n
    using assms(2) that by (auto simp: fits_def contents_def series_def)
  have "label_sorted (mt_plan ?T) (inorder (mt_root ?T))" using assms(1) by (simp add: store_inv_def store_ok_def tree_ok_def)
  then have "label_sorted ?p (inorder (mt_root ?T))"
    unfolding label_sorted_def
  proof (rule sorted_wrt_mono_rel [rotated])
    fix y z assume "y \<in> set (inorder (mt_root ?T))" "z \<in> set (inorder (mt_root ?T))"
      "labels_cmp (mt_plan ?T) (m_labels y) (m_labels z) < 0"
    then show "labels_cmp ?p (m_labels y) (m_labels z) < 0"
      using labels_cmp_extend [OF len len, of y z "?p - mt_plan ?T"] by simp
  qed
  then show "store_inv (grow_plan p S)"
    using assms(1) by (simp add: store_inv_def store_ok_def tree_ok_def grow_plan_def)
  have "mt_plan ?T \<le> mt_plan (s_tree (grow_plan p S))" by (simp add: grow_plan_def)
  then show "fits (grow_plan p S)" using assms(2) unfolding fits_def contents_grow by (meson order_trans)
qed

lemma series_upsert_length:
  "\<not> full_store S \<Longrightarrow> s_max_series S > 0 \<Longrightarrow> length (contents S) \<le> s_max_series S \<Longrightarrow>
   length (series_upsert dadd wall S lab type val ttl add False) \<le> s_max_series S"
  "full_store S \<Longrightarrow> length (series_upsert dadd wall S lab type val ttl add False) = length (contents S)"
  using sum_length_filter_compl [of "\<lambda>s. side S lab s > 0" "contents S"]
  by (simp_all add: series_upsert_def full_store_def)

lemma series_upsert_fits:
  assumes "fits S" "length lab \<le> mt_plan (s_tree S)" "s \<in> set (series_upsert dadd wall S lab type val ttl add bypass)"
  shows "length (m_labels (fst s)) \<le> mt_plan (s_tree S)"
proof -
  have "length (m_labels (fst (make_node (s_tree S) lab type val))) = length lab"
    using make_node_simps(2) [of "s_tree S" lab type val] map_eq_imp_length_eq by blast
  then show ?thesis
    using assms by (auto simp: series_upsert_def fits_def split: if_splits)
qed

lemma delete_plan: "metric_delete_inner wall T lab W = Some (b, T', W') \<Longrightarrow> mt_plan T' = mt_plan T"
  by (auto simp: metric_delete_inner_def Let_def split: if_splits option.splits rbt.splits)

lemma purge_round_plan: "purge_round wall key drain T W a = Some (b, T', W') \<Longrightarrow> mt_plan T' = mt_plan T"
  using delete_plan by (auto simp: purge_round_def split: if_splits option.splits bool.splits)

lemma purge_loop_plan: "purge_loop guard wall key drain T W orph = Some (g, o', T', W') \<Longrightarrow> mt_plan T' = mt_plan T"
proof (induction guard arbitrary: T W orph)
  case 0
  then show ?case by (subst (asm) purge_loop.simps) (auto split: list.splits)
next
  case (Suc guard)
  show ?case
  proof (cases "et_due W")
    case Nil
    then show ?thesis using Suc.prems by (subst (asm) purge_loop.simps) simp
  next
    case (Cons a as)
    obtain b T1 W1 where r: "purge_round wall key drain T W a = Some (b, T1, W1)"
      "purge_loop guard wall key drain T1 W1 (if b then Suc orph else orph) = Some (g, o', T', W')"
      using Suc.prems Cons by (subst (asm) (2) purge_loop.simps) (auto split: option.splits)
    then show ?thesis using Suc.IH [OF r(2)] purge_round_plan [OF r(1)] by simp
  qed
qed

lemma purge_passes_plan: "purge_passes fuel guard wall key drain T W orph = Some (o', T', W') \<Longrightarrow> mt_plan T' = mt_plan T"
  by (induction fuel arbitrary: guard T W orph)
    (auto simp: purge_loop_plan split: option.splits if_splits dest: purge_loop_plan)

lemma history_keep:
  assumes "history_inv cap S" "store_inv S'" "mt_plan (s_tree S') = mt_plan (s_tree S)" "s_max_series S' = s_max_series S"
    "set (contents S') \<subseteq> set (contents S)" "length (contents S') \<le> length (contents S)"
  shows "history_inv cap S'"
  using assms by (auto simp: history_inv_def fits_def)

lemma history_upsert:
  assumes inv: "history_inv cap S" and lab: "length lab \<le> mt_plan (s_tree S)"
    and run: "metric_upsert dadd wall S lab type val ttl add False = Inr (r, S')"
  shows "history_inv cap S'"
proof -
  have i: "store_inv S" "fits S" "s_max_series S = cap" "cap > 0 \<longrightarrow> length (contents S) \<le> cap"
    using inv by (auto simp: history_inv_def)
  have u: "store_inv S'" "contents S' = series_upsert dadd wall S lab type val ttl add False" "s_max_series S' = cap"
    using metric_upsert_ok [OF i(1), of dadd wall lab type val ttl add False] run i(3) by auto
  have "fits S'"
    using series_upsert_fits [OF i(2) lab, of _ dadd wall type val ttl add False] upsert_plan [OF run]
    by (simp add: fits_def u(2))
  moreover have "cap > 0 \<longrightarrow> length (contents S') \<le> cap"
    using series_upsert_length [of S dadd wall lab type val ttl add] i(3,4) unfolding u(2) by (cases "full_store S") auto
  ultimately show ?thesis using u by (simp add: history_inv_def)
qed

lemma history_delete:
  assumes inv: "history_inv cap S" and run: "metric_delete wall S lab = Some (ok, S')"
  shows "history_inv cap S'"
proof -
  have i: "store_inv S" using inv by (simp add: history_inv_def)
  have d: "store_inv S'" "contents S' = filter (\<lambda>s. side S lab s \<noteq> 0) (contents S)" "s_max_series S' = s_max_series S"
    using metric_delete_ok [OF i, of wall lab] run by auto
  have "mt_plan (s_tree S') = mt_plan (s_tree S)" using run delete_plan by (auto simp: metric_delete_def)
  then show ?thesis using d by (intro history_keep [OF inv]) auto
qed

lemma history_purge:
  assumes inv: "history_inv cap S" and key: "0 < key" and run: "expire_purge wall key S = Some (orphans, S')"
  shows "history_inv cap S'"
proof -
  have i: "store_inv S" using inv by (simp add: history_inv_def)
  have "mt_plan (s_tree S') = mt_plan (s_tree S)"
    using run by (auto simp: expire_purge_def Let_def simp del: purge_passes.simps dest: purge_passes_plan split: option.splits)
  moreover have "store_inv S' \<and> s_max_series S' = s_max_series S \<and> set (contents S') \<subseteq> set (contents S) \<and>
      length (contents S') \<le> length (contents S)"
    using expire_purge_full_ok [OF i, of wall] expire_purge_timed_ok [OF i key, of wall] run
    by (cases "key = INT64_MAX") auto
  ultimately show ?thesis by (intro history_keep [OF inv]) auto
qed

lemma history_grow: "history_inv cap S \<Longrightarrow> history_inv cap (grow_plan p S)"
  unfolding history_inv_def contents_grow using grow_ok [of S p] by (simp add: grow_plan_def)

lemma history_step: "store_step S S' \<Longrightarrow> history_inv cap S \<Longrightarrow> history_inv cap S'"
  by (elim store_step_cases) (blast intro: history_grow history_upsert history_delete history_purge)+

lemma history_empty: "history_inv cap (empty_store cap)"
  by (simp add: history_inv_def empty_store_ok fits_def) (simp add: empty_store_def)

lemma history_reach: "store_step\<^sup>*\<^sup>* (empty_store cap) S \<Longrightarrow> history_inv cap S"
  by (induction rule: rtranclp_induct) (simp_all add: history_empty history_step)

lemma contents_sorted:
  "store_inv S \<Longrightarrow> sorted_wrt (\<lambda>s t. labels_cmp (mt_plan (s_tree S)) (m_labels (fst s)) (m_labels (fst t)) < 0) (contents S)"
  by (simp add: store_inv_def store_ok_def tree_ok_def label_sorted_def contents_def series_def sorted_wrt_map)

section \<open>Properties\<close>



text \<open>
  C11: \<open>metric_delete\<close> removes exactly the series with the given labels, reports whether there
  was one, and keeps the other series with their values and expiries even when the red-black deletion
  moves a node's content into another node.
\<close>

theorem metric_delete_removes_series:
  assumes "store_inv S"
  shows "\<exists>S'. metric_delete wall S lab = Some ((\<exists>s \<in> set (contents S). side S lab s = 0), S') \<and> store_inv S' \<and>
     contents S' = filter (\<lambda>s. side S lab s \<noteq> 0) (contents S)"
  using metric_delete_ok [OF assms, of wall lab] by blast

theorem metric_delete_removes_series_witness:
  "\<exists>S'. metric_delete 150 (empty_store 0) (sample_labels ''up'') = Some (False, S') \<and> contents S' = [] \<and>
     (\<exists>S''. metric_delete 150 sample_store [] =
        Some ((\<exists>s \<in> set (contents sample_store). side sample_store [] s = 0), S'') \<and> store_inv S'')"
  using metric_delete_removes_series [OF empty_store_ok(1), of 150 0 "sample_labels ''up''"]
    metric_delete_removes_series [OF sample_ok(1), of 150 "[]"] by (auto simp: empty_store_ok)

text \<open>
  C6: a timed purge returns, finds no orphan, and leaves exactly the series whose expiry is after the
  purge time, unchanged and in order.  Its guard never cuts it short.
\<close>

theorem expire_purge_timed_correct:
  assumes "store_inv S" and "0 < key" and "key \<noteq> INT64_MAX"
  shows "\<exists>S'. expire_purge wall key S = Some (0, S') \<and> store_inv S' \<and> contents S' = filter (live key) (contents S)"
  using expire_purge_timed_ok [OF assms, of wall] by blast

theorem expire_purge_timed_correct_witness:
  "\<exists>S'. expire_purge 200 200 sample_store = Some (0, S') \<and> map digest (contents S') = [([Some ''cpu''], 7, Some 401)]"
proof -
  have "map digest (filter (live 200) (contents sample_store)) =
      filter (\<lambda>d. case snd (snd d) of None \<Rightarrow> False | Some k \<Rightarrow> k > 200) (map digest (contents sample_store))"
    by (simp add: filter_map comp_def live_def digest_def cong: filter_cong)
  also have "\<dots> = [([Some ''cpu''], 7, Some 401)]" unfolding sample_ok(2) by simp
  finally have "map digest (filter (live 200) (contents sample_store)) = [([Some ''cpu''], 7, Some 401)]" .
  then show ?thesis
    using expire_purge_timed_correct [OF sample_ok(1), of 200 200] by (auto simp: INT64_MAX_def)
qed

text \<open>
  C15: the full purge (\<open>key = INT64_MAX\<close>) terminates and empties the store: the passes of its
  outer loop end because every pass deletes a series, and the guard is large enough for all of them.
\<close>

theorem expire_purge_full_empties:
  assumes "store_inv S"
  shows "\<exists>S'. expire_purge wall INT64_MAX S = Some (0, S') \<and> store_inv S' \<and> contents S' = []"
  using expire_purge_full_ok [OF assms, of wall] by blast

theorem expire_purge_full_empties_witness:
  "\<exists>S'. expire_purge 200 INT64_MAX sample_store = Some (0, S') \<and> contents S' = []"
  using expire_purge_full_empties [OF sample_ok(1), of 200] by blast

text \<open>
  In every history of writes, deletions, purges and growth of the sort plan from an empty namespace,
  the tree, the wheel and their links stay consistent, the series stay strictly ordered by their labels
  (so no series is stored twice), and a cap on the number of series is never exceeded.
\<close>

theorem store_history_safe:
  assumes "store_step\<^sup>*\<^sup>* (empty_store cap) S"
  shows "store_inv S \<and>
     sorted_wrt (\<lambda>s t. labels_cmp (mt_plan (s_tree S)) (m_labels (fst s)) (m_labels (fst t)) < 0) (contents S) \<and>
     (cap > 0 \<longrightarrow> length (contents S) \<le> cap)"
  using history_reach [OF assms] contents_sorted [of S] by (simp add: history_inv_def)

theorem store_history_safe_witness:
  "\<exists>S. store_step\<^sup>*\<^sup>* (empty_store 1) S \<and> contents S \<noteq> [] \<and> length (contents S) \<le> 1"
proof -
  obtain r S where u: "metric_upsert (+) 100 (empty_store 1) (sample_labels ''up'') DATATYPE_UINT 1 60 False False = Inr (r, S)"
    "contents S = series_upsert (+) 100 (empty_store 1) (sample_labels ''up'') DATATYPE_UINT 1 60 False False"
    using metric_upsert_ok [OF empty_store_ok(1)] by blast
  then have "store_step (empty_store 1) S"
    by (intro step_upsert [OF _ u(1)]) (simp add: sample_labels_def empty_store_def)
  moreover have "contents S \<noteq> []" unfolding u(2) by (simp add: series_upsert_def empty_store_ok full_store_def) (simp add: empty_store_def)
  ultimately show ?thesis using store_history_safe [of 1 S] by auto
qed

end
