(* ===== verification/Metric_Query.thy ===== *)
theory Metric_Query
  imports Metric_Store "HOL-Library.Multiset"
begin

text \<open>
  Queries over the series of a namespace (\<open>src/src/metric/metrictree.c\<close>, \<open>src/src/metric/labels.c\<close>): the
  selection of the series that match a name and labels, with the search tree cut where the name cannot
  occur, the grouping of the selected values, and the series a query writes.

  Doubles are the values of a type \<open>'d\<close>; conversion to double and the arithmetic on doubles are the
  fields of the argument \<open>fp\<close>.  A compiled regular expression is the set of names it accepts, as a
  function.  A table of groups is the list of its entries in the order of their insertion.  Dereferencing
  NULL is the value \<open>None\<close>.  The text a serializer writes for a series is left out: the series it is
  given are the result.
\<close>

section \<open>Query contexts\<close>

record 'd fp_ops =
  fp_i :: "64 word \<Rightarrow> 'd"
  fp_u :: "64 word \<Rightarrow> 'd"
  fp_d :: "64 word \<Rightarrow> 'd"
  fp_zero :: 'd
  fp_add :: "'d \<Rightarrow> 'd \<Rightarrow> 'd"
  fp_div :: "'d \<Rightarrow> 'd \<Rightarrow> 'd"
  fp_less :: "'d \<Rightarrow> 'd \<Rightarrow> bool"
  fp_equal :: "'d \<Rightarrow> 'd \<Rightarrow> bool"

definition QUERY_FUNC_NONE :: nat where "QUERY_FUNC_NONE = 0"
definition QUERY_FUNC_COUNT :: nat where "QUERY_FUNC_COUNT = 1"
definition QUERY_FUNC_SUM :: nat where "QUERY_FUNC_SUM = 2"
definition QUERY_FUNC_MIN :: nat where "QUERY_FUNC_MIN = 3"
definition QUERY_FUNC_AVG :: nat where "QUERY_FUNC_AVG = 4"
definition QUERY_FUNC_MAX :: nat where "QUERY_FUNC_MAX = 5"
definition QUERY_FUNC_ABSENT :: nat where "QUERY_FUNC_ABSENT = 8"
definition QUERY_FUNC_PRESENT :: nat where "QUERY_FUNC_PRESENT = 9"

definition QUERY_OPERATOR_EQ :: nat where "QUERY_OPERATOR_EQ = 1"
definition QUERY_OPERATOR_NE :: nat where "QUERY_OPERATOR_NE = 2"
definition QUERY_OPERATOR_GT :: nat where "QUERY_OPERATOR_GT = 3"
definition QUERY_OPERATOR_LT :: nat where "QUERY_OPERATOR_LT = 4"
definition QUERY_OPERATOR_GE :: nat where "QUERY_OPERATOR_GE = 5"
definition QUERY_OPERATOR_LE :: nat where "QUERY_OPERATOR_LE = 6"

record 'd metric_query_context =
  q_func :: nat
  q_groupkey :: "string option"
  q_lbl :: "label_hash option"
  q_name :: "string option"
  q_name_re :: "(string \<Rightarrow> bool) option"
  q_name_re_neg :: bool
  q_name_re_invalid :: bool
  q_op :: nat
  q_opval :: 'd

section \<open>Selection\<close>

text \<open>\<open>labels && labels->key_len\<close>\<close>

definition has_name :: "chain \<Rightarrow> bool" where
  "has_name labels \<longleftrightarrow> labels \<noteq> [] \<and> l_key_len (hd labels) \<noteq> 0"

definition metrictree_query_name_ok :: "chain \<Rightarrow> chain \<Rightarrow> 'd metric_query_context \<Rightarrow> bool option" where
  "metrictree_query_name_ok node_labels query_labels mqc =
     (if q_name_re_invalid mqc then Some False
      else case q_name_re mqc of
        Some re \<Rightarrow>
          (let n = (case head_key node_labels of Some k \<Rightarrow> k | None \<Rightarrow> []);
               matched = re n
           in Some (if q_name_re_neg mqc then \<not> matched else matched))
      | None \<Rightarrow>
          (if \<not> has_name query_labels then Some True
           else map_option (\<lambda>rc. rc = 0) (metric_name_match node_labels query_labels)))"

definition metrictree_query_uses_regex :: "'d metric_query_context \<Rightarrow> bool" where
  "metrictree_query_uses_regex mqc \<longleftrightarrow> q_name_re mqc \<noteq> None \<or> q_name_re_invalid mqc"

definition metric_selector_match :: "nat \<Rightarrow> chain \<Rightarrow> chain \<Rightarrow> nat \<Rightarrow> 'd metric_query_context \<Rightarrow> bool option" where
  "metric_selector_match sort_plan node_labels query_labels labels_count mqc =
     (if node_labels = [] \<or> query_labels = [] then Some False
      else case metrictree_query_name_ok node_labels query_labels mqc of
        None \<Rightarrow> None
      | Some ok \<Rightarrow> Some (ok \<and> labels_match sort_plan node_labels query_labels labels_count = 0))"

section \<open>Groups\<close>

record 'd query_struct =
  qs_metric_name :: "string option"
  qs_key :: string
  qs_val :: 'd
  qs_lastvar :: 'd
  qs_equal_hits :: nat
  qs_unequal_hits :: nat
  qs_min :: 'd
  qs_max :: 'd
  qs_lbl :: "label_hash option"
  qs_count :: nat

text \<open>The token at the start of the text, its copy in a buffer of 255 bytes and what follows it.\<close>

definition labels_groupkey_token :: "string \<Rightarrow> nat \<times> string" where
  "labels_groupkey_token s =
     (let tok = takeWhile (\<lambda>c. c \<noteq> CHR 0x00 \<and> c \<noteq> CHR '','') s
      in (length tok, take 254 tok))"

definition after_token :: "nat \<Rightarrow> string \<Rightarrow> string" where
  "after_token j s = (case drop j s of c # cs \<Rightarrow> if c = CHR '','' then cs else c # cs | [] \<Rightarrow> [])"

lemma after_token_shorter: "s \<noteq> [] \<Longrightarrow> 0 < j \<Longrightarrow> length (after_token j s) < length s"
  using length_drop [of j s] by (auto simp: after_token_def split: list.split if_splits simp del: length_drop)

definition key_text :: "labels_t \<Rightarrow> string" where
  "key_text l = (case l_key l of Some k \<Rightarrow> take (l_key_len l) k | None \<Rightarrow> [])"

function groupkey_loop :: "chain \<Rightarrow> string \<Rightarrow> string \<Rightarrow> string" where
  "groupkey_loop labels_list s label =
     (if s = [] then label
      else let (j, tmp) = labels_groupkey_token s;
               label = label @ concat (map (\<lambda>cur. key_text cur @ '', '') (filter (\<lambda>cur. l_name cur = tmp) labels_list))
           in if j = 0 then label else groupkey_loop labels_list (after_token j s) label)"
  by pat_completeness auto

termination groupkey_loop
  by (relation "measure (\<lambda>(ls, s, label). length s)") (auto simp: after_token_shorter)

definition labels_to_groupkey :: "chain \<Rightarrow> string option \<Rightarrow> string" where
  "labels_to_groupkey labels_list groupkey =
     (case groupkey of None \<Rightarrow> [] | Some s \<Rightarrow> if s = [] then [] else groupkey_loop labels_list s [])"

text \<open>The table of labels is made when the first label is found.\<close>

definition hash_found :: "label_hash option \<Rightarrow> labels_t \<Rightarrow> label_hash option" where
  "hash_found lbl cur =
     Some (labels_hash_insert_nocache (case lbl of None \<Rightarrow> [] | Some h \<Rightarrow> h) (Some (l_name cur)) (l_key cur))"

function hash_loop :: "chain \<Rightarrow> string \<Rightarrow> label_hash option \<Rightarrow> label_hash option" where
  "hash_loop labels_list s lbl =
     (if s = [] then lbl
      else let (j, tmp) = labels_groupkey_token s;
               lbl = foldl hash_found lbl (filter (\<lambda>cur. l_name cur = tmp) labels_list)
           in if j = 0 then lbl else hash_loop labels_list (after_token j s) lbl)"
  by pat_completeness auto

termination hash_loop
  by (relation "measure (\<lambda>(ls, s, lbl). length s)") (auto simp: after_token_shorter)

declare groupkey_loop.simps [simp del] hash_loop.simps [simp del]

definition labels_to_hash :: "chain \<Rightarrow> string option \<Rightarrow> label_hash option" where
  "labels_to_hash labels_list groupkey =
     (case groupkey of None \<Rightarrow> None | Some s \<Rightarrow> if s = [] then None else hash_loop labels_list s None)"

text \<open>The value of a series as a double, by its type.\<close>

definition node_value :: "'d fp_ops \<Rightarrow> metric_node \<Rightarrow> 'd option" where
  "node_value fp x =
     (if m_type x = DATATYPE_INT then Some (fp_i fp (m_u x))
      else if m_type x = DATATYPE_UINT then Some (fp_u fp (m_u x))
      else if m_type x = DATATYPE_DOUBLE then Some (fp_d fp (m_u x))
      else None)"

definition gen_value :: "'d fp_ops \<Rightarrow> 'd \<Rightarrow> 'd \<Rightarrow> 'd query_struct \<Rightarrow> 'd query_struct" where
  "gen_value fp opval v qs =
     qs\<lparr>qs_val := fp_add fp (qs_val qs) v,
        qs_lastvar := v,
        qs_equal_hits := qs_equal_hits qs + (if fp_equal fp opval v then 1 else 0),
        qs_unequal_hits := qs_unequal_hits qs + (if fp_equal fp opval v then 0 else 1),
        qs_min := (if qs_count qs = 1 then v else if fp_less fp v (qs_min qs) then v else qs_min qs),
        qs_max := (if qs_count qs = 1 then v else if fp_less fp (qs_max qs) v then v else qs_max qs)\<rparr>"

definition labels_gen_metric ::
    "'d fp_ops \<Rightarrow> string option \<Rightarrow> 'd \<Rightarrow> metric_node \<Rightarrow> 'd query_struct list \<Rightarrow> 'd query_struct list" where
  "labels_gen_metric fp groupkey opval x res_hash =
     (if m_labels x = [] then res_hash
      else let key = labels_to_groupkey (m_labels x) groupkey;
               res1 = (if find (\<lambda>qs. qs_key qs = key) res_hash = None
                       then res_hash @
                         [\<lparr>qs_metric_name = head_key (m_labels x), qs_key = key, qs_val = fp_zero fp,
                           qs_lastvar = fp_zero fp, qs_equal_hits = 0, qs_unequal_hits = 0, qs_min = fp_zero fp,
                           qs_max = fp_zero fp, qs_lbl = labels_to_hash (m_labels x) groupkey, qs_count = 1\<rparr>]
                       else map (\<lambda>qs. if qs_key qs = key then qs\<lparr>qs_count := qs_count qs + 1\<rparr> else qs) res_hash)
           in case node_value fp x of
                None \<Rightarrow> res1
              | Some v \<Rightarrow> map (\<lambda>qs. if qs_key qs = key then gen_value fp opval v qs else qs) res1)"

section \<open>Walks over the tree\<close>

fun metrictree_gen_scan ::
    "'d fp_ops \<Rightarrow> nat \<Rightarrow> chain \<Rightarrow> string option \<Rightarrow> nat \<Rightarrow> 'd \<Rightarrow> 'd metric_query_context \<Rightarrow>
     metric_node rbt \<Rightarrow> 'd query_struct list \<Rightarrow> 'd query_struct list option" where
  "metrictree_gen_scan fp sort_plan labels groupkey labels_count opval mqc Leaf hash = Some hash"
| "metrictree_gen_scan fp sort_plan labels groupkey labels_count opval mqc (Node k l x r) hash =
     (let match = (labels_match sort_plan (m_labels x) labels labels_count = 0);
          gen = labels_gen_metric fp groupkey opval x
      in if metrictree_query_uses_regex mqc
         then (case metrictree_query_name_ok (m_labels x) labels mqc of
                 None \<Rightarrow> None
               | Some ok \<Rightarrow> Option.bind (metrictree_gen_scan fp sort_plan labels groupkey labels_count opval mqc l (if ok \<and> match then gen hash else hash))
                   (\<lambda>hash. metrictree_gen_scan fp sort_plan labels groupkey labels_count opval mqc r hash))
         else (case (if has_name labels then metric_name_match (m_labels x) labels else Some 0) of
                 None \<Rightarrow> None
               | Some rc \<Rightarrow>
                   (let hash = (if (\<not> has_name labels \<or> rc = 0) \<and> match then gen hash else hash)
                    in if has_name labels
                       then if rc > 0 then metrictree_gen_scan fp sort_plan labels groupkey labels_count opval mqc l hash
                            else if rc < 0 then metrictree_gen_scan fp sort_plan labels groupkey labels_count opval mqc r hash
                            else Option.bind (metrictree_gen_scan fp sort_plan labels groupkey labels_count opval mqc l hash)
                              (\<lambda>hash. metrictree_gen_scan fp sort_plan labels groupkey labels_count opval mqc r hash)
                       else Option.bind (metrictree_gen_scan fp sort_plan labels groupkey labels_count opval mqc l hash)
                              (\<lambda>hash. metrictree_gen_scan fp sort_plan labels groupkey labels_count opval mqc r hash))))"

fun gen_descend ::
    "'d fp_ops \<Rightarrow> nat \<Rightarrow> chain \<Rightarrow> string option \<Rightarrow> nat \<Rightarrow> 'd \<Rightarrow> 'd metric_query_context \<Rightarrow>
     metric_node rbt \<Rightarrow> 'd query_struct list \<Rightarrow> 'd query_struct list option" where
  "gen_descend fp sort_plan labels groupkey labels_count opval mqc Leaf hash = Some hash"
| "gen_descend fp sort_plan labels groupkey labels_count opval mqc (Node k l x r) hash =
     (case metric_name_match (m_labels x) labels of
        None \<Rightarrow> None
      | Some rc1 \<Rightarrow>
          (if rc1 > 0 then gen_descend fp sort_plan labels groupkey labels_count opval mqc l hash
           else if rc1 < 0 then gen_descend fp sort_plan labels groupkey labels_count opval mqc r hash
           else let scan = metrictree_gen_scan fp sort_plan labels groupkey labels_count opval mqc;
                    hash = (if labels_match sort_plan (m_labels x) labels labels_count = 0
                            then labels_gen_metric fp groupkey opval x hash else hash)
                in Option.bind (scan l hash) (scan r)))"

definition metrictree_gen ::
    "'d fp_ops \<Rightarrow> metric_tree \<Rightarrow> chain \<Rightarrow> string option \<Rightarrow> nat \<Rightarrow> 'd \<Rightarrow> 'd metric_query_context \<Rightarrow>
     'd query_struct list \<Rightarrow> 'd query_struct list option" where
  "metrictree_gen fp tree labels groupkey labels_count opval mqc hash =
     (if metrictree_query_uses_regex mqc
      then if \<not> q_name_re_invalid mqc
           then metrictree_gen_scan fp (mt_plan tree) labels groupkey labels_count opval mqc (mt_root tree) hash
           else Some hash
      else gen_descend fp (mt_plan tree) labels groupkey labels_count opval mqc (mt_root tree) hash)"

text \<open>The stack of \<open>metrictree_serialize_query_node\<close>, its top first, and the nodes serialized so far.\<close>

function serialize_loop ::
    "nat \<Rightarrow> chain \<Rightarrow> nat \<Rightarrow> 'd metric_query_context \<Rightarrow> metric_node rbt list \<Rightarrow> metric_node list \<Rightarrow> metric_node list option" where
  "serialize_loop sort_plan labels labels_count mqc [] sc = Some sc"
| "serialize_loop sort_plan labels labels_count mqc (Leaf # stack) sc = None"
| "serialize_loop sort_plan labels labels_count mqc (Node k l n r # stack) sc =
     (let by_name = (\<not> metrictree_query_uses_regex mqc \<and> has_name labels)
      in case (if by_name then metric_name_match (m_labels n) labels else Some 0) of
           None \<Rightarrow> None
         | Some rc \<Rightarrow>
             (case metrictree_query_name_ok (m_labels n) labels mqc of
                None \<Rightarrow> None
              | Some ok \<Rightarrow>
                  (let sc = (if ok \<and> labels_match sort_plan (m_labels n) labels labels_count = 0 then sc @ [n] else sc);
                       visit_right = \<not> (by_name \<and> rc > 0);
                       visit_left = \<not> (by_name \<and> \<not> rc > 0 \<and> rc < 0);
                       stack = (if visit_right \<and> r \<noteq> Leaf then r # stack else stack);
                       stack = (if visit_left \<and> l \<noteq> Leaf then l # stack else stack)
                   in serialize_loop sort_plan labels labels_count mqc stack sc)))"
  by pat_completeness auto

termination serialize_loop
  by (relation "measure (\<lambda>(p, ls, c, mqc, stack, sc). sum_list (map size stack))") auto

definition metrictree_serialize_query_node ::
    "nat \<Rightarrow> chain \<Rightarrow> nat \<Rightarrow> 'd metric_query_context \<Rightarrow> metric_node rbt \<Rightarrow> metric_node list \<Rightarrow> metric_node list option" where
  "metrictree_serialize_query_node sort_plan labels labels_count mqc x sc =
     (if x = Leaf then Some sc else serialize_loop sort_plan labels labels_count mqc [x] sc)"

fun serialize_descend ::
    "nat \<Rightarrow> chain \<Rightarrow> nat \<Rightarrow> 'd metric_query_context \<Rightarrow> metric_node rbt \<Rightarrow> metric_node list \<Rightarrow> metric_node list option" where
  "serialize_descend sort_plan labels labels_count mqc Leaf sc = Some sc"
| "serialize_descend sort_plan labels labels_count mqc (Node k l x r) sc =
     (case metric_name_match (m_labels x) labels of
        None \<Rightarrow> None
      | Some rc1 \<Rightarrow>
          (if rc1 > 0 then serialize_descend sort_plan labels labels_count mqc l sc
           else if rc1 < 0 then serialize_descend sort_plan labels labels_count mqc r sc
           else let node = metrictree_serialize_query_node sort_plan labels labels_count mqc;
                    sc = (if labels_match sort_plan (m_labels x) labels labels_count = 0 then sc @ [x] else sc)
                in Option.bind (node l sc) (node r)))"

definition metrictree_serialize_query ::
    "metric_tree \<Rightarrow> chain \<Rightarrow> nat \<Rightarrow> 'd metric_query_context \<Rightarrow> metric_node list option" where
  "metrictree_serialize_query tree labels labels_count mqc =
     (if metrictree_query_uses_regex mqc
      then if \<not> q_name_re_invalid mqc
           then metrictree_serialize_query_node (mt_plan tree) labels labels_count mqc (mt_root tree) []
           else Some []
      else serialize_descend (mt_plan tree) labels labels_count mqc (mt_root tree) [])"

section \<open>Results of a query\<close>

definition query_struct_check_expr :: "'d fp_ops \<Rightarrow> nat \<Rightarrow> 'd \<Rightarrow> 'd \<Rightarrow> bool" where
  "query_struct_check_expr fp op val opval =
     (if op = 0 then True
      else if op = QUERY_OPERATOR_EQ then fp_equal fp val opval
      else if op = QUERY_OPERATOR_NE then \<not> fp_equal fp val opval
      else if op = QUERY_OPERATOR_GT then fp_less fp opval val
      else if op = QUERY_OPERATOR_LT then fp_less fp val opval
      else if op = QUERY_OPERATOR_GE then fp_less fp opval val \<or> fp_equal fp val opval
      else if op = QUERY_OPERATOR_LE then fp_less fp val opval \<or> fp_equal fp val opval
      else False)"

definition query_struct_check_expr_none :: "'d fp_ops \<Rightarrow> 'd metric_query_context \<Rightarrow> 'd query_struct \<Rightarrow> bool" where
  "query_struct_check_expr_none fp mqc qs =
     (if q_op mqc = 0 then True
      else if q_op mqc = QUERY_OPERATOR_EQ then qs_equal_hits qs > 0
      else if q_op mqc = QUERY_OPERATOR_NE then qs_unequal_hits qs > 0
      else if q_op mqc = QUERY_OPERATOR_GT then fp_less fp (q_opval mqc) (qs_max qs)
      else if q_op mqc = QUERY_OPERATOR_LT then fp_less fp (qs_min qs) (q_opval mqc)
      else if q_op mqc = QUERY_OPERATOR_GE then fp_less fp (q_opval mqc) (qs_max qs) \<or> fp_equal fp (qs_max qs) (q_opval mqc)
      else if q_op mqc = QUERY_OPERATOR_LE then fp_less fp (qs_min qs) (q_opval mqc)
      else False)"

text \<open>
  What a query writes: a call of \<open>metric_add\<close> with the name, the labels and the value, or the series
  that \<open>metric_query_gen\<close> itself puts into the namespace.
\<close>

datatype 'd query_value = Uint nat | Double 'd

datatype 'd query_write = Metric_add string "label_hash option" "'d query_value" | Series_upsert chain nat

text \<open>The callbacks give the writes of a group and whether the action has to run.\<close>

definition metric_gen_foreach_avg :: "'d fp_ops \<Rightarrow> 'd metric_query_context \<Rightarrow> string \<Rightarrow> 'd query_struct \<Rightarrow> 'd query_write list \<times> bool" where
  "metric_gen_foreach_avg fp mqc name qs =
     ([Metric_add name (qs_lbl qs) (Double (fp_div fp (qs_val qs) (fp_u fp (of_nat (qs_count qs)))))], False)"

definition metric_gen_foreach_min :: "'d fp_ops \<Rightarrow> 'd metric_query_context \<Rightarrow> string \<Rightarrow> 'd query_struct \<Rightarrow> 'd query_write list \<times> bool" where
  "metric_gen_foreach_min fp mqc name qs =
     (if query_struct_check_expr fp (q_op mqc) (qs_min qs) (q_opval mqc)
      then ([Metric_add name (qs_lbl qs) (Double (qs_min qs))], True) else ([], False))"

definition metric_gen_foreach_max :: "'d fp_ops \<Rightarrow> 'd metric_query_context \<Rightarrow> string \<Rightarrow> 'd query_struct \<Rightarrow> 'd query_write list \<times> bool" where
  "metric_gen_foreach_max fp mqc name qs =
     (if query_struct_check_expr fp (q_op mqc) (qs_max qs) (q_opval mqc)
      then ([Metric_add name (qs_lbl qs) (Double (qs_max qs))], True) else ([], False))"

definition metric_gen_foreach_sum :: "'d fp_ops \<Rightarrow> 'd metric_query_context \<Rightarrow> string \<Rightarrow> 'd query_struct \<Rightarrow> 'd query_write list \<times> bool" where
  "metric_gen_foreach_sum fp mqc name qs =
     (if query_struct_check_expr fp (q_op mqc) (qs_val qs) (q_opval mqc)
      then ([Metric_add name (qs_lbl qs) (Double (qs_val qs))], True) else ([], False))"

definition metric_gen_foreach_count :: "'d fp_ops \<Rightarrow> 'd metric_query_context \<Rightarrow> string \<Rightarrow> 'd query_struct \<Rightarrow> 'd query_write list \<times> bool" where
  "metric_gen_foreach_count fp mqc name qs =
     (if query_struct_check_expr fp (q_op mqc) (fp_u fp (of_nat (qs_count qs))) (q_opval mqc)
      then let lbl = (case q_lbl mqc of
                        Some (l # ls) \<Rightarrow>
                          (case qs_lbl qs of
                             None \<Rightarrow> Some (labels_merge [] (l # ls))
                           | Some [] \<Rightarrow> Some (labels_merge [] (l # ls))
                           | Some h \<Rightarrow> Some h)
                      | _ \<Rightarrow> qs_lbl qs)
           in ([Metric_add name lbl (Uint (qs_count qs))], True)
      else ([], False))"

definition metric_gen_foreach_none :: "'d fp_ops \<Rightarrow> 'd metric_query_context \<Rightarrow> string \<Rightarrow> 'd query_struct \<Rightarrow> 'd query_write list \<times> bool" where
  "metric_gen_foreach_none fp mqc name qs =
     (if query_struct_check_expr_none fp mqc qs
      then ([Metric_add name (qs_lbl qs) (Uint (qs_count qs))], True) else ([], False))"

definition foreach_group ::
    "('d query_struct \<Rightarrow> 'd query_write list \<times> bool) \<Rightarrow> 'd query_struct list \<Rightarrow> 'd query_write list \<times> bool" where
  "foreach_group f res_hash = (concat (map (\<lambda>qs. fst (f qs)) res_hash), list_ex (\<lambda>qs. snd (f qs)) res_hash)"

definition labels_dup :: "label_hash \<Rightarrow> label_hash" where
  "labels_dup labels = foldl (\<lambda>rlbl (n, k). labels_hash_insert_nocache rlbl (Some n) (Some k)) [] labels"

text \<open>The callback that a function of the query language selects for the groups of a result.\<close>

definition group_callback :: "nat \<Rightarrow> ('d fp_ops \<Rightarrow> 'd metric_query_context \<Rightarrow> string \<Rightarrow> 'd query_struct \<Rightarrow> 'd query_write list \<times> bool) option" where
  "group_callback func =
     (if func = QUERY_FUNC_COUNT then Some metric_gen_foreach_count
      else if func = QUERY_FUNC_SUM then Some metric_gen_foreach_sum
      else if func = QUERY_FUNC_MIN then Some metric_gen_foreach_min
      else if func = QUERY_FUNC_MAX then Some metric_gen_foreach_max
      else if func = QUERY_FUNC_AVG then Some metric_gen_foreach_avg
      else if func = QUERY_FUNC_NONE then Some metric_gen_foreach_none
      else None)"

text \<open>
  \<open>metric_query_gen\<close> on the tree and the plan of the namespace.  The result is the writes, whether an action
  that exists (\<open>an\<close>) runs, and the plan, which the labels of the query may extend.
\<close>

definition metric_query_gen ::
    "'d fp_ops \<Rightarrow> metric_tree \<Rightarrow> string list \<Rightarrow> 'd metric_query_context \<Rightarrow> string \<Rightarrow> bool \<Rightarrow>
     ('d query_write list \<times> bool \<times> string list) option" where
  "metric_query_gen fp tree plan mqc new_name an =
     (let hash_work = (case q_lbl mqc of Some h \<Rightarrow> labels_dup h | None \<Rightarrow> []);
          labels_count = length hash_work;
          (labels_list, plan) = labels_initiate plan hash_work (q_name mqc) False
      in if mt_root tree = Leaf then Some ([], False, plan)
         else case metrictree_gen fp (tree\<lparr>mt_plan := length plan\<rparr>) labels_list (q_groupkey mqc) labels_count (q_opval mqc) mqc [] of
           None \<Rightarrow> None
         | Some res_hash \<Rightarrow>
             (let labels_list = (hd labels_list)\<lparr>l_key := Some new_name, l_key_len := length new_name\<rparr> # tl labels_list;
                  func = q_func mqc;
                  value = (if res_hash \<noteq> [] \<and> func = QUERY_FUNC_PRESENT then (if length res_hash > 0 then 1 else 0)
                           else if res_hash \<noteq> [] \<and> func = QUERY_FUNC_ABSENT then (if length res_hash > 0 then 0 else 1)
                           else 0)
              in case (if res_hash \<noteq> [] then group_callback func else None) of
                   Some f \<Rightarrow>
                     (let (writes, need_run) = foreach_group (f fp mqc new_name) res_hash
                      in Some (writes, need_run \<and> an, plan))
                 | None \<Rightarrow>
                     (if res_hash = [] \<and> func = QUERY_FUNC_COUNT
                      then Some ([Metric_add new_name (Some (labels_dup (case q_lbl mqc of Some h \<Rightarrow> h | None \<Rightarrow> []))) (Uint 0)], False, plan)
                      else if \<not> query_struct_check_expr fp (q_op mqc) (fp_u fp (of_nat value)) (q_opval mqc)
                      then Some ([], False, plan)
                      else Some ([Series_upsert labels_list value], False, plan))))"

section \<open>What a walk visits\<close>

text \<open>
  The nodes a walk hits, in the order of its visits: \<open>rc\<close> compares the name of a node with the name of
  the query and cuts the tree, \<open>P\<close> is the test of a node with the name.
\<close>

fun hits :: "(metric_node \<Rightarrow> int) \<Rightarrow> (metric_node \<Rightarrow> bool) \<Rightarrow> metric_node rbt \<Rightarrow> metric_node list" where
  "hits rc P Leaf = []"
| "hits rc P (Node k l x r) =
     (if rc x = 0 \<and> P x then [x] else []) @ (if rc x \<ge> 0 then hits rc P l else []) @ (if rc x \<le> 0 then hits rc P r else [])"

definition cut_sorted :: "(metric_node \<Rightarrow> int) \<Rightarrow> metric_node list \<Rightarrow> bool" where
  "cut_sorted rc xs \<longleftrightarrow> sorted_wrt (\<lambda>y z. (rc y > 0 \<longrightarrow> rc z > 0) \<and> (rc z < 0 \<longrightarrow> rc y < 0)) xs"

lemma hits_complete:
  assumes "cut_sorted rc (inorder t)"
  shows "mset (hits rc P t) = mset (filter (\<lambda>x. rc x = 0 \<and> P x) (inorder t))"
  using assms
proof (induction t)
  case (Node k l x r)
  have s: "cut_sorted rc (inorder l)" "cut_sorted rc (inorder r)"
    "\<forall>y \<in> set (inorder l). rc x < 0 \<longrightarrow> rc y < 0" "\<forall>z \<in> set (inorder r). rc x > 0 \<longrightarrow> rc z > 0"
    using Node.prems by (auto simp: cut_sorted_def sorted_wrt_append)
  have "filter (\<lambda>x. rc x = 0 \<and> P x) (inorder l) = []" if "rc x < 0"
    using that s(3) by (auto simp: filter_empty_conv)
  moreover have "filter (\<lambda>x. rc x = 0 \<and> P x) (inorder r) = []" if "rc x > 0"
    using that s(4) by (auto simp: filter_empty_conv)
  ultimately show ?case using Node.IH s(1,2) by (auto simp del: mset_filter)
qed simp

text \<open>The comparison and the test of a query; the walks agree with them on trees whose series have names.\<close>

definition query_rc :: "chain \<Rightarrow> 'd metric_query_context \<Rightarrow> metric_node \<Rightarrow> int" where
  "query_rc q mqc x =
     (if metrictree_query_uses_regex mqc \<or> \<not> has_name q then 0
      else case metric_name_match (m_labels x) q of Some rc \<Rightarrow> rc | None \<Rightarrow> 0)"

definition query_test :: "nat \<Rightarrow> chain \<Rightarrow> nat \<Rightarrow> 'd metric_query_context \<Rightarrow> metric_node \<Rightarrow> bool" where
  "query_test plan q cnt mqc x \<longleftrightarrow>
     (metrictree_query_uses_regex mqc \<longrightarrow> metrictree_query_name_ok (m_labels x) q mqc = Some True) \<and>
     labels_match plan (m_labels x) q cnt = 0"

definition selector_ok :: "chain \<Rightarrow> bool" where
  "selector_ok q \<longleftrightarrow> q \<noteq> [] \<and> (l_key_len (hd q) \<noteq> 0 \<longleftrightarrow> l_key (hd q) \<noteq> None)"

definition named :: "metric_node \<Rightarrow> bool" where
  "named x \<longleftrightarrow> head_key (m_labels x) \<noteq> None"

lemma named_labels: "named x \<Longrightarrow> m_labels x \<noteq> []"
  by (auto simp: named_def)

lemma name_match_named:
  assumes "selector_ok q" "named x"
  shows "metric_name_match (m_labels x) q =
    Some (if has_name q then strcmp (the (head_key (m_labels x))) (the (head_key q)) else 0)"
  using assms by (cases "m_labels x"; cases q) (auto simp: metric_name_match_def selector_ok_def named_def has_name_def)

lemma name_match_rc:
  assumes "selector_ok q" "named x" "\<not> metrictree_query_uses_regex mqc"
  shows "metric_name_match (m_labels x) q = Some (query_rc q mqc x)"
  using name_match_named [OF assms(1,2)] assms(3) by (simp add: query_rc_def)

lemma name_ok_regex:
  assumes "metrictree_query_uses_regex mqc"
  shows "metrictree_query_name_ok ls q mqc \<noteq> None"
  using assms by (auto simp: metrictree_query_uses_regex_def metrictree_query_name_ok_def Let_def)

lemma name_ok_plain:
  assumes "selector_ok q" "named x" "\<not> metrictree_query_uses_regex mqc"
  shows "metrictree_query_name_ok (m_labels x) q mqc = Some (query_rc q mqc x = 0)"
proof (cases "has_name q")
  case True
  then show ?thesis using assms(3) name_match_rc [OF assms]
    by (simp add: metrictree_query_name_ok_def metrictree_query_uses_regex_def)
next
  case False
  then show ?thesis using assms(3)
    by (simp add: metrictree_query_name_ok_def metrictree_query_uses_regex_def query_rc_def)
qed

lemma selector_match_iff:
  assumes "selector_ok q" "named x"
  shows "metric_selector_match plan (m_labels x) q cnt mqc = Some (query_rc q mqc x = 0 \<and> query_test plan q cnt mqc x)"
proof (cases "metrictree_query_uses_regex mqc")
  case True
  then show ?thesis using name_ok_regex [OF True, of "m_labels x" q] assms named_labels [OF assms(2)]
    by (auto simp: metric_selector_match_def query_rc_def query_test_def selector_ok_def)
next
  case False
  then show ?thesis using name_ok_plain [OF assms False] named_labels [OF assms(2)] assms(1)
    by (simp add: metric_selector_match_def query_test_def selector_ok_def)
qed

lemma gen_scan_hits:
  assumes "selector_ok q" "\<forall>x \<in> set (inorder t). named x"
  shows "metrictree_gen_scan fp plan q gk cnt opval mqc t hash =
    Some (fold (labels_gen_metric fp gk opval) (hits (query_rc q mqc) (query_test plan q cnt mqc) t) hash)"
  using assms(2)
proof (induction t arbitrary: hash)
  case (Node k l x r)
  have x: "named x" using Node.prems by simp
  show ?case
  proof (cases "metrictree_query_uses_regex mqc")
    case True
    obtain ok where ok: "metrictree_query_name_ok (m_labels x) q mqc = Some ok" using name_ok_regex [OF True] by fast
    have "query_rc q mqc y = 0" for y using True by (simp add: query_rc_def)
    then show ?thesis using Node True ok by (auto simp: Let_def query_test_def)
  next
    case False
    show ?thesis
    proof (cases "has_name q")
      case True
      then show ?thesis using Node False name_match_rc [OF assms(1) x False]
        by (auto simp: Let_def query_test_def)
    next
      case f: False
      then have "query_rc q mqc y = 0" for y by (simp add: query_rc_def)
      then show ?thesis using Node False f by (auto simp: Let_def query_test_def)
    qed
  qed
qed simp

lemma test_plain:
  "\<not> metrictree_query_uses_regex mqc \<Longrightarrow> query_test plan q cnt mqc x \<longleftrightarrow> labels_match plan (m_labels x) q cnt = 0"
  by (simp add: query_test_def)

lemma gen_descend_hits:
  assumes "selector_ok q" "\<forall>x \<in> set (inorder t). named x" "\<not> metrictree_query_uses_regex mqc"
  shows "gen_descend fp plan q gk cnt opval mqc t hash =
    Some (fold (labels_gen_metric fp gk opval) (hits (query_rc q mqc) (query_test plan q cnt mqc) t) hash)"
  using assms(2)
proof (induction t)
  case (Node k l x r)
  then have "\<forall>x \<in> set (inorder l). named x" "\<forall>x \<in> set (inorder r). named x" "named x" by auto
  then show ?case
    using Node.IH name_match_rc [OF assms(1) _ assms(3), of x] gen_scan_hits [OF assms(1), of l fp plan gk cnt opval mqc]
      gen_scan_hits [OF assms(1), of r fp plan gk cnt opval mqc] test_plain [OF assms(3), of plan q cnt x]
    by (auto simp: Let_def)
qed simp

lemma serialize_loop_tree:
  assumes "selector_ok q" "t \<noteq> Leaf" "\<forall>x \<in> set (inorder t). named x"
  shows "serialize_loop plan q cnt mqc (t # stack) sc =
    serialize_loop plan q cnt mqc stack (sc @ hits (query_rc q mqc) (query_test plan q cnt mqc) t)"
  using assms(2,3)
proof (induction t arbitrary: stack sc)
  case (Node k l n r)
  let ?rc = "query_rc q mqc" and ?P = "query_test plan q cnt mqc" and ?loop = "serialize_loop plan q cnt mqc"
  let ?by = "\<not> metrictree_query_uses_regex mqc \<and> has_name q"
  have n: "named n" using Node.prems by simp
  obtain ok where ok: "metrictree_query_name_ok (m_labels n) q mqc = Some ok"
      "ok \<and> labels_match plan (m_labels n) q cnt = 0 \<longleftrightarrow> ?rc n = 0 \<and> ?P n"
    using selector_match_iff [OF assms(1) n, of plan cnt mqc] assms(1) named_labels [OF n]
    by (auto simp: metric_selector_match_def selector_ok_def split: option.splits if_splits)
  have plain: "\<not> ?by \<Longrightarrow> ?rc n = 0" by (auto simp: query_rc_def)
  have rc: "(if ?by then metric_name_match (m_labels n) q else Some 0) = Some (?rc n)"
    using name_match_rc [OF assms(1) n] plain by auto
  have l: "?loop (if v \<and> l \<noteq> Leaf then l # st else st) s = ?loop st (s @ (if v then hits ?rc ?P l else []))" for v st s
    using Node.IH(1) Node.prems by (cases "l = Leaf") auto
  have r: "?loop (if v \<and> r \<noteq> Leaf then r # st else st) s = ?loop st (s @ (if v then hits ?rc ?P r else []))" for v st s
    using Node.IH(2) Node.prems by (cases "r = Leaf") auto
  have v: "\<not> (?by \<and> ?rc n > 0) \<longleftrightarrow> ?rc n \<le> 0" "\<not> (?by \<and> \<not> ?rc n > 0 \<and> ?rc n < 0) \<longleftrightarrow> ?rc n \<ge> 0"
    using plain by linarith+
  show ?case
    unfolding serialize_loop.simps(3) Let_def rc ok option.case l r v hits.simps append_assoc [symmetric]
    by (simp only: if_distrib [of "\<lambda>xs. sc @ xs"] append_Nil2)
qed simp

lemma serialize_node_hits:
  assumes "selector_ok q" "\<forall>x \<in> set (inorder t). named x"
  shows "metrictree_serialize_query_node plan q cnt mqc t sc = Some (sc @ hits (query_rc q mqc) (query_test plan q cnt mqc) t)"
  using serialize_loop_tree [OF assms(1) _ assms(2), of plan cnt mqc "[]" sc]
  by (cases "t = Leaf") (auto simp: metrictree_serialize_query_node_def)

lemma serialize_descend_hits:
  assumes "selector_ok q" "\<forall>x \<in> set (inorder t). named x" "\<not> metrictree_query_uses_regex mqc"
  shows "serialize_descend plan q cnt mqc t sc = Some (sc @ hits (query_rc q mqc) (query_test plan q cnt mqc) t)"
  using assms(2)
proof (induction t)
  case (Node k l x r)
  then have "\<forall>x \<in> set (inorder l). named x" "\<forall>x \<in> set (inorder r). named x" "named x" by auto
  then show ?case
    using Node.IH name_match_rc [OF assms(1) _ assms(3), of x] serialize_node_hits [OF assms(1), of l plan cnt mqc]
      serialize_node_hits [OF assms(1), of r plan cnt mqc] test_plain [OF assms(3), of plan q cnt x]
    by (auto simp: Let_def)
qed simp

lemma labels_cmp_names:
  assumes "labels_cmp plan a b < 0" "0 < plan" "head_key a = Some m" "head_key b = Some n"
  shows "strcmp m n \<le> 0"
  using assms by (cases plan) (auto simp: labels_cmp_Suc strcmp.cmp_refl split: if_splits)

lemma query_cut_sorted:
  assumes "label_sorted plan xs" "0 < plan" "selector_ok q" "\<forall>x \<in> set xs. named x"
  shows "cut_sorted (query_rc q mqc) xs"
proof (cases "metrictree_query_uses_regex mqc \<or> \<not> has_name q")
  case True
  then have "query_rc q mqc = (\<lambda>_. 0)" by (auto simp: query_rc_def)
  then show ?thesis by (simp add: cut_sorted_def)
next
  case False
  define n where "n = the (head_key q)"
  have rc: "query_rc q mqc x = strcmp (the (head_key (m_labels x))) n" if "x \<in> set xs" for x
    using False name_match_named [OF assms(3), of x] assms(4) that by (simp add: query_rc_def n_def)
  show ?thesis unfolding cut_sorted_def
  proof (rule sorted_wrt_mono_rel [OF _ assms(1) [unfolded label_sorted_def]])
    fix y z assume yz: "y \<in> set xs" "z \<in> set xs" "labels_cmp plan (m_labels y) (m_labels z) < 0"
    let ?y = "the (head_key (m_labels y))" and ?z = "the (head_key (m_labels z))"
    have "strcmp ?y ?z \<le> 0" using labels_cmp_names [OF yz(3) assms(2)] assms(4) yz(1,2) by (auto simp: named_def)
    then show "(query_rc q mqc y > 0 \<longrightarrow> query_rc q mqc z > 0) \<and> (query_rc q mqc z < 0 \<longrightarrow> query_rc q mqc y < 0)"
      using rc yz(1,2) strcmp.cmp_le_less_trans [of ?y ?z n] strcmp.cmp_less_le_trans [of n ?y ?z]
        strcmp.cmp_gt_iff [of ?y n] strcmp.cmp_gt_iff [of ?z n] by simp
  qed
qed

text \<open>The series a query selects, by the test of a single series.\<close>

definition selected :: "metric_tree \<Rightarrow> chain \<Rightarrow> nat \<Rightarrow> 'd metric_query_context \<Rightarrow> metric_node list" where
  "selected T q cnt mqc =
     filter (\<lambda>x. metric_selector_match (mt_plan T) (m_labels x) q cnt mqc = Some True) (inorder (mt_root T))"

definition queryable :: "metric_tree \<Rightarrow> chain \<Rightarrow> bool" where
  "queryable T q \<longleftrightarrow> tree_ok T \<and> 0 < mt_plan T \<and> selector_ok q \<and> (\<forall>x \<in> set (inorder (mt_root T)). named x)"

lemma query_walks:
  assumes "queryable T q"
  shows "\<exists>ns. metrictree_serialize_query T q cnt mqc = Some ns \<and> mset ns = mset (selected T q cnt mqc) \<and>
    metrictree_gen fp T q gk cnt opval mqc hash = Some (fold (labels_gen_metric fp gk opval) ns hash)"
proof (cases "q_name_re_invalid mqc")
  case True
  then have "selected T q cnt mqc = []"
    by (simp add: selected_def metric_selector_match_def metrictree_query_name_ok_def)
  then show ?thesis using True
    by (simp add: metrictree_serialize_query_def metrictree_gen_def metrictree_query_uses_regex_def)
next
  case False
  let ?ns = "hits (query_rc q mqc) (query_test (mt_plan T) q cnt mqc) (mt_root T)"
  have T: "tree_ok T" "0 < mt_plan T" "selector_ok q" "\<forall>x \<in> set (inorder (mt_root T)). named x"
    using assms by (auto simp: queryable_def)
  have "selected T q cnt mqc = filter (\<lambda>x. query_rc q mqc x = 0 \<and> query_test (mt_plan T) q cnt mqc x) (inorder (mt_root T))"
    unfolding selected_def using T(4) by (intro filter_cong) (auto simp: selector_match_iff [OF T(3)])
  moreover have "cut_sorted (query_rc q mqc) (inorder (mt_root T))"
    using query_cut_sorted [OF _ T(2-4)] T(1) by (simp add: tree_ok_def)
  ultimately have "mset ?ns = mset (selected T q cnt mqc)" using hits_complete by metis
  then show ?thesis
    using False by (auto simp: metrictree_serialize_query_def metrictree_gen_def gen_scan_hits [OF T(3,4)]
      gen_descend_hits [OF T(3,4)] serialize_node_hits [OF T(3,4)] serialize_descend_hits [OF T(3,4)])
qed

section \<open>What a selector means\<close>

lemma constrained_card: "constrained n q = card {i. i < n \<and> key_at q i \<noteq> None}"
proof (induction n arbitrary: q)
  case (Suc n)
  have "{i. i < Suc n \<and> key_at q i \<noteq> None} =
      (if head_key q = None then {} else {0}) \<union> Suc ` {i. i < n \<and> key_at (tl q) i \<noteq> None}"
    by (auto simp: image_iff less_Suc_eq_0_disj)
  then show ?case using Suc by (auto simp: card_image card_insert_if)
qed simp

lemma chain_for_key: "chain_for plan h name q \<Longrightarrow> 0 < i \<Longrightarrow> i < length plan \<Longrightarrow> key_at q i = map_of h (plan ! i)"
  by (simp add: chain_for_def)

lemma constrained_labels:
  assumes "plan_ok plan" "hash_ok h" "chain_for plan h name q"
  shows "constrained (length plan - 1) (tl q) = length h"
proof -
  obtain m ps where plan: "plan = m # ps" using assms(1) by (cases plan) (auto simp: plan_ok_def)
  have ps: "distinct ps" using assms(1) by (simp add: plan plan_ok_def)
  define I where "I = {i. i < length ps \<and> ps ! i \<in> fst ` set h}"
  have "key_at (tl q) i \<noteq> None \<longleftrightarrow> ps ! i \<in> fst ` set h" if "i < length ps" for i
  proof -
    have "key_at (tl q) i = map_of h (ps ! i)" using chain_for_key [OF assms(3), of "Suc i"] that by (simp add: plan)
    then show ?thesis using map_of_eq_None_iff [of h "ps ! i"] by simp
  qed
  then have "{i. i < length ps \<and> key_at (tl q) i \<noteq> None} = I" unfolding I_def by blast
  then have "constrained (length ps) (tl q) = card I" by (simp only: constrained_card)
  moreover have "(!) ps ` I = fst ` set h"
  proof (intro equalityI subsetI)
    fix k assume k: "k \<in> fst ` set h"
    have "fst ` set h \<subseteq> set ps" using assms(3) unfolding chain_for_def plan by simp
    then obtain i where "i < length ps" "ps ! i = k" using k by (meson in_set_conv_nth subsetD)
    then show "k \<in> (!) ps ` I" using k unfolding I_def by blast
  qed (auto simp only: I_def)
  moreover have "inj_on ((!) ps) I" unfolding I_def inj_on_def using ps by (metis (mono_tags, lifting) mem_Collect_eq nth_eq_iff_index_eq)
  ultimately have "constrained (length ps) (tl q) = card (fst ` set h)" by (metis card_image)
  also have "card (fst ` set h) = length h" using assms(2) distinct_card [of "map fst h"] by (simp add: hash_ok_def)
  finally show ?thesis by (simp add: plan)
qed

text \<open>A series has the labels of a selector.\<close>

definition has_labels :: "label_hash \<Rightarrow> label_hash \<Rightarrow> bool" where
  "has_labels h labels \<longleftrightarrow> map_of h \<subseteq>\<^sub>m map_of labels"

lemma chain_constraints:
  assumes "plan_ok plan" "chain_for plan h name q" "chain_for plan hs n c"
  shows "(\<forall>i < length plan. key_at q i \<noteq> None \<longrightarrow> key_at c i = key_at q i) \<longleftrightarrow> (name = None \<or> n = name) \<and> has_labels h hs"
proof -
  have "(\<forall>i. 0 < i \<and> i < length plan \<longrightarrow> key_at q i \<noteq> None \<longrightarrow> key_at c i = key_at q i) \<longleftrightarrow> has_labels h hs"
  proof
    assume l: "\<forall>i. 0 < i \<and> i < length plan \<longrightarrow> key_at q i \<noteq> None \<longrightarrow> key_at c i = key_at q i"
    have "map_of hs k = map_of h k" if k: "k \<in> dom (map_of h)" for k
    proof -
      have "k \<in> set (tl plan)" using k assms(2) by (auto simp: chain_for_def dom_map_of_conv_image_fst)
      then obtain i where i: "0 < i" "i < length plan" "plan ! i = k" using plan_ok_nth [OF assms(1)] by blast
      then show ?thesis using l assms(2,3) k by (auto simp: chain_for_def)
    qed
    then show "has_labels h hs" by (auto simp: has_labels_def map_le_def)
  next
    assume "has_labels h hs"
    then show "\<forall>i. 0 < i \<and> i < length plan \<longrightarrow> key_at q i \<noteq> None \<longrightarrow> key_at c i = key_at q i"
      using assms(2,3) by (auto simp: chain_for_def has_labels_def map_le_def dom_def)
  qed
  moreover have "0 < length plan" using assms(1) by (auto simp: plan_ok_def)
  moreover have "key_at q 0 = name" "key_at c 0 = n" using assms(2,3) by (auto simp: chain_for_def)
  ultimately show ?thesis by (metis gr0I)
qed

lemma labels_match_selector:
  assumes "plan_ok plan" "hash_ok h" "chain_for plan h name q" "selector_ok q" "chain_for plan hs n c"
  shows "labels_match (length plan) c q (length h) = 0 \<longleftrightarrow> h = [] \<or> (name = None \<or> n = name) \<and> has_labels h hs"
proof (cases "h = []")
  case True
  have "labels_match_loop p c q 0 = 0" for p by (cases p) auto
  then show ?thesis using True by (simp add: labels_match_def)
next
  case False
  obtain p where p: "length plan = Suc p" using assms(1) by (cases plan) (auto simp: plan_ok_def)
  have "head_key q = l_key (hd q)" using assms(4) by (cases q) (auto simp: selector_ok_def)
  then have "labels_match (length plan) c q (length h) = 0 \<longleftrightarrow> (\<forall>i < length plan. key_at q i \<noteq> None \<longrightarrow> key_at c i = key_at q i)"
    unfolding labels_match_def p using constrained_labels [OF assms(1-3)] assms(4) False p
    by (intro labels_match_loop_iff) (simp add: selector_ok_def)
  then show ?thesis using chain_constraints [OF assms(1,3,5)] False by simp
qed

definition wanted :: "'d metric_query_context \<Rightarrow> string option \<Rightarrow> string \<Rightarrow> bool" where
  "wanted mqc name n \<longleftrightarrow>
     (if q_name_re_invalid mqc then False
      else case q_name_re mqc of Some re \<Rightarrow> re n \<noteq> q_name_re_neg mqc | None \<Rightarrow> name = None \<or> name = Some n)"

lemma selector_match_meaning:
  fixes x :: metric_node
  assumes "plan_ok plan" "hash_ok h" "chain_for plan h name q" "selector_ok q" "chain_for plan hs (Some n) (m_labels x)"
    and "metrictree_query_uses_regex mqc \<longrightarrow> name = None"
  shows "metric_selector_match (length plan) (m_labels x) q (length h) mqc = Some True \<longleftrightarrow> wanted mqc name n \<and> has_labels h hs"
proof -
  have x: "head_key (m_labels x) = Some n" "named x" using assms(5) by (auto simp: chain_for_def named_def)
  have q: "q \<noteq> []" "head_key q = name" "has_name q \<longleftrightarrow> name \<noteq> None"
    using assms(3,4) by (cases q; auto simp: chain_for_def selector_ok_def has_name_def)+
  have "metrictree_query_name_ok (m_labels x) q mqc = Some (wanted mqc name n)"
  proof (cases "metrictree_query_uses_regex mqc")
    case True
    then show ?thesis using x(1) by (auto simp: metrictree_query_name_ok_def wanted_def metrictree_query_uses_regex_def Let_def)
  next
    case False
    then show ?thesis using name_match_named [OF assms(4) x(2)] q x(1)
      by (auto simp: metrictree_query_name_ok_def wanted_def metrictree_query_uses_regex_def)
  qed
  moreover have "has_labels [] hs" by (simp add: has_labels_def)
  moreover have "wanted mqc name n \<Longrightarrow> name = None \<or> Some n = name"
    using assms(6) by (auto simp: wanted_def metrictree_query_uses_regex_def split: if_splits option.splits)
  ultimately show ?thesis
    using labels_match_selector [OF assms(1-5)] q(1) named_labels [OF x(2)] by (auto simp: metric_selector_match_def)
qed

lemma initiate_head:
  assumes "plan_ok plan" "length plan + length h \<le> SORTPLAN_MAX" "labels_initiate plan h name False = (q, plan')" "name \<noteq> Some []"
  shows "selector_ok q"
proof -
  have p: "plan \<noteq> []" using assms(1) by (auto simp: plan_ok_def)
  have "length plan + length (filter (\<lambda>(n, k). n \<notin> set (tl plan)) h) \<le> SORTPLAN_MAX"
    using assms(2) length_filter_le [of "\<lambda>(n, k). n \<notin> set (tl plan)" h] by linarith
  then have "hd q = \<lparr>l_name = MAIN_METRIC_NAME, l_name_len = MAIN_METRIC_LEN, l_key = name,
                  l_key_len = (case name of None \<Rightarrow> 0 | Some s \<Rightarrow> length s)\<rparr> \<and> q \<noteq> []"
    using assms(3) p by (auto simp: labels_initiate_def Let_def foldl_new_plan_node)
  then show ?thesis using assms(4) by (auto simp: selector_ok_def split: option.splits)
qed

section \<open>Groups of values\<close>

definition gkey :: "string option \<Rightarrow> metric_node \<Rightarrow> string" where
  "gkey gk x = labels_to_groupkey (m_labels x) gk"

text \<open>Comparison of doubles without NaN: a weak order with its equality.\<close>

definition fp_ordered :: "'d fp_ops \<Rightarrow> bool" where
  "fp_ordered fp \<longleftrightarrow> (\<forall>x. \<not> fp_less fp x x) \<and> (\<forall>x y z. \<not> fp_less fp y x \<longrightarrow> \<not> fp_less fp z y \<longrightarrow> \<not> fp_less fp z x) \<and>
     (\<forall>x y. fp_less fp x y \<longrightarrow> \<not> fp_less fp y x) \<and> (\<forall>x y. fp_equal fp x y \<longleftrightarrow> \<not> fp_less fp x y \<and> \<not> fp_less fp y x)"

text \<open>What the entry of a group says about the values of its series, in the order of the visits.\<close>

definition aggregates :: "'d fp_ops \<Rightarrow> 'd \<Rightarrow> 'd list \<Rightarrow> 'd query_struct \<Rightarrow> bool" where
  "aggregates fp opval vs qs \<longleftrightarrow> vs \<noteq> [] \<and> qs_count qs = length vs \<and> qs_val qs = foldl (fp_add fp) (fp_zero fp) vs \<and>
     qs_lastvar qs = last vs \<and> qs_equal_hits qs = length (filter (fp_equal fp opval) vs) \<and>
     qs_unequal_hits qs = length (filter (\<lambda>v. \<not> fp_equal fp opval v) vs) \<and>
     qs_min qs \<in> set vs \<and> (\<forall>v \<in> set vs. \<not> fp_less fp v (qs_min qs)) \<and>
     qs_max qs \<in> set vs \<and> (\<forall>v \<in> set vs. \<not> fp_less fp (qs_max qs) v)"

lemma fp_orderedD:
  assumes "fp_ordered fp"
  shows "\<not> fp_less fp x x" "\<not> fp_less fp y x \<Longrightarrow> \<not> fp_less fp z y \<Longrightarrow> \<not> fp_less fp z x" "fp_less fp x y \<Longrightarrow> \<not> fp_less fp y x"
    "fp_equal fp x y \<longleftrightarrow> \<not> fp_less fp x y \<and> \<not> fp_less fp y x"
  using assms unfolding fp_ordered_def by blast+

lemma gen_value_fields [simp]: "qs_key (gen_value fp opval v qs) = qs_key qs" "qs_count (gen_value fp opval v qs) = qs_count qs"
  by (simp_all add: gen_value_def)

lemma aggregates_first:
  assumes "fp_ordered fp" "qs_val qs = fp_zero fp" "qs_equal_hits qs = 0" "qs_unequal_hits qs = 0" "qs_count qs = 1"
  shows "aggregates fp opval [v] (gen_value fp opval v qs)"
  using assms fp_orderedD(1) [OF assms(1)] by (simp add: aggregates_def gen_value_def)

lemma aggregates_next:
  assumes "fp_ordered fp" "aggregates fp opval vs qs"
  shows "aggregates fp opval (vs @ [v]) (gen_value fp opval v (qs\<lparr>qs_count := qs_count qs + 1\<rparr>))"
proof -
  let ?q = "gen_value fp opval v (qs\<lparr>qs_count := qs_count qs + 1\<rparr>)"
  have a: "vs \<noteq> []" "qs_count qs = length vs" "qs_val qs = foldl (fp_add fp) (fp_zero fp) vs"
    "qs_equal_hits qs = length (filter (fp_equal fp opval) vs)" "qs_unequal_hits qs = length (filter (\<lambda>v. \<not> fp_equal fp opval v) vs)"
    and mn: "qs_min qs \<in> set vs" "\<And>w. w \<in> set vs \<Longrightarrow> \<not> fp_less fp w (qs_min qs)"
    and mx: "qs_max qs \<in> set vs" "\<And>w. w \<in> set vs \<Longrightarrow> \<not> fp_less fp (qs_max qs) w"
    using assms(2) by (auto simp: aggregates_def)
  note o = fp_orderedD [OF assms(1)]
  have q: "qs_min ?q = (if fp_less fp v (qs_min qs) then v else qs_min qs)" "qs_max ?q = (if fp_less fp (qs_max qs) v then v else qs_max qs)"
    using a(1,2) by (simp_all add: gen_value_def)
  have "qs_min ?q \<in> set (vs @ [v])" "qs_max ?q \<in> set (vs @ [v])" unfolding q using mn(1) mx(1) by simp_all
  moreover have "\<not> fp_less fp w (qs_min ?q)" if w: "w \<in> set (vs @ [v])" for w
  proof (cases "fp_less fp v (qs_min qs)")
    case True
    then have "w \<noteq> v \<Longrightarrow> \<not> fp_less fp w v" using o(2) [OF o(3) [OF True] mn(2)] w by simp
    then show ?thesis unfolding q using True o(1) by (cases "w = v") simp_all
  next
    case False
    then show ?thesis unfolding q using mn(2) w by (cases "w = v") simp_all
  qed
  moreover have "\<not> fp_less fp (qs_max ?q) w" if w: "w \<in> set (vs @ [v])" for w
  proof (cases "fp_less fp (qs_max qs) v")
    case True
    then have "w \<noteq> v \<Longrightarrow> \<not> fp_less fp v w" using o(2) [OF mx(2) o(3) [OF True]] w by simp
    then show ?thesis unfolding q using True o(1) by (cases "w = v") simp_all
  next
    case False
    then show ?thesis unfolding q using mx(2) w by (cases "w = v") simp_all
  qed
  ultimately show ?thesis
    unfolding aggregates_def using a by (simp add: gen_value_def)
qed

text \<open>The table of groups after the given series were visited.\<close>

definition members :: "string option \<Rightarrow> string \<Rightarrow> metric_node list \<Rightarrow> metric_node list" where
  "members gk k ns = filter (\<lambda>x. gkey gk x = k) ns"

definition group_ok :: "'d fp_ops \<Rightarrow> string option \<Rightarrow> 'd \<Rightarrow> metric_node list \<Rightarrow> 'd query_struct \<Rightarrow> bool" where
  "group_ok fp gk opval ns qs \<longleftrightarrow>
     (let xs = members gk (qs_key qs) ns
      in aggregates fp opval (map (\<lambda>x. the (node_value fp x)) xs) qs \<and> qs_lbl qs = labels_to_hash (m_labels (hd xs)) gk)"

definition groups_ok :: "'d fp_ops \<Rightarrow> string option \<Rightarrow> 'd \<Rightarrow> metric_node list \<Rightarrow> 'd query_struct list \<Rightarrow> bool" where
  "groups_ok fp gk opval ns res \<longleftrightarrow> distinct (map qs_key res) \<and> qs_key ` set res = gkey gk ` set ns \<and>
     (\<forall>qs \<in> set res. group_ok fp gk opval ns qs)"

definition new_group :: "'d fp_ops \<Rightarrow> string option \<Rightarrow> metric_node \<Rightarrow> 'd query_struct" where
  "new_group fp gk x = \<lparr>qs_metric_name = head_key (m_labels x), qs_key = gkey gk x, qs_val = fp_zero fp,
     qs_lastvar = fp_zero fp, qs_equal_hits = 0, qs_unequal_hits = 0, qs_min = fp_zero fp,
     qs_max = fp_zero fp, qs_lbl = labels_to_hash (m_labels x) gk, qs_count = 1\<rparr>"

lemma gen_new:
  assumes "m_labels x \<noteq> []" "node_value fp x = Some v" "gkey gk x \<notin> qs_key ` set res"
  shows "labels_gen_metric fp gk opval x res = res @ [gen_value fp opval v (new_group fp gk x)]"
proof -
  have ne: "qs_key qs \<noteq> gkey gk x" if "qs \<in> set res" for qs using assms(3) that by (metis image_eqI)
  then have f: "find (\<lambda>qs. qs_key qs = gkey gk x) res = None" by (auto simp: find_None_iff)
  have "map (\<lambda>qs. if qs_key qs = gkey gk x then gen_value fp opval v qs else qs) res = res"
    using ne by (intro map_idI) auto
  then show ?thesis using assms(1,2) f
    by (simp add: labels_gen_metric_def gkey_def [symmetric] new_group_def [symmetric] Let_def) (simp add: new_group_def)
qed

lemma gen_known:
  assumes "m_labels x \<noteq> []" "node_value fp x = Some v" "gkey gk x \<in> qs_key ` set res"
  shows "labels_gen_metric fp gk opval x res =
    map (\<lambda>qs. if qs_key qs = gkey gk x then gen_value fp opval v (qs\<lparr>qs_count := qs_count qs + 1\<rparr>) else qs) res"
proof -
  have f: "find (\<lambda>qs. qs_key qs = gkey gk x) res \<noteq> None" using assms(3) by (auto simp: find_None_iff)
  show ?thesis using assms(1,2) f
    by (auto simp: labels_gen_metric_def gkey_def [symmetric] Let_def)
qed

lemma members_snoc: "members gk k (ns @ [x]) = members gk k ns @ (if gkey gk x = k then [x] else [])"
  by (simp add: members_def)

lemma group_ok_other: "gkey gk x \<noteq> qs_key qs \<Longrightarrow> group_ok fp gk opval (ns @ [x]) qs = group_ok fp gk opval ns qs"
  by (simp add: group_ok_def members_snoc)

lemma groups_step:
  assumes "fp_ordered fp" "groups_ok fp gk opval ns res" "m_labels x \<noteq> []" "node_value fp x = Some v"
  shows "groups_ok fp gk opval (ns @ [x]) (labels_gen_metric fp gk opval x res)"
proof -
  have g: "distinct (map qs_key res)" "qs_key ` set res = gkey gk ` set ns" "\<And>qs. qs \<in> set res \<Longrightarrow> group_ok fp gk opval ns qs"
    using assms(2) by (auto simp: groups_ok_def)
  show ?thesis
  proof (cases "gkey gk x \<in> qs_key ` set res")
    case True
    define f where "f = (\<lambda>qs. if qs_key qs = gkey gk x then gen_value fp opval v (qs\<lparr>qs_count := qs_count qs + 1\<rparr>) else qs)"
    have k: "qs_key (f qs) = qs_key qs" for qs by (simp add: f_def)
    have "group_ok fp gk opval (ns @ [x]) (f qs)" if "qs \<in> set res" for qs
    proof (cases "qs_key qs = gkey gk x")
      case True
      have "members gk (gkey gk x) ns \<noteq> []" using g(3) [OF that] True by (auto simp: group_ok_def aggregates_def Let_def)
      then show ?thesis using True aggregates_next [OF assms(1)] g(3) [OF that] assms(4)
        by (simp add: f_def group_ok_def members_snoc Let_def) (simp add: gen_value_def)
    next
      case False
      then show ?thesis using g(3) [OF that] group_ok_other [of gk x qs] by (simp add: f_def)
    qed
    moreover have "distinct (map qs_key (map f res))" using g(1) k by (simp add: comp_def)
    moreover have "qs_key ` set (map f res) = gkey gk ` set (ns @ [x])" using g(2) True k by (auto simp: image_image)
    ultimately show ?thesis unfolding gen_known [OF assms(3,4) True, of opval, folded f_def] groups_ok_def by simp
  next
    case False
    let ?q = "gen_value fp opval v (new_group fp gk x)"
    have key: "qs_key ?q = gkey gk x" by (simp add: new_group_def)
    have "members gk (gkey gk x) ns = []" using False unfolding g(2) members_def filter_empty_conv by (metis image_eqI)
    moreover have "aggregates fp opval [v] ?q" by (rule aggregates_first [OF assms(1)]) (simp_all add: new_group_def)
    moreover have "qs_lbl ?q = labels_to_hash (m_labels x) gk" by (simp add: gen_value_def new_group_def)
    ultimately have "group_ok fp gk opval (ns @ [x]) ?q" using assms(4) unfolding group_ok_def members_snoc key by simp
    moreover have "group_ok fp gk opval (ns @ [x]) qs" if "qs \<in> set res" for qs
      using g(3) [OF that] group_ok_other [of gk x qs] False that by force
    ultimately show ?thesis using g(1,2) False gen_new [OF assms(3,4) False] key
      by (auto simp: groups_ok_def)
  qed
qed

lemma groups_fold:
  assumes "fp_ordered fp" "\<forall>x \<in> set ns. m_labels x \<noteq> [] \<and> node_value fp x \<noteq> None"
  shows "groups_ok fp gk opval ns (fold (labels_gen_metric fp gk opval) ns [])"
  using assms(2)
proof (induction ns rule: rev_induct)
  case (snoc x ns)
  then obtain v where "node_value fp x = Some v" by auto
  then show ?case using groups_step [OF assms(1)] snoc by simp
qed (simp add: groups_ok_def)

section \<open>Properties of queries\<close>

lemmas query_operators = QUERY_OPERATOR_EQ_def QUERY_OPERATOR_NE_def QUERY_OPERATOR_GT_def QUERY_OPERATOR_LT_def
  QUERY_OPERATOR_GE_def QUERY_OPERATOR_LE_def

lemmas query_functions = QUERY_FUNC_ABSENT_def QUERY_FUNC_COUNT_def QUERY_FUNC_SUM_def QUERY_FUNC_MIN_def QUERY_FUNC_MAX_def
  QUERY_FUNC_AVG_def QUERY_FUNC_NONE_def QUERY_FUNC_PRESENT_def

lemma query_meaning:
  assumes "store_inv S" "plan_ok plan" "mt_plan (s_tree S) = length plan"
    and series: "\<And>x. x \<in> set (inorder (mt_root (s_tree S))) \<Longrightarrow> chain_for plan (lab x) (Some (nm x)) (m_labels x)"
    and sel: "hash_ok h" "length plan + length h \<le> SORTPLAN_MAX" "name \<noteq> Some []" "metrictree_query_uses_regex mqc \<longrightarrow> name = None"
      "labels_initiate plan h name False = (q, plan')"
  defines "T \<equiv> s_tree (grow_plan (length plan') S)"
  shows "queryable T q" "selected T q (length h) mqc = filter (\<lambda>x. wanted mqc name (nm x) \<and> has_labels h (lab x)) (inorder (mt_root (s_tree S)))"
proof -
  let ?xs = "inorder (mt_root (s_tree S))"
  note i = labels_initiate_chain_for [OF assms(2) sel(1,2,5)]
  have q: "selector_ok q" by (rule initiate_head [OF assms(2) sel(2,5,3)])
  obtain extra where extra: "plan' = plan @ extra" using i(2) by (metis append_take_drop_id)
  have c: "chain_for plan' (lab x) (Some (nm x)) (m_labels x)" if "x \<in> set ?xs" for x
    using chain_for_extend [OF series [OF that], of extra] i(1) extra by simp
  have fit: "fits S" using series assms(3) by (auto simp: fits_def contents_def series_def chain_for_def)
  have T: "mt_root T = mt_root (s_tree S)" "mt_plan T = length plan'" using assms(3) extra by (simp_all add: T_def grow_plan_def)
  have "tree_ok T" using grow_ok(1) [OF assms(1) fit, of "length plan'"] by (simp add: T_def store_inv_def store_ok_def)
  moreover have "0 < length plan'" using i(1) by (auto simp: plan_ok_def)
  moreover have "\<forall>x \<in> set ?xs. named x" using c by (auto simp: named_def chain_for_def)
  ultimately show "queryable T q" using q by (simp add: queryable_def T)
  show "selected T q (length h) mqc = filter (\<lambda>x. wanted mqc name (nm x) \<and> has_labels h (lab x)) ?xs"
    unfolding selected_def T using selector_match_meaning [OF i(1) sel(1) i(3) q c sel(4)] by (intro filter_cong) auto
qed

definition sample_query :: "int metric_query_context" where
  "sample_query = \<lparr>q_func = QUERY_FUNC_NONE, q_groupkey = None, q_lbl = None, q_name = Some ''cpu'', q_name_re = None,
     q_name_re_neg = False, q_name_re_invalid = False, q_op = 0, q_opval = 0\<rparr>"

lemma sample_plan: "plan_ok [MAIN_METRIC_NAME]"
  by (simp add: plan_ok_def SORTPLAN_MAX_def)

definition name_of :: "metric_node \<Rightarrow> string" where
  "name_of x = the (head_key (m_labels x))"

text \<open>
  C12: the groups of a query.  Grouping visits the series the serializer is given, in the same order.  There is one
  entry for each group key among them; it has the number of the series of the group, the sum of their values,
  the least and the greatest value, and how many of the values equal the operand.
\<close>

theorem query_groups_series:
  assumes "queryable T q" "fp_ordered fp" "\<forall>x \<in> set (inorder (mt_root T)). node_value fp x \<noteq> None"
  shows "\<exists>ns res. metrictree_serialize_query T q cnt mqc = Some ns \<and> mset ns = mset (selected T q cnt mqc) \<and>
    metrictree_gen fp T q gk cnt opval mqc [] = Some res \<and> groups_ok fp gk opval ns res"
proof -
  obtain ns where ns: "metrictree_serialize_query T q cnt mqc = Some ns" "mset ns = mset (selected T q cnt mqc)"
      "metrictree_gen fp T q gk cnt opval mqc [] = Some (fold (labels_gen_metric fp gk opval) ns [])"
    using query_walks [OF assms(1), of cnt mqc fp gk opval "[]"] by blast
  have "set ns \<subseteq> set (inorder (mt_root T))" using mset_eq_setD [OF ns(2)] by (auto simp: selected_def)
  then have "\<forall>x \<in> set ns. m_labels x \<noteq> [] \<and> node_value fp x \<noteq> None"
    using assms(1,3) named_labels by (auto simp: queryable_def)
  then show ?thesis using groups_fold [OF assms(2)] ns by blast
qed

definition int_fp :: "int fp_ops" where
  "int_fp = \<lparr>fp_i = sint, fp_u = uint, fp_d = uint, fp_zero = 0, fp_add = (+), fp_div = (div), fp_less = (<), fp_equal = (=)\<rparr>"

lemma int_fp_ordered: "fp_ordered int_fp"
  by (auto simp: fp_ordered_def int_fp_def)

definition sample_node :: "nat \<Rightarrow> string \<Rightarrow> string \<Rightarrow> 64 word \<Rightarrow> metric_node" where
  "sample_node a name host v = \<lparr>m_addr = a, m_labels = [plan_node MAIN_METRIC_NAME (Some name), plan_node ''host'' (Some host)],
     m_type = DATATYPE_UINT, m_u = v, m_list_len = 0, m_enabled = 0, m_pbuf = None\<rparr>"

definition sample_tree :: metric_tree where
  "sample_tree = \<lparr>mt_root = Node Black (Node Red Leaf (sample_node 0 ''cpu'' ''a'' 3) Leaf) (sample_node 1 ''cpu'' ''b'' 5)
       (Node Red Leaf (sample_node 2 ''up'' ''a'' 1) Leaf),
     mt_count = 3, mt_plan = 2, mt_words = Map.empty, mt_next = 3\<rparr>"

lemma sample_queryable: "queryable sample_tree [plan_node MAIN_METRIC_NAME (Some ''cpu'')]"
proof -
  have "\<exists>n. rb (mt_root sample_tree) n" by (rule exI [of _ 1]) (simp add: sample_tree_def)
  then show ?thesis
    by (auto simp: queryable_def tree_ok_def sample_tree_def label_sorted_def sample_node_def plan_node_def named_def selector_ok_def
        labels_cmp_Suc numeral_2_eq_2)
qed

theorem query_groups_series_witness:
  "\<exists>ns res. metrictree_gen int_fp sample_tree [plan_node MAIN_METRIC_NAME (Some ''cpu'')] None 0 5 sample_query [] = Some res \<and>
     groups_ok int_fp None 5 ns res \<and> length ns = 2"
proof -
  have "\<forall>x \<in> set (inorder (mt_root sample_tree)). node_value int_fp x \<noteq> None"
    by (auto simp: sample_tree_def sample_node_def node_value_def)
  then obtain ns res where "mset ns = mset (selected sample_tree [plan_node MAIN_METRIC_NAME (Some ''cpu'')] 0 sample_query)"
      "metrictree_gen int_fp sample_tree [plan_node MAIN_METRIC_NAME (Some ''cpu'')] None 0 5 sample_query [] = Some res"
      "groups_ok int_fp None 5 ns res"
    using query_groups_series [OF sample_queryable int_fp_ordered] by blast
  moreover have "length (selected sample_tree [plan_node MAIN_METRIC_NAME (Some ''cpu'')] 0 sample_query) = 2"
    by (simp add: selected_def sample_tree_def sample_node_def plan_node_def metric_selector_match_def sample_query_def
        metrictree_query_name_ok_def has_name_def metric_name_match_def labels_match_def numeral_2_eq_2)
  ultimately show ?thesis using mset_eq_length by metis
qed

text \<open>
  C37: the test of a query without a function.  A group passes exactly when one of its values satisfies the operator,
  except that \<open><=\<close> is tested as \<open><\<close>.
\<close>

theorem query_none_operators:
  assumes "fp_ordered fp" "aggregates fp (q_opval mqc) vs qs" "q_op mqc \<in> {1..6}"
  shows "query_struct_check_expr_none fp mqc qs \<longleftrightarrow>
    (\<exists>v \<in> set vs. if q_op mqc = QUERY_OPERATOR_LE then fp_less fp v (q_opval mqc)
                  else query_struct_check_expr fp (q_op mqc) v (q_opval mqc))"
proof -
  let ?o = "q_opval mqc"
  note o = fp_orderedD [OF assms(1)]
  have hit: "qs_equal_hits qs > 0 \<longleftrightarrow> (\<exists>v \<in> set vs. fp_equal fp v ?o)" "qs_unequal_hits qs > 0 \<longleftrightarrow> (\<exists>v \<in> set vs. \<not> fp_equal fp v ?o)"
    using assms(2) o(4) [of _ ?o] o(4) [of ?o] by (auto simp: aggregates_def filter_empty_conv)
  have mn: "qs_min qs \<in> set vs" "\<And>v. v \<in> set vs \<Longrightarrow> \<not> fp_less fp v (qs_min qs)"
    and mx: "qs_max qs \<in> set vs" "\<And>v. v \<in> set vs \<Longrightarrow> \<not> fp_less fp (qs_max qs) v"
    using assms(2) by (auto simp: aggregates_def)
  have less: "fp_less fp (qs_min qs) ?o \<longleftrightarrow> (\<exists>v \<in> set vs. fp_less fp v ?o)" using mn o(2) by blast
  have greater: "fp_less fp ?o (qs_max qs) \<longleftrightarrow> (\<exists>v \<in> set vs. fp_less fp ?o v)" using mx o(2) by blast
  have ge: "fp_less fp ?o v \<or> fp_equal fp v ?o \<longleftrightarrow> \<not> fp_less fp v ?o" for v using o(3,4) by blast
  have "\<not> fp_less fp (qs_max qs) ?o \<longleftrightarrow> (\<exists>v \<in> set vs. \<not> fp_less fp v ?o)" using mx o(2) by blast
  then have greater_eq: "fp_less fp ?o (qs_max qs) \<or> fp_equal fp (qs_max qs) ?o \<longleftrightarrow> (\<exists>v \<in> set vs. fp_less fp ?o v \<or> fp_equal fp v ?o)"
    unfolding ge .
  consider "q_op mqc = 1" | "q_op mqc = 2" | "q_op mqc = 3" | "q_op mqc = 4" | "q_op mqc = 5" | "q_op mqc = 6" using assms(3) by fastforce
  then show ?thesis
    unfolding query_struct_check_expr_none_def query_struct_check_expr_def query_operators
    by cases (use hit less greater greater_eq in simp_all)
qed

definition le_group :: "int query_struct" where
  "le_group = \<lparr>qs_metric_name = Some ''cpu'', qs_key = [], qs_val = 5, qs_lastvar = 5, qs_equal_hits = 1, qs_unequal_hits = 0,
     qs_min = 5, qs_max = 5, qs_lbl = None, qs_count = 1\<rparr>"

theorem query_none_operators_witness:
  "\<not> query_struct_check_expr_none int_fp (sample_query\<lparr>q_op := 6, q_opval := 5\<rparr>) le_group \<and>
   query_struct_check_expr int_fp 6 5 5"
  using query_none_operators [OF int_fp_ordered, of "sample_query\<lparr>q_op := 6, q_opval := 5\<rparr>" "[5]" le_group]
  by (simp add: aggregates_def le_group_def int_fp_def query_operators query_struct_check_expr_def)



text \<open>
  Two series with the same values of the labels of a group, one created before the other label of the group was known
  and one after it, have different group keys, although the labels of the group are the same: each group is
  written to the same series.
\<close>

lemma group_key_splits:
  "let (c1, p1) = labels_initiate [MAIN_METRIC_NAME] [(''a'', ''x'')] (Some ''m1'') False;
       (c2, p2) = labels_initiate p1 [(''b'', ''y'')] (Some ''m2'') False;
       (c3, p3) = labels_initiate p2 [(''a'', ''x'')] (Some ''m3'') False
   in labels_to_groupkey c1 (Some ''a,b'') = ''x, '' \<and> labels_to_groupkey c3 (Some ''a,b'') = ''x, , '' \<and>
      labels_to_hash c1 (Some ''a,b'') = labels_to_hash c3 (Some ''a,b'')"
  by (simp add: labels_initiate_def labels_new_plan_node_def SORTPLAN_MAX_def plan_node_def labels_to_groupkey_def labels_to_hash_def
      groupkey_loop.simps hash_loop.simps labels_groupkey_token_def after_token_def key_text_def hash_found_def
      labels_hash_insert_nocache_def MAIN_METRIC_NAME_def)

end
