(* ===== verification/C_String.thy ===== *)
theory C_String
  imports Prelude
begin

text \<open>
  The C library functions on strings that the parsers of the program call beyond those of the prelude:
  reading a byte of a string with its terminator, \<open>strtoull\<close>, and decimal printing.  A string is
  the list of its bytes before the NUL; a pointer into a string is the suffix it points at.
\<close>

section \<open>Bytes\<close>

text \<open>\<open>tolower\<close> in the C locale; \<open>strcasecmp\<close> is only compared with 0.\<close>

definition tolower :: "char \<Rightarrow> char" where
  "tolower c = (let n = of_char c :: nat in if 65 \<le> n \<and> n \<le> 90 then char_of (n + 32) else c)"

definition strcasecmp_eq :: "string \<Rightarrow> string \<Rightarrow> bool" where
  "strcasecmp_eq a b \<longleftrightarrow> map tolower a = map tolower b"

text \<open>Byte \<open>i\<close> of a string, the terminator included.\<close>

definition peek :: "string \<Rightarrow> nat \<Rightarrow> char" where
  "peek s i = (if i < length s then s ! i else CHR 0x00)"

text \<open>The value of a character as a digit of a base up to 36.\<close>

definition digit_value :: "char \<Rightarrow> nat" where
  "digit_value c =
     (let n = of_char c :: nat
      in if 48 \<le> n \<and> n \<le> 57 then n - 48
         else if 97 \<le> n \<and> n \<le> 122 then n - 87
         else if 65 \<le> n \<and> n \<le> 90 then n - 55
         else 255)"

section \<open>Numbers\<close>

definition digits_value :: "nat \<Rightarrow> string \<Rightarrow> nat" where
  "digits_value base ds = foldl (\<lambda>n c. n * base + digit_value c) 0 ds"

text \<open>
  \<open>strtoull\<close>: white space, a sign, \<open>0x\<close> in base 16, digits.  The result is the value and
  the pointer to the rest, the start of the string when there is no number.  A value out of range is
  \<open>ULLONG_MAX\<close>; a minus sign negates modulo \<open>2^64\<close>.
\<close>

definition ULLONG_MAX :: nat where "ULLONG_MAX = 18446744073709551615"

definition number_sign :: "string \<Rightarrow> bool \<times> string" where
  "number_sign s = (case s of c # cs \<Rightarrow> if c = CHR ''-'' then (True, cs) else if c = CHR ''+'' then (False, cs) else (False, s)
                    | [] \<Rightarrow> (False, s))"

definition hex_prefix :: "nat \<Rightarrow> string \<Rightarrow> string" where
  "hex_prefix base s =
     (if base = 16 \<and> peek s 0 = CHR ''0'' \<and> peek s 1 \<in> {CHR ''x'', CHR ''X''} \<and> digit_value (peek s 2) < 16
      then drop 2 s else s)"

definition strtoull :: "nat \<Rightarrow> string \<Rightarrow> nat \<times> string" where
  "strtoull base s =
     (let (neg, s1) = number_sign (dropWhile isspace s);
          s2 = hex_prefix base s1;
          ds = takeWhile (\<lambda>c. digit_value c < base) s2;
          v = digits_value base ds
      in if ds = [] then (0, s)
         else (if v > ULLONG_MAX then ULLONG_MAX else if neg then (ULLONG_MAX + 1 - v) mod (ULLONG_MAX + 1) else v,
               drop (length ds) s2))"

text \<open>Decimal printing (\<open>%u\<close>).\<close>

definition digit_char :: "nat \<Rightarrow> char" where
  "digit_char d = char_of (48 + d)"

fun print_dec :: "nat \<Rightarrow> string" where
  "print_dec n = (if n < 10 then [digit_char n] else print_dec (n div 10) @ [digit_char (n mod 10)])"

declare print_dec.simps [simp del]

lemma of_char_digit: "d < 10 \<Longrightarrow> of_char (digit_char d) = (48 + d :: nat)"
  by (simp add: digit_char_def)

lemma digit_value_char: "d < 10 \<Longrightarrow> digit_value (digit_char d) = d"
  by (simp add: digit_value_def of_char_digit Let_def)

lemma digits_value_append: "digits_value b (xs @ [c]) = digits_value b xs * b + digit_value c"
  by (simp add: digits_value_def)

lemma digits_value_dec: "digits_value 10 (print_dec n) = n"
proof (induction n rule: print_dec.induct)
  case (1 n)
  then show ?case
    by (cases "n < 10") (simp_all add: print_dec.simps [of n] digits_value_append digit_value_char,
      simp add: digits_value_def digit_value_char)
qed

lemma print_dec_digits: "c \<in> set (print_dec n) \<Longrightarrow> \<exists>d < 10. c = digit_char d"
proof (induction n rule: print_dec.induct)
  case (1 n)
  show ?case
  proof (cases "n < 10")
    case True
    then show ?thesis using 1(2) by (auto simp: print_dec.simps [of n])
  next
    case False
    then have "c \<in> set (print_dec (n div 10)) \<or> c = digit_char (n mod 10)"
      using 1(2) by (auto simp: print_dec.simps [of n])
    then show ?thesis using 1(1) [OF False] by (auto intro: exI [of _ "n mod 10"])
  qed
qed

lemma print_dec_nonempty [simp]: "print_dec n \<noteq> []"
  by (simp add: print_dec.simps [of n])

lemma digit_char_class:
  assumes "d < 10"
  shows "\<not> isspace (digit_char d)" "digit_char d \<noteq> CHR ''-''" "digit_char d \<noteq> CHR ''+''" "isdigit (digit_char d)"
proof -
  note o = of_char_digit [OF assms]
  show "\<not> isspace (digit_char d)" "isdigit (digit_char d)" using assms by (simp_all add: isspace_def isdigit_def o)
  have "(of_char CHR ''-'' :: nat) = 45" "(of_char CHR ''+'' :: nat) = 43" by simp_all
  then show "digit_char d \<noteq> CHR ''-''" "digit_char d \<noteq> CHR ''+''" using o by auto
qed

lemma print_dec_length: "n < 10 ^ k \<Longrightarrow> 0 < k \<Longrightarrow> length (print_dec n) \<le> k"
proof (induction k arbitrary: n)
  case (Suc k)
  show ?case
  proof (cases "n < 10")
    case False
    then have "0 < k" using Suc.prems(1) by (cases k) auto
    moreover have "n div 10 < 10 ^ k" using Suc.prems(1) by (simp add: less_mult_imp_div_less mult.commute)
    ultimately show ?thesis using Suc.IH [of "n div 10"] False by (simp add: print_dec.simps [of n])
  qed (simp add: print_dec.simps [of n])
qed simp

text \<open>Reading back a printed number that a non-digit follows.\<close>

lemma strtoull_print_dec:
  assumes "n \<le> ULLONG_MAX" and rest: "rest = [] \<or> \<not> digit_value (hd rest) < 10"
  shows "strtoull 10 (print_dec n @ rest) = (n, rest)"
proof -
  let ?p = "print_dec n"
  have d: "\<And>c. c \<in> set ?p \<Longrightarrow> digit_value c < 10" "\<And>c. c \<in> set ?p \<Longrightarrow> \<not> isspace c \<and> c \<noteq> CHR ''-'' \<and> c \<noteq> CHR ''+''"
    using print_dec_digits digit_value_char digit_char_class by metis+
  obtain c cs where p: "?p = c # cs" using print_dec_nonempty [of n] by (cases ?p) auto
  have "dropWhile isspace (?p @ rest) = ?p @ rest" using d(2) p by simp
  moreover have "number_sign (?p @ rest) = (False, ?p @ rest)" using d(2) p by (simp add: number_sign_def)
  moreover have "takeWhile (\<lambda>c. digit_value c < 10) (?p @ rest) = ?p"
    using d(1) rest by (cases rest) auto
  ultimately show ?thesis
    using assms(1) by (simp add: strtoull_def hex_prefix_def digits_value_dec)
qed

end
