(* ===== verification/Jansson.thy ===== *)
theory Jansson
  imports C_String
begin

text \<open>
  The JSON library as the program uses it: the functions it calls on values it does not look into.  The
  library is not part of the program, so the definitions that read a configuration take its functions as
  the argument \<open>J\<close>.
\<close>

text \<open>
  The functions of the JSON library: the member of an object (None: not an object, or no such member), the
  string and the integer a value holds (None: of another type), the elements of an array.
\<close>

record 'j json_ops =
  json_is_object :: "'j \<Rightarrow> bool"
  json_object_get :: "'j \<Rightarrow> string \<Rightarrow> 'j option"
  json_string_value :: "'j \<Rightarrow> string option"
  json_integer_value :: "'j \<Rightarrow> int option"
  json_array_elems :: "'j \<Rightarrow> 'j list option"

text \<open>A data type of JSON values with these functions, for closed examples.\<close>

datatype json = JString string | JInt int | JArray "json list" | JObject "(string \<times> json) list"

definition json_model :: "json json_ops" where
  "json_model = \<lparr>json_is_object = (\<lambda>j. case j of JObject _ \<Rightarrow> True | _ \<Rightarrow> False),
     json_object_get = (\<lambda>j k. case j of JObject ms \<Rightarrow> map_of ms k | _ \<Rightarrow> None),
     json_string_value = (\<lambda>j. case j of JString s \<Rightarrow> Some s | _ \<Rightarrow> None),
     json_integer_value = (\<lambda>j. case j of JInt n \<Rightarrow> Some n | _ \<Rightarrow> None),
     json_array_elems = (\<lambda>j. case j of JArray js \<Rightarrow> Some js | _ \<Rightarrow> None)\<rparr>"

end
