(* ===== verification/Metric_Filter.thy ===== *)
theory Metric_Filter
  imports Jansson Labels
begin

text \<open>
  The filter of a context (\<open>src/src/metric/filter.c\<close>): which samples may enter the store, by their name and
  their labels.  Rules are read from a JSON document; a rule whose regular expression does not compile is
  skipped.

  \<open>pcre_compile\<close> and \<open>pcre_exec\<close> are the argument \<open>compile\<close>: the text of an expression gives None when
  it is refused, else the test of a text.  \<open>json_loads\<close> is the argument \<open>loads\<close>.  Warnings, locks and
  allocation failure are left out.
\<close>

section \<open>Definitions\<close>

type_synonym pcre = "string \<Rightarrow> bool"

record metric_filter_rule =
  fr_metric :: string
  fr_match_regexp :: bool
  fr_re :: "pcre option"

record metric_filter_label_rule =
  fl_label :: string
  fl_value :: "string option"
  fl_match_regexp :: bool
  fl_re :: "pcre option"

record 'j metric_filter =
  mf_include :: "metric_filter_rule list"
  mf_exclude :: "metric_filter_rule list"
  mf_include_label :: "metric_filter_label_rule list"
  mf_exclude_label :: "metric_filter_label_rule list"
  mf_json :: 'j

text \<open>The fields of a context that the filter uses: its own rules, and those of its server context.\<close>

record 'j filter_carg =
  fc_json :: "'j option"
  fc_rules :: "'j metric_filter option"
  fc_srv_rules :: "'j metric_filter option"

definition metric_filter_match_type_is_regexp :: "string \<Rightarrow> bool" where
  "metric_filter_match_type_is_regexp match_type \<longleftrightarrow> strcasecmp_eq match_type ''regexp'' \<or> strcasecmp_eq match_type ''regex''"

definition member_string :: "'j json_ops \<Rightarrow> 'j \<Rightarrow> string \<Rightarrow> string option" where
  "member_string J obj k = Option.bind (json_object_get J obj k) (json_string_value J)"

definition metric_filter_rule_pattern :: "'j json_ops \<Rightarrow> 'j \<Rightarrow> string option" where
  "metric_filter_rule_pattern J rule =
     (if \<not> json_is_object J rule then None
      else case member_string J rule ''metric'' of Some metric \<Rightarrow> Some metric | None \<Rightarrow>
        (case member_string J rule ''name'' of Some metric \<Rightarrow> Some metric | None \<Rightarrow>
          (case member_string J rule ''pattern'' of Some metric \<Rightarrow> Some metric | None \<Rightarrow>
            (case member_string J rule ''include'' of Some metric \<Rightarrow> Some metric | None \<Rightarrow>
              member_string J rule ''exclude''))))"

text \<open>None: the rule is not used.\<close>

definition metric_filter_rule_init :: "(string \<Rightarrow> pcre option) \<Rightarrow> string option \<Rightarrow> string \<Rightarrow> metric_filter_rule option" where
  "metric_filter_rule_init compile metric match_type =
     (case metric of
        None \<Rightarrow> None
      | Some m \<Rightarrow>
          (if m = [] then None
           else if \<not> metric_filter_match_type_is_regexp match_type
           then Some \<lparr>fr_metric = m, fr_match_regexp = False, fr_re = None\<rparr>
           else case compile m of
             None \<Rightarrow> None
           | Some re \<Rightarrow> Some \<lparr>fr_metric = m, fr_match_regexp = True, fr_re = Some re\<rparr>))"

definition metric_filter_label_rule_init ::
    "(string \<Rightarrow> pcre option) \<Rightarrow> string option \<Rightarrow> string option \<Rightarrow> string \<Rightarrow> metric_filter_label_rule option" where
  "metric_filter_label_rule_init compile label val match_type =
     (case label of
        None \<Rightarrow> None
      | Some l \<Rightarrow>
          (if l = [] then None
           else let v = (case val of Some v \<Rightarrow> if v \<noteq> [] then Some v else None | None \<Rightarrow> None);
                    regexp = metric_filter_match_type_is_regexp match_type
                in case v of
                     Some pat \<Rightarrow>
                       (if \<not> regexp then Some \<lparr>fl_label = l, fl_value = Some pat, fl_match_regexp = False, fl_re = None\<rparr>
                        else case compile pat of
                          None \<Rightarrow> None
                        | Some re \<Rightarrow> Some \<lparr>fl_label = l, fl_value = Some pat, fl_match_regexp = True, fl_re = Some re\<rparr>)
                   | None \<Rightarrow> Some \<lparr>fl_label = l, fl_value = None, fl_match_regexp = regexp, fl_re = None\<rparr>))"

definition match_type_of :: "'j json_ops \<Rightarrow> 'j \<Rightarrow> string" where
  "match_type_of J rule = (case member_string J rule ''match_type'' of Some t \<Rightarrow> t | None \<Rightarrow> ''strict'')"

definition metric_filter_load_rules :: "'j json_ops \<Rightarrow> (string \<Rightarrow> pcre option) \<Rightarrow> 'j option \<Rightarrow> metric_filter_rule list" where
  "metric_filter_load_rules J compile arr =
     (case Option.bind arr (json_array_elems J) of
        None \<Rightarrow> []
      | Some rules \<Rightarrow>
          List.map_filter (\<lambda>rule.
            case json_string_value J rule of
              Some s \<Rightarrow> metric_filter_rule_init compile (Some s) ''strict''
            | None \<Rightarrow>
                (if json_is_object J rule
                 then metric_filter_rule_init compile (metric_filter_rule_pattern J rule) (match_type_of J rule)
                 else metric_filter_rule_init compile None ''strict'')) rules)"

definition metric_filter_load_label_rules :: "'j json_ops \<Rightarrow> (string \<Rightarrow> pcre option) \<Rightarrow> 'j option \<Rightarrow> metric_filter_label_rule list" where
  "metric_filter_load_label_rules J compile arr =
     (case Option.bind arr (json_array_elems J) of
        None \<Rightarrow> []
      | Some rules \<Rightarrow>
          List.map_filter (\<lambda>rule.
            if \<not> json_is_object J rule then None
            else metric_filter_label_rule_init compile
                   (case member_string J rule ''label'' of Some l \<Rightarrow> Some l | None \<Rightarrow> member_string J rule ''name'')
                   (member_string J rule ''value'') (match_type_of J rule)) rules)"

definition metric_filter_compile :: "'j json_ops \<Rightarrow> (string \<Rightarrow> pcre option) \<Rightarrow> 'j option \<Rightarrow> 'j metric_filter option" where
  "metric_filter_compile J compile root =
     (case root of
        None \<Rightarrow> None
      | Some r \<Rightarrow>
          (if \<not> json_is_object J r then None
           else let mf = \<lparr>mf_include = metric_filter_load_rules J compile (json_object_get J r ''include''),
                          mf_exclude = metric_filter_load_rules J compile (json_object_get J r ''exclude''),
                          mf_include_label = metric_filter_load_label_rules J compile (json_object_get J r ''include_label''),
                          mf_exclude_label = metric_filter_load_label_rules J compile (json_object_get J r ''exclude_label''),
                          mf_json = r\<rparr>
                in if mf_include mf = [] \<and> mf_exclude mf = [] \<and> mf_include_label mf = [] \<and> mf_exclude_label mf = []
                   then None else Some mf))"

definition metric_filter_dup :: "'j json_ops \<Rightarrow> (string \<Rightarrow> pcre option) \<Rightarrow> 'j metric_filter option \<Rightarrow> 'j metric_filter option" where
  "metric_filter_dup J compile src = (case src of None \<Rightarrow> None | Some mf \<Rightarrow> metric_filter_compile J compile (Some (mf_json mf)))"

text \<open>\<open>metric_transform_match_pattern\<close> (\<open>src/src/metric/transform.c\<close>) with a regular expression.\<close>

definition metric_transform_match_pattern :: "(string \<Rightarrow> pcre option) \<Rightarrow> string option \<Rightarrow> string \<Rightarrow> bool \<Rightarrow> bool" where
  "metric_transform_match_pattern compile val pattern regexp =
     (if pattern = [] then True
      else let v = (case val of Some v \<Rightarrow> v | None \<Rightarrow> [])
           in if \<not> regexp then v = pattern
              else case compile pattern of None \<Rightarrow> False | Some re \<Rightarrow> re v)"

definition metric_filter_rule_matches :: "(string \<Rightarrow> pcre option) \<Rightarrow> metric_filter_rule \<Rightarrow> string option \<Rightarrow> bool" where
  "metric_filter_rule_matches compile r name =
     (if \<not> fr_match_regexp r then name = Some (fr_metric r)
      else case fr_re r of
        Some re \<Rightarrow> re (case name of Some n \<Rightarrow> n | None \<Rightarrow> [])
      | None \<Rightarrow> metric_transform_match_pattern compile name (fr_metric r) True)"

definition metric_filter_value_matches :: "(string \<Rightarrow> pcre option) \<Rightarrow> metric_filter_label_rule \<Rightarrow> string option \<Rightarrow> bool" where
  "metric_filter_value_matches compile r val =
     (case fl_value r of
        None \<Rightarrow> True
      | Some v \<Rightarrow>
          (if \<not> fl_match_regexp r then val = Some v
           else case fl_re r of
             Some re \<Rightarrow> re (case val of Some v \<Rightarrow> v | None \<Rightarrow> [])
           | None \<Rightarrow> metric_transform_match_pattern compile val v True))"

definition metric_filter_labels_lookup :: "label_hash option \<Rightarrow> string \<Rightarrow> string option" where
  "metric_filter_labels_lookup labels name =
     (case labels of None \<Rightarrow> None | Some h \<Rightarrow> if name = [] then None else map_of h name)"

definition metric_filter_label_rule_matches_sample ::
    "(string \<Rightarrow> pcre option) \<Rightarrow> metric_filter_label_rule \<Rightarrow> label_hash option \<Rightarrow> bool" where
  "metric_filter_label_rule_matches_sample compile r labels =
     (case metric_filter_labels_lookup labels (fl_label r) of
        None \<Rightarrow> False
      | Some key \<Rightarrow> metric_filter_value_matches compile r (Some key))"

definition metric_filter_resolve :: "'j filter_carg option \<Rightarrow> 'j metric_filter option" where
  "metric_filter_resolve carg =
     (case carg of
        None \<Rightarrow> None
      | Some c \<Rightarrow> (case fc_rules c of Some mf \<Rightarrow> Some mf | None \<Rightarrow> fc_srv_rules c))"

definition metric_filter_allow :: "(string \<Rightarrow> pcre option) \<Rightarrow> 'j filter_carg option \<Rightarrow> string option \<Rightarrow> label_hash option \<Rightarrow> bool" where
  "metric_filter_allow compile carg name labels =
     (case metric_filter_resolve carg of
        None \<Rightarrow> True
      | Some mf \<Rightarrow>
          (if mf_include mf \<noteq> [] \<and> \<not> list_ex (\<lambda>r. metric_filter_rule_matches compile r name) (mf_include mf) then False
           else if mf_include_label mf \<noteq> [] \<and>
             \<not> list_ex (\<lambda>r. metric_filter_label_rule_matches_sample compile r labels) (mf_include_label mf) then False
           else if list_ex (\<lambda>r. metric_filter_rule_matches compile r name) (mf_exclude mf) then False
           else if list_ex (\<lambda>r. metric_filter_label_rule_matches_sample compile r labels) (mf_exclude_label mf) then False
           else True))"

definition parse_metric_filter ::
    "'j json_ops \<Rightarrow> (string \<Rightarrow> pcre option) \<Rightarrow> (string \<Rightarrow> 'j option) \<Rightarrow> 'j filter_carg \<Rightarrow> 'j option \<Rightarrow> 'j filter_carg" where
  "parse_metric_filter J compile loads carg root =
     (case Option.bind root (\<lambda>r. json_object_get J r ''metric_filter'') of
        None \<Rightarrow> carg
      | Some j \<Rightarrow>
          (case (if json_is_object J j then Some j
                 else case json_string_value J j of
                   Some s \<Rightarrow> (case loads s of Some obj \<Rightarrow> if json_is_object J obj then Some obj else None | None \<Rightarrow> None)
                 | None \<Rightarrow> None) of
             None \<Rightarrow> carg
           | Some parsed \<Rightarrow>
               (case metric_filter_compile J compile (Some parsed) of
                  Some mf \<Rightarrow> carg\<lparr>fc_json := Some parsed, fc_rules := Some mf\<rparr>
                | None \<Rightarrow> carg\<lparr>fc_json := None, fc_rules := None\<rparr>)))"

section \<open>What a document asks for\<close>

text \<open>
  The entries of a member of the document; the pattern of an entry for names, whether it is used, and the names
  it is for; the same for labels.
\<close>

definition entries :: "'j json_ops \<Rightarrow> 'j \<Rightarrow> string \<Rightarrow> 'j list" where
  "entries J doc k = (case Option.bind (json_object_get J doc k) (json_array_elems J) of None \<Rightarrow> [] | Some js \<Rightarrow> js)"

definition name_pattern :: "'j json_ops \<Rightarrow> 'j \<Rightarrow> (bool \<times> string) option" where
  "name_pattern J j =
     (case json_string_value J j of
        Some s \<Rightarrow> if s = [] then None else Some (False, s)
      | None \<Rightarrow>
          (case metric_filter_rule_pattern J j of
             Some p \<Rightarrow> if p = [] then None else Some (metric_filter_match_type_is_regexp (match_type_of J j), p)
           | None \<Rightarrow> None))"

definition pattern_hits :: "(string \<Rightarrow> pcre option) \<Rightarrow> bool \<times> string \<Rightarrow> string \<Rightarrow> bool option" where
  "pattern_hits compile p s = (if fst p then map_option (\<lambda>re. re s) (compile (snd p)) else Some (s = snd p))"

text \<open>None: the entry is not used; else whether it is for the name.\<close>

definition name_entry :: "'j json_ops \<Rightarrow> (string \<Rightarrow> pcre option) \<Rightarrow> string \<Rightarrow> 'j \<Rightarrow> bool option" where
  "name_entry J compile name j = Option.bind (name_pattern J j) (\<lambda>p. pattern_hits compile p name)"

definition label_entry :: "'j json_ops \<Rightarrow> (string \<Rightarrow> pcre option) \<Rightarrow> label_hash \<Rightarrow> 'j \<Rightarrow> bool option" where
  "label_entry J compile labels j =
     (if \<not> json_is_object J j then None
      else case (case member_string J j ''label'' of Some l \<Rightarrow> Some l | None \<Rightarrow> member_string J j ''name'') of
        None \<Rightarrow> None
      | Some l \<Rightarrow>
          (if l = [] then None
           else case member_string J j ''value'' of
             Some (c # cs) \<Rightarrow>
               (case map_of labels l of
                  Some v \<Rightarrow> pattern_hits compile (metric_filter_match_type_is_regexp (match_type_of J j), c # cs) v
                | None \<Rightarrow> map_option (\<lambda>_. False) (pattern_hits compile (metric_filter_match_type_is_regexp (match_type_of J j), c # cs) []))
           | _ \<Rightarrow> Some (map_of labels l \<noteq> None)))"

text \<open>Used entries that include have to have one for the sample; none of those that exclude may.\<close>

definition include_ok :: "bool option list \<Rightarrow> bool" where
  "include_ok es \<longleftrightarrow> (\<exists>b. Some b \<in> set es) \<longrightarrow> Some True \<in> set es"

definition document_allows :: "'j json_ops \<Rightarrow> (string \<Rightarrow> pcre option) \<Rightarrow> 'j \<Rightarrow> string \<Rightarrow> label_hash \<Rightarrow> bool" where
  "document_allows J compile doc name labels \<longleftrightarrow>
     include_ok (map (name_entry J compile name) (entries J doc ''include'')) \<and>
     include_ok (map (label_entry J compile labels) (entries J doc ''include_label'')) \<and>
     Some True \<notin> set (map (name_entry J compile name) (entries J doc ''exclude'')) \<and>
     Some True \<notin> set (map (label_entry J compile labels) (entries J doc ''exclude_label''))"

section \<open>Correctness\<close>

lemma map_filter_tests:
  assumes "\<And>x. map_option m (f x) = e x"
  shows "List.map_filter f xs \<noteq> [] \<longleftrightarrow> (\<exists>b. Some b \<in> set (map e xs))" "list_ex m (List.map_filter f xs) \<longleftrightarrow> Some True \<in> set (map e xs)"
proof -
  have e: "e = (\<lambda>x. map_option m (f x))" using assms by auto
  show "List.map_filter f xs \<noteq> [] \<longleftrightarrow> (\<exists>b. Some b \<in> set (map e xs))"
  proof (induction xs)
    case (Cons x xs)
    then show ?case by (cases "f x") (auto simp: e)
  qed simp
  show "list_ex m (List.map_filter f xs) \<longleftrightarrow> Some True \<in> set (map e xs)"
  proof (induction xs)
    case (Cons x xs)
    then show ?case by (cases "f x") (auto simp: e)
  qed simp
qed

lemma rule_init_matches:
  "map_option (\<lambda>r. metric_filter_rule_matches compile r (Some name)) (metric_filter_rule_init compile metric t) =
     (case metric of Some (c # cs) \<Rightarrow> pattern_hits compile (metric_filter_match_type_is_regexp t, c # cs) name | _ \<Rightarrow> None)"
  by (auto simp: metric_filter_rule_init_def metric_filter_rule_matches_def pattern_hits_def split: option.splits list.splits)

lemma strict_type [simp]: "\<not> metric_filter_match_type_is_regexp ''strict''"
  by (simp add: metric_filter_match_type_is_regexp_def strcasecmp_eq_def tolower_def)

lemma name_rule_entry:
  "map_option (\<lambda>r. metric_filter_rule_matches compile r (Some name))
     (case json_string_value J rule of
        Some s \<Rightarrow> metric_filter_rule_init compile (Some s) ''strict''
      | None \<Rightarrow>
          (if json_is_object J rule
           then metric_filter_rule_init compile (metric_filter_rule_pattern J rule) (match_type_of J rule)
           else metric_filter_rule_init compile None ''strict'')) = name_entry J compile name rule"
proof (cases "json_string_value J rule")
  case None
  have "metric_filter_rule_pattern J rule = None" if "\<not> json_is_object J rule" using that by (simp add: metric_filter_rule_pattern_def)
  then show ?thesis using None
    by (auto simp: rule_init_matches name_entry_def name_pattern_def split: option.splits list.splits)
next
  case (Some s)
  then show ?thesis by (cases s) (auto simp: rule_init_matches name_entry_def name_pattern_def)
qed

lemma label_rule_entry:
  "map_option (\<lambda>r. metric_filter_label_rule_matches_sample compile r (Some labels))
     (if \<not> json_is_object J rule then None
      else metric_filter_label_rule_init compile
             (case member_string J rule ''label'' of Some l \<Rightarrow> Some l | None \<Rightarrow> member_string J rule ''name'')
             (member_string J rule ''value'') (match_type_of J rule)) = label_entry J compile labels rule"
proof -
  have "map_option (\<lambda>r. metric_filter_label_rule_matches_sample compile r (Some labels)) (metric_filter_label_rule_init compile l v t) =
    (case l of
       None \<Rightarrow> None
     | Some l \<Rightarrow>
         (if l = [] then None
          else case v of
            Some (c # cs) \<Rightarrow>
              (case map_of labels l of
                 Some v \<Rightarrow> pattern_hits compile (metric_filter_match_type_is_regexp t, c # cs) v
               | None \<Rightarrow> map_option (\<lambda>_. False) (pattern_hits compile (metric_filter_match_type_is_regexp t, c # cs) []))
          | _ \<Rightarrow> Some (map_of labels l \<noteq> None)))" for l v t
    by (auto simp: metric_filter_label_rule_init_def metric_filter_label_rule_matches_sample_def metric_filter_labels_lookup_def
        metric_filter_value_matches_def pattern_hits_def Let_def split: option.splits list.splits)
  then show ?thesis by (simp add: label_entry_def)
qed

lemma load_rules_tests:
  "metric_filter_load_rules J compile (json_object_get J doc k) \<noteq> [] \<longleftrightarrow> (\<exists>b. Some b \<in> set (map (name_entry J compile name) (entries J doc k)))"
  "list_ex (\<lambda>r. metric_filter_rule_matches compile r (Some name)) (metric_filter_load_rules J compile (json_object_get J doc k)) \<longleftrightarrow>
     Some True \<in> set (map (name_entry J compile name) (entries J doc k))"
  unfolding metric_filter_load_rules_def entries_def
  using map_filter_tests [of "\<lambda>r. metric_filter_rule_matches compile r (Some name)" _ "name_entry J compile name", OF name_rule_entry]
  by (cases "Option.bind (json_object_get J doc k) (json_array_elems J)"; simp)+

lemma load_label_rules_tests:
  "metric_filter_load_label_rules J compile (json_object_get J doc k) \<noteq> [] \<longleftrightarrow> (\<exists>b. Some b \<in> set (map (label_entry J compile labels) (entries J doc k)))"
  "list_ex (\<lambda>r. metric_filter_label_rule_matches_sample compile r (Some labels)) (metric_filter_load_label_rules J compile (json_object_get J doc k)) \<longleftrightarrow>
     Some True \<in> set (map (label_entry J compile labels) (entries J doc k))"
  unfolding metric_filter_load_label_rules_def entries_def
  using map_filter_tests [of "\<lambda>r. metric_filter_label_rule_matches_sample compile r (Some labels)" _ "label_entry J compile labels", OF label_rule_entry]
  by (cases "Option.bind (json_object_get J doc k) (json_array_elems J)"; simp)+

text \<open>
  C19: the filter does what its document asks for.  After the rules of a context were read, a sample is let in exactly
  when the document allows it: by a used entry of each kind of inclusion it has, and by no entry of an exclusion.
  This also holds when no entry is used and the rules are cleared.
\<close>

theorem metric_filter_follows_document:
  assumes "json_object_get J root ''metric_filter'' = Some doc" "json_is_object J doc" "fc_srv_rules carg = None"
  shows "metric_filter_allow compile (Some (parse_metric_filter J compile loads carg (Some root))) (Some name) (Some labels) \<longleftrightarrow>
    document_allows J compile doc name labels"
proof -
  let ?c = "parse_metric_filter J compile loads carg (Some root)"
  have r: "metric_filter_resolve (Some ?c) = metric_filter_compile J compile (Some doc)"
    using assms by (auto simp: parse_metric_filter_def metric_filter_resolve_def split: option.splits)
  show ?thesis
  proof (cases "metric_filter_compile J compile (Some doc)")
    case None
    then have "metric_filter_load_rules J compile (json_object_get J doc ''include'') = []"
      "metric_filter_load_rules J compile (json_object_get J doc ''exclude'') = []"
      "metric_filter_load_label_rules J compile (json_object_get J doc ''include_label'') = []"
      "metric_filter_load_label_rules J compile (json_object_get J doc ''exclude_label'') = []"
      using assms(2) by (auto simp: metric_filter_compile_def Let_def split: if_splits)
    then have "document_allows J compile doc name labels"
      unfolding document_allows_def include_ok_def
      using load_rules_tests(1) [of J compile doc _ name] load_label_rules_tests(1) [of J compile doc _ labels] by blast
    then show ?thesis using None r by (simp add: metric_filter_allow_def)
  next
    case (Some mf)
    then have m: "mf_include mf = metric_filter_load_rules J compile (json_object_get J doc ''include'')"
      "mf_exclude mf = metric_filter_load_rules J compile (json_object_get J doc ''exclude'')"
      "mf_include_label mf = metric_filter_load_label_rules J compile (json_object_get J doc ''include_label'')"
      "mf_exclude_label mf = metric_filter_load_label_rules J compile (json_object_get J doc ''exclude_label'')"
      using assms(2) by (auto simp: metric_filter_compile_def Let_def split: if_splits)
    then show ?thesis
      unfolding metric_filter_allow_def r Some option.case m document_allows_def include_ok_def
        load_rules_tests(1) [of J compile doc _ name] load_label_rules_tests(1) [of J compile doc _ labels] load_rules_tests(2) load_label_rules_tests(2)
      by argo
  qed
qed

definition sample_filter :: json where
  "sample_filter = JObject [(''metric_filter'', JObject [(''include'', JArray [JString ''up'', JObject [(''metric'', JString ''cpu'')]]),
     (''exclude_label'', JArray [JObject [(''label'', JString ''job''), (''value'', JString ''test'')]])])]"

theorem metric_filter_follows_document_witness:
  "let carg = parse_metric_filter json_model (\<lambda>_. None) (\<lambda>_. None) \<lparr>fc_json = None, fc_rules = None, fc_srv_rules = None\<rparr> (Some sample_filter)
   in metric_filter_allow (\<lambda>_. None) (Some carg) (Some ''cpu'') (Some [(''job'', ''prod'')]) \<and>
      \<not> metric_filter_allow (\<lambda>_. None) (Some carg) (Some ''cpu'') (Some [(''job'', ''test'')])"
proof -
  obtain doc where doc: "json_object_get json_model sample_filter ''metric_filter'' = Some doc" "json_is_object json_model doc"
      "doc = JObject [(''include'', JArray [JString ''up'', JObject [(''metric'', JString ''cpu'')]]),
         (''exclude_label'', JArray [JObject [(''label'', JString ''job''), (''value'', JString ''test'')]])]"
    by (simp add: sample_filter_def json_model_def)
  show ?thesis
    unfolding Let_def metric_filter_follows_document [OF doc(1,2) filter_carg.select_convs(3)]
    by (simp add: doc(3) document_allows_def include_ok_def entries_def json_model_def name_entry_def name_pattern_def
        metric_filter_rule_pattern_def member_string_def match_type_of_def pattern_hits_def label_entry_def)
qed

end
