(* ===== verification/Metric_Add.thy ===== *)
theory Metric_Add
  imports Metric_Query Metric_Filter
begin

text \<open>
  How samples enter a namespace (\<open>metric_add\<close>, \<open>metric_update\<close> and their variants with a fixed number of labels in
  \<open>src/src/metric/labels.c\<close>): the guard on the name, the filter of the context, the labels of the context, the
  chain against the sort plan, and the update of the store.

  A namespace is its store with the names of its sort plan.  The transformation of names and labels
  (\<open>src/src/metric/transform.c\<close>) is a field of the context and any function; the mapping of a stored sample to
  quantiles and buckets (\<open>mapping_processing\<close>) is the address of the node it is called for.  The namespace that the
  code looks up by the name in the context is an argument.
\<close>

section \<open>Definitions\<close>

record namespace =
  ns_store :: store
  ns_plan :: "string list"

type_synonym transform = "string \<Rightarrow> label_hash \<Rightarrow> string \<times> label_hash"

record 'j add_carg =
  a_filter :: "'j filter_carg"
  a_labels :: "label_hash option"
  a_ttl :: ttl_arg
  a_transform :: "transform option"
  a_srv_transform :: "transform option"
  a_mm :: bool

text \<open>The library functions, the clock and the configured lifetime that the operations use.\<close>

record env =
  e_compile :: "string \<Rightarrow> pcre option"
  e_dadd :: "64 word \<Rightarrow> 64 word \<Rightarrow> 64 word"
  e_wall :: int
  e_ttl :: int

definition metric_apply_context_transform :: "string \<Rightarrow> label_hash \<Rightarrow> 'j add_carg option \<Rightarrow> string \<times> label_hash" where
  "metric_apply_context_transform name labels carg =
     (case carg of
        None \<Rightarrow> (name, labels)
      | Some c \<Rightarrow>
          (case (case a_transform c of Some t \<Rightarrow> Some t | None \<Rightarrow> a_srv_transform c) of
             None \<Rightarrow> (name, labels)
           | Some t \<Rightarrow> t name labels))"

definition merge_context_labels :: "label_hash \<Rightarrow> 'j add_carg option \<Rightarrow> label_hash" where
  "merge_context_labels labels carg =
     (case Option.bind carg a_labels of None \<Rightarrow> labels | Some own \<Rightarrow> labels_merge labels own)"

definition metric_apply_context_labels :: "string \<Rightarrow> label_hash \<Rightarrow> 'j add_carg option \<Rightarrow> string \<times> label_hash" where
  "metric_apply_context_labels name labels carg = metric_apply_context_transform name (merge_context_labels labels carg) carg"

text \<open>\<open>labels_initiate\<close> and \<open>metric_upsert\<close> on a namespace.\<close>

definition store_series ::
    "env \<Rightarrow> namespace \<Rightarrow> label_hash \<Rightarrow> string \<Rightarrow> int \<Rightarrow> 64 word \<Rightarrow> int \<Rightarrow> bool \<Rightarrow> rb_error + nat option \<times> namespace" where
  "store_series env ns labels name type val ttl add =
     (let (labels_list, plan) = labels_initiate (ns_plan ns) labels (Some name) False;
          S = (ns_store ns)\<lparr>s_tree := (s_tree (ns_store ns))\<lparr>mt_plan := length plan\<rparr>\<rparr>
      in case metric_upsert (e_dadd env) (e_wall env) S labels_list type val ttl add False of
           Inl err \<Rightarrow> Inl err
         | Inr (mnode, S') \<Rightarrow> Inr (mnode, \<lparr>ns_store = S', ns_plan = plan\<rparr>))"

text \<open>
  The operations return the address of the node that the mapping is called for, if it is called, and the namespace;
  an operation that does not call it ends with \<open>no_mapping\<close>.
\<close>

definition no_mapping :: "rb_error + nat option \<times> namespace \<Rightarrow> rb_error + nat option \<times> namespace" where
  "no_mapping r = (case r of Inl err \<Rightarrow> Inl err | Inr (_, ns) \<Rightarrow> Inr (None, ns))"

text \<open>\<open>strstr\<close> finds the text.\<close>

definition strstr_found :: "string \<Rightarrow> string \<Rightarrow> bool" where
  "strstr_found s t \<longleftrightarrow> list_ex (\<lambda>i. take (length t) (drop i s) = t) [0..<Suc (length s)]"

definition metric_add_ttl ::
    "env \<Rightarrow> namespace \<Rightarrow> string \<Rightarrow> label_hash option \<Rightarrow> 64 word \<Rightarrow> int \<Rightarrow> 'j add_carg option \<Rightarrow> int \<Rightarrow>
     rb_error + nat option \<times> namespace" where
  "metric_add_ttl env ns name labels val type carg ttl_override =
     (if numbercheck name then Inr (None, ns)
      else if \<not> metric_filter_allow (e_compile env) (map_option a_filter carg) (Some name) labels then Inr (None, ns)
      else let labels = (case labels of None \<Rightarrow> [] | Some h \<Rightarrow> h);
               labels = merge_context_labels labels carg;
               (name, labels) = metric_apply_context_transform name labels carg;
               ttl = (if ttl_override > 0 then ttl_override else get_ttl (e_ttl env) (map_option a_ttl carg))
           in case store_series env ns labels name type val ttl False of
                Inl err \<Rightarrow> Inl err
              | Inr (mnode, ns) \<Rightarrow>
                  (if (case carg of None \<Rightarrow> False | Some c \<Rightarrow> a_mm c) \<and> \<not> strstr_found name ''_quantile'' \<and>
                      \<not> strstr_found name ''_le'' \<and> \<not> strstr_found name ''_bucket''
                   then Inr (mnode, ns) else Inr (None, ns)))"

definition metric_add :: "env \<Rightarrow> namespace \<Rightarrow> string \<Rightarrow> label_hash option \<Rightarrow> 64 word \<Rightarrow> int \<Rightarrow> 'j add_carg option \<Rightarrow> rb_error + nat option \<times> namespace" where
  "metric_add env ns name labels val type carg = metric_add_ttl env ns name labels val type carg (-1)"

definition metric_update :: "env \<Rightarrow> namespace \<Rightarrow> string \<Rightarrow> label_hash option \<Rightarrow> 64 word \<Rightarrow> int \<Rightarrow> 'j add_carg option \<Rightarrow> rb_error + nat option \<times> namespace" where
  "metric_update env ns name labels val type carg =
     (if \<not> metric_filter_allow (e_compile env) (map_option a_filter carg) (Some name) labels then Inr (None, ns)
      else let labels = (case labels of None \<Rightarrow> [] | Some h \<Rightarrow> h);
               labels = merge_context_labels labels carg;
               (name, labels) = metric_apply_context_transform name labels carg
           in store_series env ns labels name type val (get_ttl (e_ttl env) (map_option a_ttl carg)) True)"

definition metric_add_auto :: "env \<Rightarrow> namespace \<Rightarrow> string \<Rightarrow> 64 word \<Rightarrow> int \<Rightarrow> 'j add_carg option \<Rightarrow> rb_error + nat option \<times> namespace" where
  "metric_add_auto env ns name val type carg =
     (if numbercheck name then Inr (None, ns)
      else if \<not> metric_filter_allow (e_compile env) (map_option a_filter carg) (Some name) None then Inr (None, ns)
      else let labels = merge_context_labels [] carg;
               (name, labels) = metric_apply_context_transform name labels carg
           in no_mapping (store_series env ns labels name type val (get_ttl (e_ttl env) (map_option a_ttl carg)) False))"

text \<open>
  The body that the functions with a fixed number of labels share; \<open>add\<close> tells \<open>metric_update_labels\<close> from
  \<open>metric_add_labels\<close>.
\<close>

type_synonym pair = "string option \<times> string option"

definition add_pairs ::
    "env \<Rightarrow> namespace \<Rightarrow> string \<Rightarrow> 64 word \<Rightarrow> int \<Rightarrow> 'j add_carg option \<Rightarrow> bool \<Rightarrow> pair list \<Rightarrow> rb_error + nat option \<times> namespace" where
  "add_pairs env ns name val type carg add pairs =
     (if numbercheck name then Inr (None, ns)
      else let hash = foldl (\<lambda>h (n, k). labels_hash_insert h n k) [] pairs
           in if \<not> metric_filter_allow (e_compile env) (map_option a_filter carg) (Some name) (Some hash) then Inr (None, ns)
              else let hash = merge_context_labels hash carg;
                       (name, hash) = metric_apply_context_transform name hash carg
                   in no_mapping (store_series env ns hash name type val (get_ttl (e_ttl env) (map_option a_ttl carg)) add))"

definition metric_add_labels :: "env \<Rightarrow> namespace \<Rightarrow> string \<Rightarrow> 64 word \<Rightarrow> int \<Rightarrow> 'j add_carg option \<Rightarrow> pair \<Rightarrow> rb_error + nat option \<times> namespace" where
  "metric_add_labels env ns name val type carg p1 = add_pairs env ns name val type carg False [p1]"

definition metric_add_labels2 :: "env \<Rightarrow> namespace \<Rightarrow> string \<Rightarrow> 64 word \<Rightarrow> int \<Rightarrow> 'j add_carg option \<Rightarrow> pair \<Rightarrow> pair \<Rightarrow> rb_error + nat option \<times> namespace" where
  "metric_add_labels2 env ns name val type carg p1 p2 = add_pairs env ns name val type carg False [p1, p2]"

definition metric_add_labels3 :: "env \<Rightarrow> namespace \<Rightarrow> string \<Rightarrow> 64 word \<Rightarrow> int \<Rightarrow> 'j add_carg option \<Rightarrow> pair \<Rightarrow> pair \<Rightarrow> pair \<Rightarrow> rb_error + nat option \<times> namespace" where
  "metric_add_labels3 env ns name val type carg p1 p2 p3 = add_pairs env ns name val type carg False [p1, p2, p3]"

definition metric_add_labels4 :: "env \<Rightarrow> namespace \<Rightarrow> string \<Rightarrow> 64 word \<Rightarrow> int \<Rightarrow> 'j add_carg option \<Rightarrow> pair \<Rightarrow> pair \<Rightarrow> pair \<Rightarrow> pair \<Rightarrow> rb_error + nat option \<times> namespace" where
  "metric_add_labels4 env ns name val type carg p1 p2 p3 p4 = add_pairs env ns name val type carg False [p1, p2, p3, p4]"

definition metric_add_labels5 :: "env \<Rightarrow> namespace \<Rightarrow> string \<Rightarrow> 64 word \<Rightarrow> int \<Rightarrow> 'j add_carg option \<Rightarrow> pair \<Rightarrow> pair \<Rightarrow> pair \<Rightarrow> pair \<Rightarrow> pair \<Rightarrow> rb_error + nat option \<times> namespace" where
  "metric_add_labels5 env ns name val type carg p1 p2 p3 p4 p5 = add_pairs env ns name val type carg False [p1, p2, p3, p4, p5]"

definition metric_add_labels6 :: "env \<Rightarrow> namespace \<Rightarrow> string \<Rightarrow> 64 word \<Rightarrow> int \<Rightarrow> 'j add_carg option \<Rightarrow> pair \<Rightarrow> pair \<Rightarrow> pair \<Rightarrow> pair \<Rightarrow> pair \<Rightarrow> pair \<Rightarrow> rb_error + nat option \<times> namespace" where
  "metric_add_labels6 env ns name val type carg p1 p2 p3 p4 p5 p6 = add_pairs env ns name val type carg False [p1, p2, p3, p4, p5, p6]"

definition metric_add_labels7 :: "env \<Rightarrow> namespace \<Rightarrow> string \<Rightarrow> 64 word \<Rightarrow> int \<Rightarrow> 'j add_carg option \<Rightarrow> pair \<Rightarrow> pair \<Rightarrow> pair \<Rightarrow> pair \<Rightarrow> pair \<Rightarrow> pair \<Rightarrow> pair \<Rightarrow> rb_error + nat option \<times> namespace" where
  "metric_add_labels7 env ns name val type carg p1 p2 p3 p4 p5 p6 p7 = add_pairs env ns name val type carg False [p1, p2, p3, p4, p5, p6, p7]"

definition metric_add_labels8 :: "env \<Rightarrow> namespace \<Rightarrow> string \<Rightarrow> 64 word \<Rightarrow> int \<Rightarrow> 'j add_carg option \<Rightarrow> pair \<Rightarrow> pair \<Rightarrow> pair \<Rightarrow> pair \<Rightarrow> pair \<Rightarrow> pair \<Rightarrow> pair \<Rightarrow> pair \<Rightarrow> rb_error + nat option \<times> namespace" where
  "metric_add_labels8 env ns name val type carg p1 p2 p3 p4 p5 p6 p7 p8 = add_pairs env ns name val type carg False [p1, p2, p3, p4, p5, p6, p7, p8]"

definition metric_add_labels9 :: "env \<Rightarrow> namespace \<Rightarrow> string \<Rightarrow> 64 word \<Rightarrow> int \<Rightarrow> 'j add_carg option \<Rightarrow> pair \<Rightarrow> pair \<Rightarrow> pair \<Rightarrow> pair \<Rightarrow> pair \<Rightarrow> pair \<Rightarrow> pair \<Rightarrow> pair \<Rightarrow> pair \<Rightarrow> rb_error + nat option \<times> namespace" where
  "metric_add_labels9 env ns name val type carg p1 p2 p3 p4 p5 p6 p7 p8 p9 = add_pairs env ns name val type carg False [p1, p2, p3, p4, p5, p6, p7, p8, p9]"

definition metric_add_labels10 :: "env \<Rightarrow> namespace \<Rightarrow> string \<Rightarrow> 64 word \<Rightarrow> int \<Rightarrow> 'j add_carg option \<Rightarrow> pair \<Rightarrow> pair \<Rightarrow> pair \<Rightarrow> pair \<Rightarrow> pair \<Rightarrow> pair \<Rightarrow> pair \<Rightarrow> pair \<Rightarrow> pair \<Rightarrow> pair \<Rightarrow> rb_error + nat option \<times> namespace" where
  "metric_add_labels10 env ns name val type carg p1 p2 p3 p4 p5 p6 p7 p8 p9 p10 = add_pairs env ns name val type carg False [p1, p2, p3, p4, p5, p6, p7, p8, p9, p10]"

definition metric_update_labels2 :: "env \<Rightarrow> namespace \<Rightarrow> string \<Rightarrow> 64 word \<Rightarrow> int \<Rightarrow> 'j add_carg option \<Rightarrow> pair \<Rightarrow> pair \<Rightarrow> rb_error + nat option \<times> namespace" where
  "metric_update_labels2 env ns name val type carg p1 p2 = add_pairs env ns name val type carg True [p1, p2]"

definition metric_update_labels3 :: "env \<Rightarrow> namespace \<Rightarrow> string \<Rightarrow> 64 word \<Rightarrow> int \<Rightarrow> 'j add_carg option \<Rightarrow> pair \<Rightarrow> pair \<Rightarrow> pair \<Rightarrow> rb_error + nat option \<times> namespace" where
  "metric_update_labels3 env ns name val type carg p1 p2 p3 = add_pairs env ns name val type carg True [p1, p2, p3]"

definition metric_update_labels4 :: "env \<Rightarrow> namespace \<Rightarrow> string \<Rightarrow> 64 word \<Rightarrow> int \<Rightarrow> 'j add_carg option \<Rightarrow> pair \<Rightarrow> pair \<Rightarrow> pair \<Rightarrow> pair \<Rightarrow> rb_error + nat option \<times> namespace" where
  "metric_update_labels4 env ns name val type carg p1 p2 p3 p4 = add_pairs env ns name val type carg True [p1, p2, p3, p4]"

definition metric_update_labels7 :: "env \<Rightarrow> namespace \<Rightarrow> string \<Rightarrow> 64 word \<Rightarrow> int \<Rightarrow> 'j add_carg option \<Rightarrow> pair \<Rightarrow> pair \<Rightarrow> pair \<Rightarrow> pair \<Rightarrow> pair \<Rightarrow> pair \<Rightarrow> pair \<Rightarrow> rb_error + nat option \<times> namespace" where
  "metric_update_labels7 env ns name val type carg p1 p2 p3 p4 p5 p6 p7 = add_pairs env ns name val type carg True [p1, p2, p3, p4, p5, p6, p7]"

section \<open>Label tables and chains\<close>

lemma insert_hash_ok: "hash_ok h \<Longrightarrow> n \<noteq> Some MAIN_METRIC_NAME \<Longrightarrow> hash_ok (labels_hash_insert h n k)"
  by (auto simp: hash_ok_def labels_hash_insert_def map_of_eq_None_iff split: option.splits)

lemma insert_nocache_hash_ok: "hash_ok h \<Longrightarrow> n \<noteq> Some MAIN_METRIC_NAME \<Longrightarrow> hash_ok (labels_hash_insert_nocache h n k)"
  by (auto simp: hash_ok_def labels_hash_insert_nocache_def map_of_eq_None_iff split: option.splits)

lemma merge_hash_ok: "hash_ok dst \<Longrightarrow> MAIN_METRIC_NAME \<notin> fst ` set src \<Longrightarrow> hash_ok (labels_merge dst src)"
  unfolding labels_merge_def
proof (induction src arbitrary: dst)
  case (Cons nk src)
  then show ?case using insert_nocache_hash_ok [of dst "Some (fst nk)" "Some (snd nk)"] by (auto simp: split_beta)
qed simp

lemma pairs_hash_ok:
  "hash_ok h \<Longrightarrow> \<forall>p \<in> set pairs. fst p \<noteq> Some MAIN_METRIC_NAME \<Longrightarrow> hash_ok (foldl (\<lambda>h (n, k). labels_hash_insert h n k) h pairs)"
proof (induction pairs arbitrary: h)
  case (Cons p pairs)
  then show ?case using insert_hash_ok [of h "fst p" "snd p"] by (simp add: split_beta)
qed simp

lemma hash_ok_Nil [simp]: "hash_ok []"
  by (simp add: hash_ok_def)

text \<open>New names extend the plan and the chain together, as far as the plan has room.\<close>

lemma new_plan_nodes:
  assumes "plan_ok plan" "length ls = length plan" "distinct (map fst rest)" "fst ` set rest \<inter> set plan = {}"
  shows "\<exists>ps ns. foldl labels_new_plan_node (plan, ls, length plan) rest = (plan @ ps, ls @ ns, length (plan @ ps)) \<and>
    plan_ok (plan @ ps) \<and> length ns = length ps"
  using assms
proof (induction rest arbitrary: plan ls)
  case Nil
  then show ?case by (intro exI [of _ "[]"]) simp
next
  case (Cons nk rest)
  obtain n k where nk: "nk = (n, k)" by (cases nk)
  have step: "labels_new_plan_node (plan, ls, length plan) (n, k) =
      (if length plan \<ge> SORTPLAN_MAX then (plan, ls, length plan) else (plan @ [n], ls @ [plan_node n (Some k)], length plan + 1))"
    by (simp add: labels_new_plan_node_def)
  show ?case
  proof (cases "length plan \<ge> SORTPLAN_MAX")
    case True
    then show ?thesis using Cons.IH [OF Cons.prems(1,2)] Cons.prems(3,4) by (auto simp: nk step)
  next
    case False
    have "plan_ok (plan @ [n])" using Cons.prems(1,4) False by (auto simp: plan_ok_def nk)
    then obtain ps ns where "foldl labels_new_plan_node (plan @ [n], ls @ [plan_node n (Some k)], length (plan @ [n])) rest =
        ((plan @ [n]) @ ps, (ls @ [plan_node n (Some k)]) @ ns, length ((plan @ [n]) @ ps))"
        "plan_ok ((plan @ [n]) @ ps)" "length ns = length ps"
      using Cons.IH [of "plan @ [n]" "ls @ [plan_node n (Some k)]"] Cons.prems(2-4) by (auto simp: nk)
    then show ?thesis using False
      by (intro exI [of _ "n # ps"] exI [of _ "plan_node n (Some k) # ns"]) (simp add: nk step)
  qed
qed

lemma initiate_ok:
  assumes "plan_ok plan" "hash_ok h" "labels_initiate plan h name False = (c, plan')"
  shows "plan_ok plan'" "length c = length plan'" "length plan \<le> length plan'" "head_key c = name"
proof -
  define rest where "rest = filter (\<lambda>(n, k). n \<notin> set (tl plan)) h"
  define head where "head = \<lparr>l_name = MAIN_METRIC_NAME, l_name_len = MAIN_METRIC_LEN, l_key = name,
     l_key_len = (case name of None \<Rightarrow> 0 | Some s \<Rightarrow> length s)\<rparr>"
  have plan: "plan = MAIN_METRIC_NAME # tl plan" "plan \<noteq> []" using assms(1) by (cases plan; auto simp: plan_ok_def)+
  have d: "distinct (map fst rest)" using assms(2) by (auto simp: hash_ok_def rest_def distinct_map inj_on_def)
  have "set plan = insert MAIN_METRIC_NAME (set (tl plan))" by (subst plan(1)) simp
  then have new: "fst ` set rest \<inter> set plan = {}" using assms(2) by (auto simp: rest_def hash_ok_def image_iff)
  have l: "length (head # map (\<lambda>n. plan_node n (map_of h n)) (tl plan)) = length plan" using plan(2) by (cases plan) auto
  obtain ps ns where f: "foldl labels_new_plan_node (plan, head # map (\<lambda>n. plan_node n (map_of h n)) (tl plan), length plan) rest =
      (plan @ ps, (head # map (\<lambda>n. plan_node n (map_of h n)) (tl plan)) @ ns, length (plan @ ps))"
      "plan_ok (plan @ ps)" "length ns = length ps"
    using new_plan_nodes [OF assms(1) l d new] by blast
  have "labels_initiate plan h name False = ((head # map (\<lambda>n. plan_node n (map_of h n)) (tl plan)) @ ns, plan @ ps)"
    using f(1) plan(2) unfolding labels_initiate_def Let_def rest_def [symmetric] head_def [symmetric] by simp
  then have c: "c = (head # map (\<lambda>n. plan_node n (map_of h n)) (tl plan)) @ ns" "plan' = plan @ ps" using assms(3) by auto
  show "plan_ok plan'" "length c = length plan'" "length plan \<le> length plan'" "head_key c = name"
    using f(2,3) l by (auto simp: c head_def)
qed

section \<open>Namespaces\<close>

definition ns_inv :: "nat \<Rightarrow> namespace \<Rightarrow> bool" where
  "ns_inv cap ns \<longleftrightarrow> history_inv cap (ns_store ns) \<and> plan_ok (ns_plan ns) \<and> mt_plan (s_tree (ns_store ns)) = length (ns_plan ns) \<and>
     (\<forall>s \<in> set (contents (ns_store ns)). head_key (m_labels (fst s)) \<noteq> None)"

lemma head_key_keys: "map l_key a = map l_key b \<Longrightarrow> head_key a = head_key b"
  by (cases a; cases b) auto

lemma value_labels [simp]: "m_labels (set_value type val n) = m_labels n" "m_labels (add_value dadd type val n) = m_labels n"
  by (simp_all add: set_value_def add_value_def Let_def)

lemma series_upsert_heads:
  assumes "\<forall>s \<in> set (contents S). head_key (m_labels (fst s)) \<noteq> None" "head_key lab \<noteq> None"
    and "s \<in> set (series_upsert dadd wall S lab type val ttl add bypass)"
  shows "head_key (m_labels (fst s)) \<noteq> None"
  using assms head_key_keys [OF make_node_simps(2) [of "s_tree S" lab type val]]
  by (auto simp: series_upsert_def split: if_splits)

text \<open>The plan of the namespace grows before the write; the store keeps its contents.\<close>

lemma set_plan_grows:
  "mt_plan (s_tree S) \<le> p \<Longrightarrow> S\<lparr>s_tree := (s_tree S)\<lparr>mt_plan := p\<rparr>\<rparr> = grow_plan p S"
  by (simp add: grow_plan_def)

lemma store_series_ok:
  assumes "ns_inv cap ns" "hash_ok h"
  shows "\<exists>r ns'. store_series env ns h name type val ttl add = Inr (r, ns') \<and> ns_inv cap ns' \<and>
    (\<exists>c. labels_initiate (ns_plan ns) h (Some name) False = (c, ns_plan ns') \<and>
      contents (ns_store ns') = series_upsert (e_dadd env) (e_wall env) (grow_plan (length (ns_plan ns')) (ns_store ns)) c type val ttl add False)"
proof -
  let ?S = "ns_store ns"
  have i: "history_inv cap ?S" "plan_ok (ns_plan ns)" "mt_plan (s_tree ?S) = length (ns_plan ns)"
    "\<forall>s \<in> set (contents ?S). head_key (m_labels (fst s)) \<noteq> None" using assms(1) by (auto simp: ns_inv_def)
  obtain c plan' where c: "labels_initiate (ns_plan ns) h (Some name) False = (c, plan')" by fastforce
  note l = initiate_ok [OF i(2) assms(2) c]
  let ?G = "grow_plan (length plan') ?S"
  have g: "history_inv cap ?G" "store_inv ?G" using history_grow [OF i(1)] by (auto simp: history_inv_def)
  have p: "mt_plan (s_tree ?G) = length plan'" using l(3) i(3) by (simp add: grow_plan_def)
  obtain r S' where u: "metric_upsert (e_dadd env) (e_wall env) ?G c type val ttl add False = Inr (r, S')"
      "contents S' = series_upsert (e_dadd env) (e_wall env) ?G c type val ttl add False"
    using metric_upsert_ok [OF g(2), of "e_dadd env" "e_wall env" c type val ttl add False] by auto
  have "history_inv cap S'" using history_upsert [OF g(1) _ u(1)] l(2) p by simp
  moreover have "mt_plan (s_tree S') = length plan'" using upsert_plan [OF u(1)] p by simp
  moreover have "\<forall>s \<in> set (contents S'). head_key (m_labels (fst s)) \<noteq> None"
    using series_upsert_heads [of ?G c] i(4) l(4) unfolding u(2) contents_grow by simp
  ultimately have "ns_inv cap \<lparr>ns_store = S', ns_plan = plan'\<rparr>" using l(1) by (simp add: ns_inv_def)
  moreover have "store_series env ns h name type val ttl add = Inr (r, \<lparr>ns_store = S', ns_plan = plan'\<rparr>)"
    using c u(1) set_plan_grows [of ?S "length plan'"] i(3) l(3) by (simp add: store_series_def)
  ultimately show ?thesis using c u(2) by auto
qed

lemma store_series_inv:
  "ns_inv cap ns \<Longrightarrow> hash_ok h \<Longrightarrow> store_series env ns h name type val ttl add = Inr (r, ns') \<Longrightarrow> ns_inv cap ns'"
  using store_series_ok [of cap ns h env name type val ttl add] by auto

text \<open>The labels a chain denotes under a plan.\<close>

fun pick_labels :: "string list \<Rightarrow> chain \<Rightarrow> label_hash" where
  "pick_labels (n # ns) (l # ls) = (case l_key l of Some k \<Rightarrow> (n, k) # pick_labels ns ls | None \<Rightarrow> pick_labels ns ls)"
| "pick_labels _ _ = []"

definition series_labels :: "string list \<Rightarrow> metric_node \<Rightarrow> label_hash" where
  "series_labels plan x = pick_labels (tl plan) (tl (m_labels x))"

lemma pick_labels_names: "fst ` set (pick_labels ns ls) \<subseteq> set ns"
  by (induction ns ls rule: pick_labels.induct) (auto split: option.splits)

lemma pick_labels_lookup:
  "distinct ns \<Longrightarrow> i < length ns \<Longrightarrow> map_of (pick_labels ns ls) (ns ! i) = key_at ls i"
proof (induction ns arbitrary: i ls)
  case (Cons n ns)
  show ?case
  proof (cases ls)
    case l: (Cons l ls')
    have out: "map_of (pick_labels ns ls') n = None" using Cons.prems(1) pick_labels_names [of ns ls'] by (auto simp: map_of_eq_None_iff)
    show ?thesis
    proof (cases i)
      case 0
      then show ?thesis using out l by (simp split: option.splits)
    next
      case (Suc j)
      then have "map_of (pick_labels ns ls') (ns ! j) = key_at ls' j" "ns ! j \<noteq> n"
        using Cons.IH [of j ls'] Cons.prems by auto
      then show ?thesis using Suc l by (simp add: key_at_def split: option.splits)
    qed
  qed simp
qed simp

lemma series_chain:
  assumes "plan_ok plan" "length (m_labels x) \<le> length plan" "head_key (m_labels x) \<noteq> None"
  shows "chain_for plan (series_labels plan x) (Some (name_of x)) (m_labels x)"
proof -
  have p: "plan \<noteq> []" "distinct (tl plan)" using assms(1) by (auto simp: plan_ok_def distinct_tl)
  have "key_at (m_labels x) i = map_of (series_labels plan x) (plan ! i)" if "0 < i" "i < length plan" for i
    using pick_labels_lookup [OF p(2), of "i - 1" "tl (m_labels x)"] that nth_tl [of "i - 1" plan] by (simp add: series_labels_def)
  then show ?thesis using assms pick_labels_names [of "tl plan" "tl (m_labels x)"]
    by (auto simp: chain_for_def name_of_def series_labels_def)
qed

lemma pick_labels_ok: "distinct ns \<Longrightarrow> distinct (map fst (pick_labels ns ls))"
  using pick_labels_names by (induction ns ls rule: pick_labels.induct) (fastforce split: option.splits)+

section \<open>Histories of a namespace\<close>

text \<open>A context whose labels do not claim the name of the metric, and that does not transform names and labels.\<close>

definition plain_context :: "'j add_carg \<Rightarrow> bool" where
  "plain_context c \<longleftrightarrow> a_transform c = None \<and> a_srv_transform c = None \<and>
     (\<forall>own. a_labels c = Some own \<longrightarrow> MAIN_METRIC_NAME \<notin> fst ` set own)"

definition labels_ok :: "label_hash option \<Rightarrow> bool" where
  "labels_ok labels \<longleftrightarrow> (\<forall>h. labels = Some h \<longrightarrow> hash_ok h)"

lemma plain_transform: "\<forall>c \<in> set_option carg. plain_context c \<Longrightarrow> metric_apply_context_transform name h carg = (name, h)"
  by (cases carg) (auto simp: metric_apply_context_transform_def plain_context_def)

lemma plain_merge: "\<forall>c \<in> set_option carg. plain_context c \<Longrightarrow> hash_ok h \<Longrightarrow> hash_ok (merge_context_labels h carg)"
  by (cases carg) (auto simp: merge_context_labels_def plain_context_def merge_hash_ok split: option.splits)

text \<open>
  The operations on a namespace with contexts from the set \<open>C\<close>: adding and updating samples, building the selector of a
  query, deleting and purging.
\<close>

inductive ns_step :: "'j add_carg set \<Rightarrow> namespace \<Rightarrow> namespace \<Rightarrow> bool" for C where
  ns_add: "set_option carg \<subseteq> C \<Longrightarrow> labels_ok labels \<Longrightarrow>
     metric_add_ttl env ns name labels val type carg ttl = Inr (r, ns') \<Longrightarrow> ns_step C ns ns'"
| ns_update: "set_option carg \<subseteq> C \<Longrightarrow> labels_ok labels \<Longrightarrow>
     metric_update env ns name labels val type carg = Inr (r, ns') \<Longrightarrow> ns_step C ns ns'"
| ns_auto: "set_option carg \<subseteq> C \<Longrightarrow> metric_add_auto env ns name val type carg = Inr (r, ns') \<Longrightarrow> ns_step C ns ns'"
| ns_pairs: "set_option carg \<subseteq> C \<Longrightarrow> \<forall>p \<in> set pairs. fst p \<noteq> Some MAIN_METRIC_NAME \<Longrightarrow>
     add_pairs env ns name val type carg add pairs = Inr (r, ns') \<Longrightarrow> ns_step C ns ns'"
| ns_query: "hash_ok h \<Longrightarrow> labels_initiate (ns_plan ns) h name False = (q, plan) \<Longrightarrow>
     ns_step C ns \<lparr>ns_store = grow_plan (length plan) (ns_store ns), ns_plan = plan\<rparr>"
| ns_delete: "metric_delete wall (ns_store ns) lab = Some (ok, S) \<Longrightarrow> ns_step C ns (ns\<lparr>ns_store := S\<rparr>)"
| ns_purge: "0 < key \<Longrightarrow> expire_purge wall key (ns_store ns) = Some (orphans, S) \<Longrightarrow> ns_step C ns (ns\<lparr>ns_store := S\<rparr>)"

inductive_cases ns_step_cases: "ns_step C ns ns'"

lemma ns_inv_store:
  assumes "ns_inv cap ns" "history_inv cap S" "mt_plan (s_tree S) = mt_plan (s_tree (ns_store ns))"
    "set (contents S) \<subseteq> set (contents (ns_store ns))"
  shows "ns_inv cap (ns\<lparr>ns_store := S\<rparr>)"
  using assms by (auto simp: ns_inv_def)

lemma add_ttl_inv:
  assumes "ns_inv cap ns" "\<forall>c \<in> set_option carg. plain_context c" "labels_ok labels"
    "metric_add_ttl env ns name labels val type carg ttl = Inr (r, ns')"
  shows "ns_inv cap ns'"
proof -
  let ?h = "merge_context_labels (case labels of None \<Rightarrow> [] | Some h \<Rightarrow> h) carg"
  have "hash_ok ?h" using plain_merge [OF assms(2)] assms(3) by (auto simp: labels_ok_def split: option.splits)
  then show ?thesis using assms(1,4)
    by (auto simp: metric_add_ttl_def plain_transform [OF assms(2)] Let_def dest: store_series_inv [OF assms(1)] split: if_splits sum.splits)
qed

lemma update_inv:
  assumes "ns_inv cap ns" "\<forall>c \<in> set_option carg. plain_context c" "labels_ok labels"
    "metric_update env ns name labels val type carg = Inr (r, ns')"
  shows "ns_inv cap ns'"
proof -
  let ?h = "merge_context_labels (case labels of None \<Rightarrow> [] | Some h \<Rightarrow> h) carg"
  have "hash_ok ?h" using plain_merge [OF assms(2)] assms(3) by (auto simp: labels_ok_def split: option.splits)
  then show ?thesis using assms(1,4)
    by (auto simp: metric_update_def plain_transform [OF assms(2)] Let_def dest: store_series_inv [OF assms(1)] split: if_splits)
qed

lemma no_mapping_Inr: "no_mapping r = Inr (m, ns') \<longleftrightarrow> m = None \<and> (\<exists>n. r = Inr (n, ns'))"
  by (auto simp: no_mapping_def split: sum.splits)

lemma pairs_inv:
  assumes "ns_inv cap ns" "\<forall>c \<in> set_option carg. plain_context c" "\<forall>p \<in> set pairs. fst p \<noteq> Some MAIN_METRIC_NAME"
    "add_pairs env ns name val type carg add pairs = Inr (r, ns')"
  shows "ns_inv cap ns'"
proof -
  let ?h = "merge_context_labels (foldl (\<lambda>h (n, k). labels_hash_insert h n k) [] pairs) carg"
  have "hash_ok ?h" using plain_merge [OF assms(2)] pairs_hash_ok [OF hash_ok_Nil assms(3)] by blast
  then show ?thesis using assms(1,4)
    by (auto simp: add_pairs_def plain_transform [OF assms(2)] Let_def no_mapping_Inr dest: store_series_inv [OF assms(1)] split: if_splits)
qed

lemma auto_inv:
  assumes "ns_inv cap ns" "\<forall>c \<in> set_option carg. plain_context c" "metric_add_auto env ns name val type carg = Inr (r, ns')"
  shows "ns_inv cap ns'"
proof -
  let ?h = "merge_context_labels [] carg"
  have "hash_ok ?h" using plain_merge [OF assms(2)] by simp
  then show ?thesis using assms(1,3)
    by (auto simp: metric_add_auto_def plain_transform [OF assms(2)] Let_def no_mapping_Inr dest: store_series_inv [OF assms(1)] split: if_splits)
qed

lemma query_inv:
  assumes "ns_inv cap ns" "hash_ok h" "labels_initiate (ns_plan ns) h name False = (q, plan)"
  shows "ns_inv cap \<lparr>ns_store = grow_plan (length plan) (ns_store ns), ns_plan = plan\<rparr>"
proof -
  note l = initiate_ok [OF _ assms(2,3)]
  have "mt_plan (s_tree (grow_plan (length plan) (ns_store ns))) = length plan"
    using l(3) assms(1) by (simp add: grow_plan_def ns_inv_def)
  then show ?thesis using l(1) assms(1) history_grow by (auto simp: ns_inv_def contents_grow)
qed

lemma delete_inv:
  assumes "ns_inv cap ns" "metric_delete wall (ns_store ns) lab = Some (ok, S)"
  shows "ns_inv cap (ns\<lparr>ns_store := S\<rparr>)"
proof -
  have h: "history_inv cap (ns_store ns)" "store_inv (ns_store ns)" using assms(1) by (auto simp: ns_inv_def history_inv_def)
  have "contents S = filter (\<lambda>s. side (ns_store ns) lab s \<noteq> 0) (contents (ns_store ns))"
    using metric_delete_ok [OF h(2), of wall lab] assms(2) by auto
  moreover have "mt_plan (s_tree S) = mt_plan (s_tree (ns_store ns))" using assms(2) delete_plan by (auto simp: metric_delete_def)
  ultimately show ?thesis by (intro ns_inv_store [OF assms(1) history_delete [OF h(1) assms(2)]]) auto
qed

lemma purge_inv:
  assumes "ns_inv cap ns" "0 < key" "expire_purge wall key (ns_store ns) = Some (orphans, S)"
  shows "ns_inv cap (ns\<lparr>ns_store := S\<rparr>)"
proof -
  have h: "history_inv cap (ns_store ns)" "store_inv (ns_store ns)" using assms(1) by (auto simp: ns_inv_def history_inv_def)
  have "set (contents S) \<subseteq> set (contents (ns_store ns))"
    using expire_purge_full_ok [OF h(2), of wall] expire_purge_timed_ok [OF h(2) assms(2), of wall] assms(3)
    by (cases "key = INT64_MAX") auto
  moreover have "mt_plan (s_tree S) = mt_plan (s_tree (ns_store ns))"
    using assms(3) by (auto simp: expire_purge_def Let_def simp del: purge_passes.simps dest: purge_passes_plan split: option.splits)
  ultimately show ?thesis by (intro ns_inv_store [OF assms(1) history_purge [OF h(1) assms(2,3)]]) auto
qed

lemma ns_step_inv:
  assumes "ns_step C ns ns'" "\<forall>c \<in> C. plain_context c" "ns_inv cap ns"
  shows "ns_inv cap ns'"
  using assms(1)
proof (cases rule: ns_step.cases)
  case (ns_add carg labels env name val type ttl r)
  then show ?thesis using add_ttl_inv [OF assms(3)] assms(2) by blast
next
  case (ns_update carg labels env name val type r)
  then show ?thesis using update_inv [OF assms(3)] assms(2) by blast
next
  case (ns_auto carg env name val type r)
  then show ?thesis using auto_inv [OF assms(3)] assms(2) by blast
next
  case (ns_pairs carg pairs env name val type add r)
  then show ?thesis using pairs_inv [OF assms(3)] assms(2) by blast
qed (use assms(3) query_inv delete_inv purge_inv in blast)+

definition empty_namespace :: "nat \<Rightarrow> namespace" where
  "empty_namespace cap = \<lparr>ns_store = empty_store cap, ns_plan = [MAIN_METRIC_NAME]\<rparr>"

lemma empty_namespace_inv: "ns_inv cap (empty_namespace cap)"
  using history_empty [of cap] sample_plan by (simp add: ns_inv_def empty_namespace_def empty_store_ok) (simp add: empty_store_def)

lemma empty_not_full: "\<not> full_store (ns_store (empty_namespace cap))"
  unfolding full_store_def empty_namespace_def namespace.simps empty_store_ok(2) by auto

lemma ns_reach:
  assumes "(ns_step C)\<^sup>*\<^sup>* (empty_namespace cap) ns" "\<forall>c \<in> C. plain_context c"
  shows "ns_inv cap ns"
  using assms(1) by (induction rule: rtranclp_induct) (auto intro: empty_namespace_inv ns_step_inv [OF _ assms(2)])

section \<open>Queries on a namespace\<close>

lemma ns_nodes:
  assumes "ns_inv cap ns" "x \<in> set (inorder (mt_root (s_tree (ns_store ns))))"
  shows "chain_for (ns_plan ns) (series_labels (ns_plan ns) x) (Some (name_of x)) (m_labels x)"
proof -
  have "(x\<lparr>m_addr := 0\<rparr>, expiry_of (s_wheel (ns_store ns)) (m_addr x)) \<in> set (contents (ns_store ns))"
    using assms(2) by (auto simp: contents_def series_def)
  then have "length (m_labels x) \<le> length (ns_plan ns)" "head_key (m_labels x) \<noteq> None"
    using assms(1) by (force simp: ns_inv_def history_inv_def fits_def)+
  then show ?thesis using series_chain [of "ns_plan ns" x] assms(1) by (simp add: ns_inv_def)
qed

lemma ns_query_selects:
  assumes "ns_inv cap ns" "hash_ok h" "length (ns_plan ns) + length h \<le> SORTPLAN_MAX" "name \<noteq> Some []"
    "metrictree_query_uses_regex mqc \<longrightarrow> name = None" "labels_initiate (ns_plan ns) h name False = (q, plan)"
  shows "\<exists>l. metrictree_serialize_query (s_tree (grow_plan (length plan) (ns_store ns))) q (length h) mqc = Some l \<and>
    mset l = mset (filter (\<lambda>x. wanted mqc name (name_of x) \<and> has_labels h (series_labels (ns_plan ns) x))
                    (inorder (mt_root (s_tree (ns_store ns)))))"
proof -
  have i: "store_inv (ns_store ns)" "plan_ok (ns_plan ns)" "mt_plan (s_tree (ns_store ns)) = length (ns_plan ns)"
    using assms(1) by (auto simp: ns_inv_def history_inv_def)
  note m = query_meaning [OF i ns_nodes [OF assms(1)] assms(2-6)]
  show ?thesis using query_walks [OF m(1), of "length h" mqc] m(2) by metis
qed

text \<open>A sample that is not refused is in the list of series afterwards, with its value.\<close>

lemma series_upsert_stores:
  assumes "\<not> full_store S" "type = DATATYPE_INT \<or> type = DATATYPE_UINT"
  shows "\<exists>s \<in> set (series_upsert dadd wall S lab type val ttl False False).
    labels_cmp (mt_plan (s_tree S)) lab (m_labels (fst s)) = 0 \<and> m_type (fst s) = type \<and> m_u (fst s) = val"
proof (cases "\<exists>s \<in> set (contents S). side S lab s = 0")
  case True
  then obtain s where "s \<in> set (contents S)" "side S lab s = 0" by blast
  then have "(set_value type val (fst s), refreshed wall ttl (snd s)) \<in> set (series_upsert dadd wall S lab type val ttl False False)"
      "labels_cmp (mt_plan (s_tree S)) lab (m_labels (set_value type val (fst s))) = 0"
    using True by (auto simp: series_upsert_def side_def)
  then show ?thesis using assms(2) by (intro bexI) (auto simp: set_value_def Let_def)
next
  case False
  let ?n = "fst (make_node (s_tree S) lab type val)"
  have "labels_cmp (mt_plan (s_tree S)) lab (m_labels ?n) = labels_cmp (mt_plan (s_tree S)) lab lab"
    by (rule labels_cmp_keys2) (simp add: make_node_simps)
  moreover have "m_type ?n = type" "m_u ?n = val" using assms(2) by (auto simp: make_node_def split_beta Let_def)
  ultimately show ?thesis using False assms(1) labels.cmp_refl by (auto simp: series_upsert_def)
qed

lemma store_series_node:
  assumes "ns_inv cap ns" "hash_ok h" "length (ns_plan ns) + length h \<le> SORTPLAN_MAX" "\<not> full_store (ns_store ns)"
    "type = DATATYPE_INT \<or> type = DATATYPE_UINT" "store_series env ns h name type val ttl False = Inr (r, ns')"
  shows "\<exists>x \<in> set (inorder (mt_root (s_tree (ns_store ns')))).
    name_of x = name \<and> map_of (series_labels (ns_plan ns') x) = map_of h \<and> m_type x = type \<and> m_u x = val"
proof -
  let ?G = "grow_plan (length (ns_plan ns')) (ns_store ns)"
  obtain c where c: "labels_initiate (ns_plan ns) h (Some name) False = (c, ns_plan ns')" "ns_inv cap ns'"
      "contents (ns_store ns') = series_upsert (e_dadd env) (e_wall env) ?G c type val ttl False False"
    using store_series_ok [OF assms(1,2), of env name type val ttl False] assms(6) by auto
  have p: "plan_ok (ns_plan ns)" "mt_plan (s_tree (ns_store ns)) = length (ns_plan ns)" using assms(1) by (auto simp: ns_inv_def)
  note l = labels_initiate_chain_for [OF p(1) assms(2,3) c(1)]
  have g: "\<not> full_store ?G" "mt_plan (s_tree ?G) = length (ns_plan ns')"
    using assms(4) initiate_ok(3) [OF p(1) assms(2) c(1)] p(2) by (simp_all add: full_store_def contents_grow) (simp_all add: grow_plan_def)
  obtain s where s: "s \<in> set (contents (ns_store ns'))" "labels_cmp (length (ns_plan ns')) c (m_labels (fst s)) = 0"
      "m_type (fst s) = type" "m_u (fst s) = val"
    using series_upsert_stores [OF g(1) assms(5), of "e_dadd env" "e_wall env" c val ttl] unfolding c(3) g(2) by blast
  obtain x where x: "x \<in> set (inorder (mt_root (s_tree (ns_store ns'))))" "fst s = x\<lparr>m_addr := 0\<rparr>"
    using s(1) by (auto simp: contents_def series_def)
  have "Some name = Some (name_of x) \<and> map_of h = map_of (series_labels (ns_plan ns') x)"
    using chain_for_eq [OF l(1,3) ns_nodes [OF c(2) x(1)]] s(2) x(2) by simp
  then show ?thesis using x s(3,4) by auto
qed

lemma add_ttl_stores:
  assumes "ns_inv cap ns" "\<forall>c \<in> set_option carg. plain_context c" "labels_ok labels"
    "\<not> numbercheck name" "metric_filter_allow (e_compile env) (map_option a_filter carg) (Some name) labels"
  shows "\<exists>r r' ns'. metric_add_ttl env ns name labels val type carg ttl = Inr (r, ns') \<and>
    store_series env ns (merge_context_labels (case labels of None \<Rightarrow> [] | Some h \<Rightarrow> h) carg) name type val
      (if ttl > 0 then ttl else get_ttl (e_ttl env) (map_option a_ttl carg)) False = Inr (r', ns') \<and> ns_inv cap ns'"
proof -
  let ?h = "merge_context_labels (case labels of None \<Rightarrow> [] | Some h \<Rightarrow> h) carg"
  have "hash_ok ?h" using plain_merge [OF assms(2)] assms(3) by (auto simp: labels_ok_def split: option.splits)
  then obtain r' ns' where "store_series env ns ?h name type val (if ttl > 0 then ttl else get_ttl (e_ttl env) (map_option a_ttl carg)) False = Inr (r', ns')"
      "ns_inv cap ns'"
    using store_series_ok [OF assms(1)] by blast
  then show ?thesis using assms(4,5) by (simp add: metric_add_ttl_def plain_transform [OF assms(2)] Let_def)
qed

end
