(* ===== verification/Patricia.thy ===== *)
theory Patricia
  imports C_String
begin

text \<open>
  The access lists of listeners: the bit trie of networks (\<open>src/src/common/patricia.c\<close>) and the
  allow and deny rules over it (\<open>src/src/common/netlib.c\<close>).

  A \<open>rnode\<close> pointer is a tree with \<^term>\<open>None\<close> data where the code has NULL data; a
  \<open>patricia_t\<close> pointer is the option of its root.  The trie code is written once over the width
  of the key, and \<open>patricia_insert\<close> and \<open>patricia_insert128\<close> are its two instances, as in
  the source.  The cells that hold the verdicts are addresses into a memory that records which of them
  are still allocated, so a read of a freed cell is an error value.
\<close>

unbundle bit_operations_syntax

section \<open>Trie\<close>

datatype 'd rnode = RNull | RNode (rleft: "'d rnode") (rright: "'d rnode") (rdata: "'d option")

text \<open>The second loop of the insertion: the nodes below the last one that exists.\<close>

function create_path :: "'w::len word \<Rightarrow> 'w word \<Rightarrow> 'w word \<Rightarrow> 'd \<Rightarrow> 'd rnode" where
  "create_path cursor key msk d =
     (if cursor AND msk = 0 then RNode RNull RNull (Some d)
      else if key AND cursor \<noteq> 0 then RNode RNull (create_path (drop_bit 1 cursor) key msk d) None
      else RNode (create_path (drop_bit 1 cursor) key msk d) RNull None)"
  by pat_completeness auto

lemma cursor_shrinks:
  fixes cursor :: "'w::len word"
  assumes "cursor AND msk \<noteq> 0"
  shows "unat (drop_bit 1 cursor) < unat cursor"
proof -
  have "cursor \<noteq> 0" using assms by auto
  then have "0 < unat cursor" by (simp add: unat_gt_0)
  then show ?thesis unfolding unat_drop_bit_eq by (simp add: drop_bit_eq_div)
qed

termination create_path
  by (relation "measure (\<lambda>(cursor, _). unat cursor)") (simp_all add: cursor_shrinks [unfolded One_nat_def])

text \<open>
  The first loop: the descent along existing nodes; the result has the datum that was replaced and that
  the code frees.
\<close>

function insert_from :: "'w::len word \<Rightarrow> 'w word \<Rightarrow> 'w word \<Rightarrow> 'd \<Rightarrow> 'd rnode \<Rightarrow> 'd rnode \<times> 'd option" where
  "insert_from cursor key msk d t =
     (if cursor AND msk = 0 then (RNode (rleft t) (rright t) (Some d), rdata t)
      else if key AND cursor \<noteq> 0 then
        (if rright t = RNull then (RNode (rleft t) (create_path (drop_bit 1 cursor) key msk d) (rdata t), None)
         else let (u, old) = insert_from (drop_bit 1 cursor) key msk d (rright t)
              in (RNode (rleft t) u (rdata t), old))
      else
        (if rleft t = RNull then (RNode (create_path (drop_bit 1 cursor) key msk d) (rright t) (rdata t), None)
         else let (u, old) = insert_from (drop_bit 1 cursor) key msk d (rleft t)
              in (RNode u (rright t) (rdata t), old)))"
  by pat_completeness auto

termination insert_from
  by (relation "measure (\<lambda>(cursor, _). unat cursor)") (simp_all add: cursor_shrinks [unfolded One_nat_def])

declare create_path.simps [simp del] insert_from.simps [simp del]

definition patricia_node_create :: "'d rnode" where
  "patricia_node_create = RNode RNull RNull None"

definition patricia_insert :: "'d rnode \<Rightarrow> 32 word \<Rightarrow> 32 word \<Rightarrow> 'd \<Rightarrow> 'd rnode \<times> 'd option" where
  "patricia_insert root key msk d =
     insert_from 0x80000000 key msk d (if root = RNull then patricia_node_create else root)"

definition patricia_insert128 :: "'d rnode \<Rightarrow> 128 word \<Rightarrow> 128 word \<Rightarrow> 'd \<Rightarrow> 'd rnode \<times> 'd option" where
  "patricia_insert128 root key msk d =
     insert_from (push_bit 64 0x8000000000000000 OR 0) key msk d (if root = RNull then patricia_node_create else root)"

text \<open>The node the deletion and the insertion both look for; None when the path leaves the trie.\<close>

function locate_from :: "'w::len word \<Rightarrow> 'w word \<Rightarrow> 'w word \<Rightarrow> 'd rnode \<Rightarrow> 'd rnode" where
  "locate_from cursor key msk t =
     (if t = RNull \<or> cursor AND msk = 0 then t
      else locate_from (drop_bit 1 cursor) key msk (if key AND cursor \<noteq> 0 then rright t else rleft t))"
  by pat_completeness auto

termination locate_from
  by (relation "measure (\<lambda>(cursor, _). unat cursor)") (auto simp: cursor_shrinks [unfolded One_nat_def])

declare locate_from.simps [simp del]

text \<open>
  The deletion hands the datum to the caller and leaves the trie as it is; an entry with a zero key or a
  zero mask is refused.
\<close>

definition patricia_delete :: "'d rnode \<Rightarrow> 32 word \<Rightarrow> 32 word \<Rightarrow> 'd option" where
  "patricia_delete root key msk =
     (case locate_from 0x80000000 key msk root of
        RNull \<Rightarrow> None
      | RNode _ _ data \<Rightarrow> if data \<noteq> None \<and> key \<noteq> 0 \<and> msk \<noteq> 0 then data else None)"

definition patricia_delete128 :: "'d rnode \<Rightarrow> 128 word \<Rightarrow> 128 word \<Rightarrow> 'd option" where
  "patricia_delete128 root key msk =
     (case locate_from (push_bit 64 0x8000000000000000 OR 0) key msk root of
        RNull \<Rightarrow> None
      | RNode _ _ data \<Rightarrow> if data \<noteq> None \<and> key \<noteq> 0 \<and> msk \<noteq> 0 then data else None)"

text \<open>The search: the datum of the deepest node with one on the path, and the number of nodes visited.\<close>

fun find_from :: "'w::len word \<Rightarrow> 'w word \<Rightarrow> 'd rnode \<Rightarrow> 'd option \<Rightarrow> nat \<Rightarrow> 'd option \<times> nat" where
  "find_from cursor key RNull ret elem = (ret, elem)"
| "find_from cursor key (RNode l r data) ret elem =
     find_from (drop_bit 1 cursor) key (if key AND cursor \<noteq> 0 then r else l)
       (if data \<noteq> None then data else ret) (Suc elem)"

definition patricia_find :: "'d rnode \<Rightarrow> 32 word \<Rightarrow> nat \<Rightarrow> 'd option \<times> nat" where
  "patricia_find root key elem = find_from 0x80000000 key root None elem"

definition patricia_find128 :: "'d rnode \<Rightarrow> 128 word \<Rightarrow> nat \<Rightarrow> 'd option \<times> nat" where
  "patricia_find128 root key elem = find_from (push_bit 64 0x8000000000000000 OR 0) key root None elem"

section \<open>Addresses\<close>

definition ip_get_version :: "string \<Rightarrow> nat" where
  "ip_get_version ip =
     (let c = peek ip (strcspn ip '':.'')
      in if c = CHR ''.'' then 4 else if c = CHR '':'' then 6 else 0)"

fun grpow_loop :: "128 word \<Rightarrow> 128 word \<Rightarrow> nat \<Rightarrow> 128 word" where
  "grpow_loop basis ret 0 = ret"
| "grpow_loop basis ret (Suc n) = grpow_loop basis (ret * basis) n"

definition grpow :: "128 word \<Rightarrow> nat \<Rightarrow> 128 word" where
  "grpow basis exponent =
     (if exponent = 0 then 1 else if exponent = 1 then basis else grpow_loop basis basis (exponent - 1))"

text \<open>
  The loop of \<open>ip_to_integer\<close>; the first number is the base of the digits.  \<open>sep\<close> is a
  \<open>uint8_t\<close> and \<open>ochextet\<close> a \<open>uint16_t\<close>.  The result has the pointer that the
  function stores through \<open>ptr\<close>.
\<close>

fun ip_blocks :: "nat \<Rightarrow> 128 word \<Rightarrow> nat \<Rightarrow> 128 word \<Rightarrow> string \<Rightarrow> 128 word \<times> string" where
  "ip_blocks base blocksize 0 ret cur = (ret, cur)"
| "ip_blocks base blocksize (Suc blocks) ret cur =
     (let (v, cur1) = strtoull base cur;
          ochextet = v mod 65536;
          sep = strcspn cur1 ''.:'' mod 256;
          blocks1 = (if peek cur1 sep \<noteq> CHR ''.'' \<and> peek cur1 sep \<noteq> CHR '':'' then 0 else blocks);
          ret1 = ret + grpow blocksize blocks1 * of_nat ochextet
      in if blocks1 = 0 then (ret1, cur1) else ip_blocks base blocksize blocks ret1 (drop 1 cur1))"

definition ip_to_integer :: "string \<Rightarrow> nat \<Rightarrow> 128 word \<times> string" where
  "ip_to_integer ip ip_version =
     (if ip_version = 6 then ip_blocks 16 65536 8 0 ip else ip_blocks 10 256 4 0 ip)"

definition ip_get_mask128 :: "nat \<Rightarrow> 128 word" where
  "ip_get_mask128 prefix = - 1 - grpow 2 (128 - (if prefix > 128 then 128 else prefix)) + 1"

definition ip_get_mask :: "nat \<Rightarrow> 32 word" where
  "ip_get_mask prefix = ucast (0xFFFFFFFF - grpow 2 (32 - (if prefix > 32 then 32 else prefix)) + 1)"

text \<open>The prefix length is a \<open>uint8_t\<close>.\<close>

definition cidr_prefix :: "string \<Rightarrow> nat \<Rightarrow> nat" where
  "cidr_prefix pref dflt = (if peek pref 0 = CHR ''/'' then fst (strtoull 10 (drop 1 pref)) mod 256 else dflt)"

definition cidr_to_ip_and_mask :: "string \<Rightarrow> 32 word \<times> 32 word" where
  "cidr_to_ip_and_mask cidr =
     (let (ip, pref) = ip_to_integer cidr 4 in (ucast ip, ip_get_mask (cidr_prefix pref 32)))"

definition cidr_to_ip_and_mask128 :: "string \<Rightarrow> 128 word \<times> 128 word" where
  "cidr_to_ip_and_mask128 cidr =
     (let (ip, pref) = ip_to_integer cidr 6 in (ip, ip_get_mask128 (cidr_prefix pref 128)))"

text \<open>
  \<open>integer_to_ip\<close>: a buffer of 40 bytes, the write position and the room the code believes is
  left.  A write outside the buffer is the error \<open>Overrun\<close>.
\<close>

datatype print_error = Overrun

record printer =
  p_buf :: string
  p_cur :: nat
  p_remain :: nat

definition put_bytes :: "string \<Rightarrow> nat \<Rightarrow> string \<Rightarrow> print_error + string" where
  "put_bytes buf at bytes =
     (if at + length bytes > length buf then Inl Overrun
      else Inr (take at buf @ bytes @ drop (at + length bytes) buf))"

text \<open>\<open>snprintf (cur, remain, "%u", number)\<close> and the bookkeeping after it.\<close>

definition print_number :: "nat \<Rightarrow> printer \<Rightarrow> print_error + printer" where
  "print_number number p =
     (let s = print_dec number
      in case put_bytes (p_buf p) (p_cur p) (take (p_remain p - 1) s @ [CHR 0x00]) of
           Inl e \<Rightarrow> Inl e
         | Inr buf \<Rightarrow> Inr \<lparr>p_buf = buf, p_cur = p_cur p + length s,
                           p_remain = (if p_remain p > length s then p_remain p - length s else 1)\<rparr>)"

definition print_char :: "char \<Rightarrow> printer \<Rightarrow> print_error + printer" where
  "print_char c p =
     (if p_remain p > 1
      then (case put_bytes (p_buf p) (p_cur p) [c, CHR 0x00] of
              Inl e \<Rightarrow> Inl e
            | Inr buf \<Rightarrow> Inr \<lparr>p_buf = buf, p_cur = p_cur p + 1, p_remain = p_remain p - 1\<rparr>)
      else Inr p)"

fun print_blocks :: "128 word \<Rightarrow> nat \<Rightarrow> char \<Rightarrow> nat \<Rightarrow> 128 word \<Rightarrow> printer \<Rightarrow> print_error + printer" where
  "print_blocks basis width sep 0 ipaddr p = Inr p"
| "print_blocks basis width sep (Suc blocks) ipaddr p =
     (let select = grpow basis blocks;
          p1 = (if ipaddr \<ge> select then print_number (unat (ipaddr div select) mod 2 ^ width) p
                else print_char (CHR ''0'') p);
          ipaddr1 = (if ipaddr \<ge> select then ipaddr - (ipaddr div select) * select else ipaddr)
      in case p1 of
           Inl e \<Rightarrow> Inl e
         | Inr p1 \<Rightarrow>
             (case (if blocks \<noteq> 0 then print_char sep p1 else Inr p1) of
                Inl e \<Rightarrow> Inl e
              | Inr p2 \<Rightarrow> print_blocks basis width sep blocks ipaddr1 p2))"

definition integer_to_ip :: "128 word \<Rightarrow> nat \<Rightarrow> print_error + string option" where
  "integer_to_ip ipaddr ip_version =
     (let p = \<lparr>p_buf = replicate 40 (CHR 0x00), p_cur = 0, p_remain = 40\<rparr>;
          str = (\<lambda>p. Some (takeWhile (\<lambda>c. c \<noteq> CHR 0x00) (p_buf p)))
      in if ip_version = 4 then map_sum id str (print_blocks 256 8 (CHR ''.'') 4 ipaddr p)
         else if ip_version = 6 then map_sum id str (print_blocks 65536 16 (CHR '':'') 8 ipaddr p)
         else Inr None)"

section \<open>Access lists\<close>

datatype acl_error = Null_Tree | Freed_Cell

record acl =
  a_tree :: "nat rnode option"
  a_tree6 :: "nat rnode option"
  a_mem :: "nat \<rightharpoonup> 8 word"
  a_next :: nat

definition new_cell :: "8 word \<Rightarrow> acl \<Rightarrow> nat \<times> acl" where
  "new_cell v S = (a_next S, S\<lparr>a_mem := (a_mem S)(a_next S \<mapsto> v), a_next := Suc (a_next S)\<rparr>)"

definition free_cell :: "nat option \<Rightarrow> acl \<Rightarrow> acl" where
  "free_cell a S = (case a of None \<Rightarrow> S | Some a \<Rightarrow> S\<lparr>a_mem := (a_mem S)(a := None)\<rparr>)"

definition network_add_ip :: "acl \<Rightarrow> string \<Rightarrow> nat \<Rightarrow> acl_error + acl" where
  "network_add_ip S s_ip tag =
     (if ip_get_version s_ip = 4 then
        (case a_tree S of
           None \<Rightarrow> Inl Null_Tree
         | Some root \<Rightarrow>
             (let (ip, msk) = cidr_to_ip_and_mask s_ip; (root', old) = patricia_insert root ip msk tag
              in Inr (free_cell old (S\<lparr>a_tree := Some root'\<rparr>))))
      else if ip_get_version s_ip = 6 then
        (case a_tree6 S of
           None \<Rightarrow> Inl Null_Tree
         | Some root \<Rightarrow>
             (let (ip, msk) = cidr_to_ip_and_mask128 s_ip; (root', old) = patricia_insert128 root ip msk tag
              in Inr (free_cell old (S\<lparr>a_tree6 := Some root'\<rparr>))))
      else Inr S)"

definition network_del_ip :: "acl \<Rightarrow> string \<Rightarrow> acl_error + nat option" where
  "network_del_ip S s_ip =
     (if ip_get_version s_ip = 4 then
        (case a_tree S of
           None \<Rightarrow> Inl Null_Tree
         | Some root \<Rightarrow> (let (ip, msk) = cidr_to_ip_and_mask s_ip in Inr (patricia_delete root ip msk)))
      else if ip_get_version s_ip = 6 then
        (case a_tree6 S of
           None \<Rightarrow> Inl Null_Tree
         | Some root \<Rightarrow> (let (ip, msk) = cidr_to_ip_and_mask128 s_ip in Inr (patricia_delete128 root ip msk)))
      else Inr None)"

text \<open>The search of an IPv6 address runs over \<open>tree\<close>, as the source has it.\<close>

definition read_cell :: "acl \<Rightarrow> nat option \<Rightarrow> acl_error + 8 word" where
  "read_cell S a = (case a of None \<Rightarrow> Inr 0
                    | Some a \<Rightarrow> (case a_mem S a of None \<Rightarrow> Inl Freed_Cell | Some v \<Rightarrow> Inr v))"

definition ip_check_access :: "acl \<Rightarrow> string \<Rightarrow> acl_error + 8 word" where
  "ip_check_access S ip =
     (if a_tree S = None \<and> a_tree6 S = None then Inr 1
      else if ip_get_version ip = 6 then
        (case a_tree S of
           None \<Rightarrow> Inl Null_Tree
         | Some root \<Rightarrow> read_cell S (fst (patricia_find128 root (fst (cidr_to_ip_and_mask128 ip)) 0)))
      else if ip_get_version ip = 4 then
        (case a_tree S of
           None \<Rightarrow> Inl Null_Tree
         | Some root \<Rightarrow> read_cell S (fst (patricia_find root (fst (cidr_to_ip_and_mask ip)) 0)))
      else Inr 0)"

definition add_rule :: "acl \<Rightarrow> string \<Rightarrow> 8 word \<Rightarrow> acl_error + acl" where
  "add_rule S cidr v = (let (a, S1) = new_cell v S in network_add_ip S1 cidr a)"

definition network_range_push :: "acl \<Rightarrow> string \<Rightarrow> 8 word \<Rightarrow> acl_error + acl" where
  "network_range_push S cidr action =
     (if a_tree S = None \<and> a_tree6 S = None
      then (let opposite = (if action = 0 then 1 else 0)
            in case add_rule (S\<lparr>a_tree := Some RNull, a_tree6 := Some RNull\<rparr>) ''0.0.0.0/0'' opposite of
                 Inl e \<Rightarrow> Inl e
               | Inr S1 \<Rightarrow>
                   (case add_rule S1 ''::0'' opposite of
                      Inl e \<Rightarrow> Inl e
                    | Inr S2 \<Rightarrow> add_rule S2 cidr action))
      else add_rule S cidr action)"

definition network_range_delete :: "acl \<Rightarrow> string \<Rightarrow> acl_error + acl" where
  "network_range_delete S cidr = map_sum id (\<lambda>a. free_cell a S) (network_del_ip S cidr)"

section \<open>Release and copies\<close>

text \<open>\<open>patricia_node_free\<close>: the right branch, the left branch, the datum; the result counts the data as a \<open>uint32_t\<close>.\<close>

fun patricia_node_free :: "nat rnode \<Rightarrow> acl \<Rightarrow> 32 word \<times> acl" where
  "patricia_node_free RNull S = (0, S)"
| "patricia_node_free (RNode l r data) S =
     (let (c1, S1) = patricia_node_free r S; (c2, S2) = patricia_node_free l S1
      in (c1 + c2 + (if data \<noteq> None then 1 else 0), free_cell data S2))"

definition patricia_free :: "nat rnode option \<Rightarrow> acl \<Rightarrow> 32 word \<times> acl" where
  "patricia_free t S = (case t of None \<Rightarrow> (0, S) | Some root \<Rightarrow> patricia_node_free root S)"

text \<open>
  \<open>patricia_node_duplicate\<close>: the right branch, the left branch, then the datum, which is copied
  into a new cell.  A read of a freed cell is the error None.
\<close>

fun patricia_node_duplicate :: "nat rnode \<Rightarrow> acl \<Rightarrow> (nat rnode \<times> acl) option" where
  "patricia_node_duplicate RNull S = Some (RNull, S)"
| "patricia_node_duplicate (RNode l r data) S =
     (case patricia_node_duplicate r S of
        None \<Rightarrow> None
      | Some (r', S1) \<Rightarrow>
          (case patricia_node_duplicate l S1 of
             None \<Rightarrow> None
           | Some (l', S2) \<Rightarrow>
               (case data of
                  None \<Rightarrow> Some (RNode l' r' None, S2)
                | Some a \<Rightarrow>
                    (case a_mem S2 a of
                       None \<Rightarrow> None
                     | Some v \<Rightarrow> (let (b, S3) = new_cell v S2 in Some (RNode l' r' (Some b), S3))))))"

definition patricia_tree_duplicate :: "nat rnode option \<Rightarrow> acl \<Rightarrow> (nat rnode option \<times> acl) option" where
  "patricia_tree_duplicate src S =
     (case src of
        None \<Rightarrow> Some (None, S)
      | Some root \<Rightarrow> map_option (\<lambda>(root', S'). (Some root', S')) (patricia_node_duplicate root S))"

section \<open>Keys as bit sequences\<close>

text \<open>Bit \<open>d\<close> of a key counted from the most significant one, which is how the cursor walks.\<close>

definition net_bit :: "'w::len word \<Rightarrow> nat \<Rightarrow> bool" where
  "net_bit k d \<longleftrightarrow> d < LENGTH('w) \<and> bit k (LENGTH('w) - 1 - d)"

definition cursor_at :: "nat \<Rightarrow> 'w::len word" where
  "cursor_at d = drop_bit d (push_bit (LENGTH('w) - 1) 1)"

lemma cursor_next: "drop_bit (Suc 0) (cursor_at d) = cursor_at (Suc d)"
  by (simp add: cursor_at_def)

lemma bit_cursor: "bit (cursor_at d :: 'w::len word) i \<longleftrightarrow> d + i = LENGTH('w) - 1"
  by (auto simp: cursor_at_def bit_drop_bit_eq bit_exp_iff push_bit_of_1 possible_bit_def)

lemma cursor_key: "key AND cursor_at d \<noteq> 0 \<longleftrightarrow> net_bit key d" for key :: "'w::len word"
proof
  assume "key AND cursor_at d \<noteq> 0"
  then obtain i where i: "bit (key AND cursor_at d) i" by (auto simp: bit_eq_iff)
  then have "d + i = LENGTH('w) - 1" "bit key i" by (auto simp: bit_and_iff bit_cursor)
  moreover have "0 < LENGTH('w)" by simp
  ultimately have "d < LENGTH('w)" "LENGTH('w) - 1 - d = i" by linarith+
  then show "net_bit key d" using \<open>bit key i\<close> unfolding net_bit_def by simp
next
  assume "net_bit key d"
  then have "bit (key AND cursor_at d) (LENGTH('w) - 1 - d)" by (auto simp: net_bit_def bit_and_iff bit_cursor)
  then show "key AND cursor_at d \<noteq> 0" by auto
qed

lemma cursor_mask: "cursor_at d AND m = 0 \<longleftrightarrow> \<not> net_bit m d"
  using cursor_key [of m d] by (subst and.commute) blast

lemma top_cursor:
  "(0x80000000 :: 32 word) = cursor_at 0" "push_bit 64 0x8000000000000000 OR 0 = (cursor_at 0 :: 128 word)"
  by (simp_all add: cursor_at_def)

definition netbits :: "'w::len word \<Rightarrow> nat \<Rightarrow> nat \<Rightarrow> bool list" where
  "netbits k d p = map (net_bit k) [d..<p]"

definition prefix_mask :: "'w::len word \<Rightarrow> nat \<Rightarrow> bool" where
  "prefix_mask m p \<longleftrightarrow> p \<le> LENGTH('w) \<and> (\<forall>d. net_bit m d \<longleftrightarrow> d < p)"

lemma netbits_step: "d < p \<Longrightarrow> netbits k d p = net_bit k d # netbits k (Suc d) p"
  by (simp add: netbits_def upt_conv_Cons)

lemma netbits_end [simp]: "netbits k p p = []"
  by (simp add: netbits_def)

section \<open>The trie as a map from prefixes\<close>

fun entry :: "'d rnode \<Rightarrow> bool list \<Rightarrow> 'd option" where
  "entry RNull bs = None"
| "entry (RNode l r x) [] = x"
| "entry (RNode l r x) (b # bs) = entry (if b then r else l) bs"

fun rheight :: "'d rnode \<Rightarrow> nat" where
  "rheight RNull = 0"
| "rheight (RNode l r x) = Suc (max (rheight l) (rheight r))"

lemma entry_Cons: "t \<noteq> RNull \<Longrightarrow> entry t (b # bs) = entry (if b then rright t else rleft t) bs"
  by (cases t) auto

lemma entry_Nil: "t \<noteq> RNull \<Longrightarrow> entry t [] = rdata t"
  by (cases t) auto

lemma entry_fun_eqI:
  "t \<noteq> RNull \<Longrightarrow> rdata t = f [] \<Longrightarrow> (\<And>bs. entry (rleft t) bs = f (False # bs)) \<Longrightarrow>
   (\<And>bs. entry (rright t) bs = f (True # bs)) \<Longrightarrow> entry t = f"
proof (rule ext)
  fix bs assume a: "t \<noteq> RNull" "rdata t = f []" "\<And>bs. entry (rleft t) bs = f (False # bs)"
   "\<And>bs. entry (rright t) bs = f (True # bs)"
  then show "entry t bs = f bs" by (cases bs; cases t) auto
qed

lemma create_path_ok:
  assumes "prefix_mask m p" "d \<le> p"
  shows "entry (create_path (cursor_at d) key m v) = [netbits key d p \<mapsto> v] \<and>
     create_path (cursor_at d) key m v \<noteq> RNull \<and> rheight (create_path (cursor_at d) key m v) = Suc (p - d)"
  using assms(2)
proof (induction "p - d" arbitrary: d)
  case 0
  then have "\<not> net_bit m d" "d = p" using assms(1) by (auto simp: prefix_mask_def)
  then show ?case
    by (subst (1 2 3) create_path.simps) (auto simp: cursor_mask intro!: entry_fun_eqI)
next
  case (Suc n)
  then have b: "net_bit m d" "d < p" using assms(1) by (auto simp: prefix_mask_def)
  have IH: "entry (create_path (cursor_at (Suc d)) key m v) = [netbits key (Suc d) p \<mapsto> v] \<and>
     create_path (cursor_at (Suc d)) key m v \<noteq> RNull \<and> rheight (create_path (cursor_at (Suc d)) key m v) = Suc (p - Suc d)"
    using Suc by (intro Suc(1)) auto
  then show ?case
    using b by (subst (1 2 3) create_path.simps)
      (auto simp: cursor_mask cursor_key cursor_next netbits_step [of d p] intro!: entry_fun_eqI)
qed

lemma insert_from_ok:
  assumes "prefix_mask m p" "d \<le> p" "t \<noteq> RNull" "rheight t \<le> Suc (LENGTH('w) - d)"
  shows "entry (fst (insert_from (cursor_at d) key (m :: 'w::len word) v t)) = (entry t)(netbits key d p \<mapsto> v) \<and>
     snd (insert_from (cursor_at d) key m v t) = entry t (netbits key d p) \<and>
     fst (insert_from (cursor_at d) key m v t) \<noteq> RNull \<and>
     rheight (fst (insert_from (cursor_at d) key m v t)) \<le> Suc (LENGTH('w) - d)"
  using assms(2-4)
proof (induction "p - d" arbitrary: d t)
  case 0
  then have "\<not> net_bit m d" "d = p" using assms(1) by (auto simp: prefix_mask_def)
  then show ?case using 0
    by (cases t; subst (1 2 3 4) insert_from.simps) (auto simp: cursor_mask intro!: entry_fun_eqI)
next
  case (Suc n)
  then have b: "net_bit m d" "d < p" and p: "p \<le> LENGTH('w)" using assms(1) by (auto simp: prefix_mask_def)
  obtain l r x where t: "t = RNode l r x" using Suc.prems(2) by (cases t) auto
  have h: "rheight l \<le> Suc (LENGTH('w) - Suc d)" "rheight r \<le> Suc (LENGTH('w) - Suc d)"
    using Suc.prems(3) b(2) p by (auto simp: t)
  note c = create_path_ok [OF assms(1), of "Suc d" key v]
  have IH: "entry (fst (insert_from (cursor_at (Suc d)) key m v u)) = (entry u)(netbits key (Suc d) p \<mapsto> v) \<and>
     snd (insert_from (cursor_at (Suc d)) key m v u) = entry u (netbits key (Suc d) p) \<and>
     fst (insert_from (cursor_at (Suc d)) key m v u) \<noteq> RNull \<and>
     rheight (fst (insert_from (cursor_at (Suc d)) key m v u)) \<le> Suc (LENGTH('w) - Suc d)"
    if "u \<noteq> RNull" "rheight u \<le> Suc (LENGTH('w) - Suc d)" for u
    using Suc that by (intro Suc(1)) auto
  show ?case
  proof (cases "net_bit key d")
    case True
    then show ?thesis
      using b IH [of r] h c p by (subst (1 2 3 4) insert_from.simps)
        (auto simp: t cursor_mask cursor_key cursor_next netbits_step [of d p] split_beta Let_def intro!: entry_fun_eqI)
  next
    case False
    then show ?thesis
      using b IH [of l] h c p by (subst (1 2 3 4) insert_from.simps)
        (auto simp: t cursor_mask cursor_key cursor_next netbits_step [of d p] split_beta Let_def intro!: entry_fun_eqI)
  qed
qed

section \<open>Longest prefix match\<close>

fun best :: "'d rnode \<Rightarrow> bool list \<Rightarrow> 'd option \<Rightarrow> 'd option" where
  "best RNull bs ret = ret"
| "best (RNode l r x) [] ret = (if x \<noteq> None then x else ret)"
| "best (RNode l r x) (b # bs) ret = best (if b then r else l) bs (if x \<noteq> None then x else ret)"

definition longest :: "(bool list \<rightharpoonup> 'd) \<Rightarrow> bool list \<Rightarrow> (nat \<times> 'd) option \<Rightarrow> bool" where
  "longest m bs res =
     (case res of
        None \<Rightarrow> \<forall>p \<le> length bs. m (take p bs) = None
      | Some (p, d) \<Rightarrow> p \<le> length bs \<and> m (take p bs) = Some d \<and> (\<forall>q. p < q \<and> q \<le> length bs \<longrightarrow> m (take q bs) = None))"

lemma find_from_best:
  assumes "rheight t \<le> Suc (LENGTH('w) - d)"
  shows "fst (find_from (cursor_at d) (key :: 'w::len word) t ret n) = best t (netbits key d LENGTH('w)) ret"
  using assms
proof (induction t arbitrary: d ret n)
  case (RNode l r x)
  show ?case
  proof (cases "d < LENGTH('w)")
    case True
    then have "rheight (if net_bit key d then r else l) \<le> Suc (LENGTH('w) - Suc d)"
      using RNode.prems by auto
    then have "fst (find_from (cursor_at (Suc d)) key (if net_bit key d then r else l) ret' n') =
        best (if net_bit key d then r else l) (netbits key (Suc d) LENGTH('w)) ret'" for ret' n'
      using RNode.IH by (cases "net_bit key d") auto
    then show ?thesis by (simp add: cursor_key cursor_next netbits_step [OF True])
  next
    case False
    then have "l = RNull" "r = RNull" "netbits key d LENGTH('w) = []"
      using RNode.prems by (cases l; cases r; auto simp: netbits_def)+
    then show ?thesis by simp
  qed
qed simp

lemma longest_Cons:
  assumes "longest (entry (RNode l r x)) (b # bs) res"
  shows "longest (entry (if b then r else l)) bs
           (case res of None \<Rightarrow> None | Some (0, d) \<Rightarrow> None | Some (Suc p, d) \<Rightarrow> Some (p, d))"
    and "res = None \<Longrightarrow> x = None" and "res = Some (0, d) \<Longrightarrow> x = Some d"
proof -
  let ?u = "if b then r else l"
  have e: "entry (RNode l r x) (take (Suc q) (b # bs)) = entry ?u (take q bs)" for q by simp
  have n0: "res = None \<Longrightarrow> q \<le> Suc (length bs) \<Longrightarrow> entry (RNode l r x) (take q (b # bs)) = None" for q
    using assms by (simp add: longest_def)
  show "res = None \<Longrightarrow> x = None" using n0 [of 0] by simp
  show "res = Some (0, d) \<Longrightarrow> x = Some d" using assms by (auto simp: longest_def)
  show "longest (entry ?u) bs (case res of None \<Rightarrow> None | Some (0, d) \<Rightarrow> None | Some (Suc p, d) \<Rightarrow> Some (p, d))"
  proof (cases res)
    case None
    then have "\<forall>q \<le> length bs. entry ?u (take q bs) = None"
      using n0 e by (metis Suc_le_mono)
    then show ?thesis by (simp add: None longest_def)
  next
    case (Some pd)
    obtain p d where pd: "pd = (p, d)" by (cases pd)
    have a: "p \<le> Suc (length bs)" "entry (RNode l r x) (take p (b # bs)) = Some d"
      "\<And>q. p < q \<Longrightarrow> q \<le> Suc (length bs) \<Longrightarrow> entry (RNode l r x) (take q (b # bs)) = None"
      using assms unfolding longest_def Some pd by auto
    have n: "entry ?u (take q bs) = None" if "p < Suc q" "q \<le> length bs" for q using a(3) [of "Suc q"] e that by simp
    show ?thesis
    proof (cases p)
      case 0
      then show ?thesis using n by (simp add: Some pd longest_def)
    next
      case (Suc p')
      then show ?thesis using n a(1,2) e [of p'] by (simp add: Some pd longest_def)
    qed
  qed
qed

lemma best_longest: "longest (entry t) bs res \<Longrightarrow> best t bs ret = (case res of None \<Rightarrow> ret | Some (_, d) \<Rightarrow> Some d)"
proof (induction t bs ret arbitrary: res rule: best.induct)
  case (1 bs ret)
  then show ?case by (auto simp: longest_def split: option.splits)
next
  case (2 l r x ret)
  then show ?case by (auto simp: longest_def split: option.splits)
next
  case (3 l r x b bs ret)
  note c = longest_Cons [OF 3(2)]
  note IH = 3(1) [OF c(1)]
  show ?case
  proof (cases res)
    case None
    then show ?thesis using IH c(2) by simp
  next
    case (Some pd)
    then show ?thesis using IH c(3) by (cases pd; cases "fst pd") auto
  qed
qed

text \<open>The reference: the rules in the order they were pushed, the longest one that matches wins, the later of equals.\<close>

definition matches :: "'w::len word \<Rightarrow> 'w word \<Rightarrow> nat \<Rightarrow> bool" where
  "matches key k p \<longleftrightarrow> (\<forall>d < p. net_bit key d = net_bit k d)"

definition lpm_step :: "'w::len word \<Rightarrow> (nat \<times> 'd) option \<Rightarrow> 'w word \<times> nat \<times> 'd \<Rightarrow> (nat \<times> 'd) option" where
  "lpm_step key b e = (case e of (k, p, d) \<Rightarrow>
     if matches key k p \<and> (case b of None \<Rightarrow> True | Some (p', _) \<Rightarrow> p' \<le> p) then Some (p, d) else b)"

definition lpm :: "('w::len word \<times> nat \<times> 'd) list \<Rightarrow> 'w word \<Rightarrow> (nat \<times> 'd) option" where
  "lpm es key = foldl (lpm_step key) None es"

definition rule_map :: "('w::len word \<times> nat \<times> 'd) list \<Rightarrow> bool list \<rightharpoonup> 'd" where
  "rule_map es = foldl (\<lambda>m (k, p, d). m(netbits k 0 p \<mapsto> d)) Map.empty es"

lemma take_netbits: "p \<le> n \<Longrightarrow> take p (netbits k 0 n) = netbits k 0 p"
  by (simp add: netbits_def take_map)

lemma length_netbits [simp]: "length (netbits k d p) = p - d"
  by (simp add: netbits_def)

lemma matches_netbits: "matches key k p \<longleftrightarrow> netbits key 0 p = netbits k 0 p"
  by (auto simp: matches_def netbits_def)

lemma netbits_eq: "netbits k 0 p = netbits j 0 q \<Longrightarrow> p = q"
  by (metis length_netbits minus_nat.diff_0)

lemma longest_step:
  assumes l: "longest m (netbits key 0 LENGTH('w)) b" and p: "p \<le> LENGTH('w)"
  shows "longest (m(netbits k 0 p \<mapsto> d)) (netbits key 0 LENGTH('w)) (lpm_step (key :: 'w::len word) b (k, p, d))"
proof -
  let ?N = "LENGTH('w)" and ?m = "m(netbits k 0 p \<mapsto> d)"
  have up: "?m (netbits key 0 q) = (if matches key k p \<and> q = p then Some d else m (netbits key 0 q))" for q
    using netbits_eq [of key q k p] by (auto simp: matches_netbits)
  have L: "longest f (netbits key 0 ?N) r = (case r of None \<Rightarrow> \<forall>q \<le> ?N. f (netbits key 0 q) = None
      | Some (q, e) \<Rightarrow> q \<le> ?N \<and> f (netbits key 0 q) = Some e \<and> (\<forall>q'. q < q' \<and> q' \<le> ?N \<longrightarrow> f (netbits key 0 q') = None))" for f r
    by (auto simp: longest_def take_netbits split: option.split)
  show ?thesis
  proof (cases b)
    case None
    then show ?thesis using l p unfolding L lpm_step_def by (auto simp: up simp del: fun_upd_apply)
  next
    case (Some qe)
    obtain q e where qe: "qe = (q, e)" by (cases qe)
    show ?thesis using l p unfolding L lpm_step_def Some qe by (auto simp: up simp del: fun_upd_apply)
  qed
qed

lemma lpm_longest:
  assumes "\<And>k p d. (k, p, d) \<in> set es \<Longrightarrow> p \<le> LENGTH('w)"
  shows "longest (rule_map es) (netbits key 0 LENGTH('w)) (lpm es (key :: 'w::len word))"
  using assms
proof (induction es rule: rev_induct)
  case Nil
  then show ?case by (simp add: longest_def lpm_def rule_map_def)
next
  case (snoc e es)
  obtain k p d where e: "e = (k, p, d)" by (cases e)
  have "p \<le> LENGTH('w)" using snoc.prems [of k p d] by (simp add: e)
  moreover have "longest (rule_map es) (netbits key 0 LENGTH('w)) (lpm es key)"
    by (rule snoc.IH) (use snoc.prems in auto)
  moreover have "rule_map (es @ [e]) = (rule_map es)(netbits k 0 p \<mapsto> d)" by (simp add: rule_map_def e)
  moreover have "lpm (es @ [e]) key = lpm_step key (lpm es key) (k, p, d)" by (simp add: lpm_def e)
  ultimately show ?case using longest_step by metis
qed

section \<open>Masks\<close>

lemma grpow_loop: "grpow_loop b r n = r * b ^ n"
  by (induction n arbitrary: r) (simp_all add: mult.assoc)

lemma grpow_power: "grpow b e = b ^ e"
  by (cases e) (auto simp: grpow_def grpow_loop)

lemma prefix_mask_neg:
  assumes "p \<le> LENGTH('w)"
  shows "prefix_mask (- (2 ^ (LENGTH('w) - p)) :: 'w::len word) p"
proof -
  have "- (2 ^ k) = NOT (mask k :: 'w word)" for k by (simp add: mask_eq_exp_minus_1 minus_eq_not_minus_1)
  then have "bit (- (2 ^ k) :: 'w word) i \<longleftrightarrow> i < LENGTH('w) \<and> k \<le> i" for i k
    by (auto simp: bit_not_iff bit_mask_iff)
  then show ?thesis using assms by (auto simp: prefix_mask_def net_bit_def)
qed

lemma ip_get_mask128_prefix: "prefix_mask (ip_get_mask128 p) (min p 128)"
  using prefix_mask_neg [of "min p 128", where ?'w = 128] by (auto simp: ip_get_mask128_def grpow_power min_def)

lemma ip_get_mask_neg:
  assumes "k \<le> 32"
  shows "(ucast (0xFFFFFFFF - (2 :: 128 word) ^ k + 1) :: 32 word) = - (2 ^ k)"
proof -
  have le: "(2::nat) ^ k \<le> 2 ^ 32" using assms by (rule power_increasing) simp
  have "0xFFFFFFFF - (2 :: 128 word) ^ k + 1 = of_nat (2 ^ 32 - 2 ^ k)" using le by (simp add: of_nat_diff)
  moreover have "(2::nat) ^ 32 - 2 ^ k < 2 ^ 128" by simp
  then have "ucast (of_nat (2 ^ 32 - 2 ^ k) :: 128 word) = (of_nat (2 ^ 32 - 2 ^ k) :: 32 word)"
    by (simp add: unsigned_of_nat take_bit_nat_eq_self)
  moreover have "(of_nat (2 ^ 32 - 2 ^ k) :: 32 word) = - (2 ^ k)" using le by (simp add: of_nat_diff)
  ultimately show ?thesis by simp
qed

lemma ip_get_mask_prefix: "prefix_mask (ip_get_mask p) (min p 32)"
proof -
  have m: "(if p > 32 then 32 else p) = min p 32" by simp
  have "ip_get_mask p = - (2 ^ (32 - min p 32))"
    unfolding ip_get_mask_def grpow_power m by (rule ip_get_mask_neg) simp
  then show ?thesis using prefix_mask_neg [of "min p 32", where ?'w = 32] by simp
qed

section \<open>The trie on whole keys\<close>

lemma node_create: "patricia_node_create \<noteq> RNull" "entry patricia_node_create = Map.empty" "rheight patricia_node_create = 1"
  by (auto simp: patricia_node_create_def intro!: entry_fun_eqI)

lemma entry_RNull [simp]: "entry RNull = Map.empty"
  by (rule ext) simp

lemma insert_root:
  fixes m :: "'w::len word"
  assumes "prefix_mask m p" "rheight root \<le> Suc LENGTH('w)"
    "r = insert_from (cursor_at 0) key m v (if root = RNull then patricia_node_create else root)"
  shows "entry (fst r) = (entry root)(netbits key 0 p \<mapsto> v)" "snd r = entry root (netbits key 0 p)"
    "rheight (fst r) \<le> Suc LENGTH('w)"
proof -
  let ?t = "if root = RNull then patricia_node_create else root"
  have "?t \<noteq> RNull" "entry ?t = entry root" "rheight ?t \<le> Suc (LENGTH('w) - 0)" using assms(2) by (auto simp: node_create)
  then show "entry (fst r) = (entry root)(netbits key 0 p \<mapsto> v)" "snd r = entry root (netbits key 0 p)"
    "rheight (fst r) \<le> Suc LENGTH('w)"
    using insert_from_ok [OF assms(1), of 0 ?t key v] unfolding assms(3) by auto
qed

lemma find_root:
  fixes key :: "'w::len word"
  assumes "rheight root \<le> Suc LENGTH('w)" "longest (entry root) (netbits key 0 LENGTH('w)) res"
  shows "fst (find_from (cursor_at 0) key root None n) = map_option snd res"
  using find_from_best [of root 0 key None n] best_longest [OF assms(2), of None] assms(1)
  by (auto split: option.split)

lemma locate_entry:
  fixes m :: "'w::len word" and t :: "'d rnode"
  assumes "prefix_mask m p" "d \<le> p"
  shows "(case locate_from (cursor_at d) key m t of RNull \<Rightarrow> None | RNode _ _ x \<Rightarrow> x) = entry t (netbits key d p)"
  using assms(2)
proof (induction "p - d" arbitrary: d t)
  case 0
  then have "\<not> net_bit m d" "d = p" using assms(1) by (auto simp: prefix_mask_def)
  then show ?case by (subst locate_from.simps) (cases t; simp add: cursor_mask)
next
  case (Suc n)
  then have b: "net_bit m d" "d < p" using assms(1) by (auto simp: prefix_mask_def)
  have "(case locate_from (cursor_at (Suc d)) key m u of RNull \<Rightarrow> None | RNode _ _ x \<Rightarrow> x) = entry u (netbits key (Suc d) p)"
    for u :: "'d rnode"
    using Suc by (intro Suc(1)) auto
  then show ?case
    using b by (subst locate_from.simps) (cases t; simp add: cursor_mask cursor_key cursor_next netbits_step)
qed

lemma patricia_insert_ok:
  assumes "prefix_mask m p" "rheight root \<le> 33"
  shows "entry (fst (patricia_insert root key m v)) = (entry root)(netbits key 0 p \<mapsto> v)"
    "snd (patricia_insert root key m v) = entry root (netbits key 0 p)"
    "rheight (fst (patricia_insert root key m v)) \<le> 33"
  using insert_root [OF assms(1), of root "patricia_insert root key m v" key v] assms(2)
  by (simp_all add: patricia_insert_def top_cursor)

lemma patricia_find_ok:
  assumes "rheight root \<le> 33" "longest (entry root) (netbits key 0 32) res"
  shows "fst (patricia_find root key n) = map_option snd res"
  using find_root [of root key res n] assms by (simp add: patricia_find_def top_cursor)

lemma insert_list:
  fixes es :: "(32 word \<times> nat \<times> 'd) list"
  assumes "\<And>k p d. (k, p, d) \<in> set es \<Longrightarrow> p \<le> 32"
  defines "t \<equiv> foldl (\<lambda>t (k, p, d). fst (patricia_insert t k (ip_get_mask p) d)) RNull es"
  shows "entry t = rule_map es \<and> rheight t \<le> 33"
  using assms(1) unfolding t_def
proof (induction es rule: rev_induct)
  case Nil
  then show ?case by (simp add: rule_map_def)
next
  case (snoc e es)
  obtain k p d where e: "e = (k, p, d)" by (cases e)
  let ?t = "foldl (\<lambda>t (k, p, d). fst (patricia_insert t k (ip_get_mask p) d)) RNull es"
  have "p \<le> 32" using snoc.prems [of k p d] by (simp add: e)
  then have m: "prefix_mask (ip_get_mask p) p" using ip_get_mask_prefix [of p] by simp
  have IH: "entry ?t = rule_map es \<and> rheight ?t \<le> 33" by (rule snoc.IH) (use snoc.prems in auto)
  moreover have "rule_map (es @ [e]) = (rule_map es)(netbits k 0 p \<mapsto> d)" by (simp add: rule_map_def e)
  ultimately show ?case using patricia_insert_ok [OF m, of ?t k d] by (simp add: e)
qed

section \<open>Cells\<close>

text \<open>Every prefix of the two tries owns a cell of its own that is still allocated.\<close>

definition cells_ok :: "('x \<rightharpoonup> nat) \<Rightarrow> (nat \<rightharpoonup> 'v) \<Rightarrow> nat \<Rightarrow> bool" where
  "cells_ok c mem next \<longleftrightarrow> (\<forall>x y a. c x = Some a \<longrightarrow> c y = Some a \<longrightarrow> x = y) \<and>
     (\<forall>x a. c x = Some a \<longrightarrow> a < next \<and> mem a \<noteq> None)"

lemma cells_okD:
  assumes "cells_ok c mem next"
  shows "c x = Some a \<Longrightarrow> c y = Some a \<Longrightarrow> x = y" "c x = Some a \<Longrightarrow> a < next" "c x = Some a \<Longrightarrow> mem a \<noteq> None"
  using assms by (auto simp: cells_ok_def)

definition freed :: "nat option \<Rightarrow> (nat \<rightharpoonup> 'v) \<Rightarrow> nat \<rightharpoonup> 'v" where
  "freed a mem = (case a of None \<Rightarrow> mem | Some a \<Rightarrow> mem(a := None))"

lemma cells_update:
  assumes ok: "cells_ok c mem next"
  shows "cells_ok (c(x \<mapsto> next)) (freed (c x) (mem(next \<mapsto> v))) (Suc next)"
    and "Option.bind ((c(x \<mapsto> next)) y) (freed (c x) (mem(next \<mapsto> v))) = (if y = x then Some v else Option.bind (c y) mem)"
proof -
  note d = cells_okD [OF ok]
  have kept: "freed (c x) (mem(next \<mapsto> v)) a = (if a = next then Some v else mem a)" if "c x \<noteq> Some a" for a
    using that by (cases "c x") (auto simp: freed_def)
  have new: "c x \<noteq> Some next" using d(2) by blast
  have other: "c x \<noteq> Some a" "a \<noteq> next" "mem a \<noteq> None" "a < next" if "c y = Some a" "y \<noteq> x" for y a
    using d(1) [of y a x] d(2,3) [of y a] that by auto
  show "cells_ok (c(x \<mapsto> next)) (freed (c x) (mem(next \<mapsto> v))) (Suc next)"
    unfolding cells_ok_def
  proof (intro conjI allI impI)
    fix z y a assume "(c(x \<mapsto> next)) z = Some a" "(c(x \<mapsto> next)) y = Some a"
    then show "z = y" using other d(1) by (auto split: if_splits)
  next
    fix z a assume z: "(c(x \<mapsto> next)) z = Some a"
    then show "a < Suc next" using other by (auto split: if_splits dest: d(2))
    show "freed (c x) (mem(next \<mapsto> v)) a \<noteq> None"
      using z kept new other by (cases "z = x") auto
  qed
  show "Option.bind ((c(x \<mapsto> next)) y) (freed (c x) (mem(next \<mapsto> v))) = (if y = x then Some v else Option.bind (c y) mem)"
    using kept new other [of y] by (cases "c y") auto
qed

lemma cells_grow: "cells_ok c mem next \<Longrightarrow> cells_ok c (mem(next \<mapsto> v)) (Suc next)"
  by (auto simp: cells_ok_def less_Suc_eq)

definition cells :: "nat rnode \<Rightarrow> nat rnode \<Rightarrow> bool \<times> bool list \<rightharpoonup> nat" where
  "cells t t6 x = entry (if fst x then t6 else t) (snd x)"

lemma cells_update4: "entry t' = (entry t)(bs \<mapsto> a) \<Longrightarrow> cells t' t6 = (cells t t6)((False, bs) \<mapsto> a)"
  by (rule ext) (auto simp: cells_def)

lemma cells_update6: "entry t' = (entry t6)(bs \<mapsto> a) \<Longrightarrow> cells t t' = (cells t t6)((True, bs) \<mapsto> a)"
  by (rule ext) (auto simp: cells_def)

text \<open>The access list holds the IPv4 rules \<open>es\<close>.\<close>

definition holds :: "acl \<Rightarrow> (32 word \<times> nat \<times> 8 word) list \<Rightarrow> bool" where
  "holds S es \<longleftrightarrow> (\<exists>t t6. a_tree S = Some t \<and> a_tree6 S = Some t6 \<and> rheight t \<le> 33 \<and> rheight t6 \<le> 129 \<and>
     cells_ok (cells t t6) (a_mem S) (a_next S) \<and>
     (\<forall>bs. Option.bind (entry t bs) (a_mem S) = rule_map es bs) \<and> (\<forall>(k, p, v) \<in> set es. p \<le> 32))"

definition cidr_rule :: "string \<Rightarrow> 8 word \<Rightarrow> 32 word \<times> nat \<times> 8 word" where
  "cidr_rule cidr v =
     (fst (cidr_to_ip_and_mask cidr), min (cidr_prefix (snd (ip_to_integer cidr 4)) 32) 32, v)"

definition rules4 :: "(string \<times> 8 word) list \<Rightarrow> (32 word \<times> nat \<times> 8 word) list" where
  "rules4 cs = map (\<lambda>(c, a). cidr_rule c a) (filter (\<lambda>(c, a). ip_get_version c = 4) cs)"

lemma cidr_mask: "prefix_mask (snd (cidr_to_ip_and_mask c)) (fst (snd (cidr_rule c v)))"
  by (simp add: cidr_to_ip_and_mask_def cidr_rule_def split_beta ip_get_mask_prefix)

lemma cidr_mask128: "\<exists>p. prefix_mask (snd (cidr_to_ip_and_mask128 c)) p"
  by (auto simp: cidr_to_ip_and_mask128_def split_beta intro: ip_get_mask128_prefix)

lemma patricia_insert128_ok:
  assumes "prefix_mask m p" "rheight root \<le> 129"
  shows "entry (fst (patricia_insert128 root key m v)) = (entry root)(netbits key 0 p \<mapsto> v)"
    "snd (patricia_insert128 root key m v) = entry root (netbits key 0 p)"
    "rheight (fst (patricia_insert128 root key m v)) \<le> 129"
  using insert_root [OF assms(1), of root "patricia_insert128 root key m v" key v] assms(2)
  unfolding patricia_insert128_def top_cursor by simp_all

lemma free_cell_freed: "free_cell a S = S\<lparr>a_mem := freed a (a_mem S)\<rparr>"
  by (cases a) (simp_all add: free_cell_def freed_def)

lemma add_rule4:
  assumes h: "holds S es" and v4: "ip_get_version c = 4"
  shows "\<exists>S'. add_rule S c v = Inr S' \<and> holds S' (es @ [cidr_rule c v])"
proof -
  obtain t t6 where t: "a_tree S = Some t" "a_tree6 S = Some t6" "rheight t \<le> 33" "rheight t6 \<le> 129"
    "cells_ok (cells t t6) (a_mem S) (a_next S)" "\<And>bs. Option.bind (entry t bs) (a_mem S) = rule_map es bs"
    "\<forall>(k, p, v) \<in> set es. p \<le> 32"
    using h by (auto simp: holds_def)
  obtain ip m where im: "cidr_to_ip_and_mask c = (ip, m)" by (cases "cidr_to_ip_and_mask c")
  define p where "p = fst (snd (cidr_rule c v))"
  have r: "cidr_rule c v = (ip, p, v)" "p \<le> 32" by (simp_all add: p_def cidr_rule_def im)
  have m: "prefix_mask m p" using cidr_mask [of c v] by (simp add: im p_def)
  let ?bs = "netbits ip 0 p" and ?a = "a_next S"
  obtain t' old where i: "patricia_insert t ip m ?a = (t', old)" by (cases "patricia_insert t ip m ?a")
  have e: "entry t' = (entry t)(?bs \<mapsto> ?a)" "old = entry t ?bs" "rheight t' \<le> 33"
    using patricia_insert_ok [OF m t(3), of ip ?a] by (simp_all add: i)
  have c: "cells t' t6 = (cells t t6)((False, ?bs) \<mapsto> ?a)" by (rule cells_update4 [OF e(1)])
  have old: "old = cells t t6 (False, ?bs)" by (simp add: e(2) cells_def)
  let ?mem = "freed old ((a_mem S)(?a \<mapsto> v))"
  let ?S = "S\<lparr>a_mem := ?mem, a_next := Suc ?a, a_tree := Some t'\<rparr>"
  note u = cells_update [OF t(5), where x = "(False, ?bs)" and v = v]
  have "Option.bind (entry t' bs) ?mem = rule_map (es @ [(ip, p, v)]) bs" for bs
    using u(2) [of "(False, bs)"] t(6) [of bs] unfolding c [symmetric] old [symmetric] by (simp add: cells_def rule_map_def)
  then have "holds ?S (es @ [(ip, p, v)])"
    using t e(3) u(1) r(2) unfolding holds_def by (auto simp: c old simp del: fun_upd_apply)
  moreover have "add_rule S c v = Inr ?S"
    using v4 by (simp add: add_rule_def new_cell_def network_add_ip_def t(1) im i free_cell_freed)
  ultimately show ?thesis unfolding r(1) by blast
qed

lemma add_rule_other:
  assumes h: "holds S es" and v4: "ip_get_version c \<noteq> 4"
  shows "\<exists>S'. add_rule S c v = Inr S' \<and> holds S' es"
proof -
  obtain t t6 where t: "a_tree S = Some t" "a_tree6 S = Some t6" "rheight t \<le> 33" "rheight t6 \<le> 129"
    "cells_ok (cells t t6) (a_mem S) (a_next S)" "\<And>bs. Option.bind (entry t bs) (a_mem S) = rule_map es bs"
    "\<forall>(k, p, v) \<in> set es. p \<le> 32"
    using h by (auto simp: holds_def)
  let ?a = "a_next S"
  show ?thesis
  proof (cases "ip_get_version c = 6")
    case True
    obtain ip m where im: "cidr_to_ip_and_mask128 c = (ip, m)" by (cases "cidr_to_ip_and_mask128 c")
    obtain p where m: "prefix_mask m p" using cidr_mask128 [of c] by (auto simp: im)
    let ?bs = "netbits ip 0 p"
    obtain t' old where i: "patricia_insert128 t6 ip m ?a = (t', old)" by (cases "patricia_insert128 t6 ip m ?a")
    have e: "entry t' = (entry t6)(?bs \<mapsto> ?a)" "old = entry t6 ?bs" "rheight t' \<le> 129"
      using patricia_insert128_ok [OF m t(4), of ip ?a] by (simp_all add: i)
    have c: "cells t t' = (cells t t6)((True, ?bs) \<mapsto> ?a)" by (rule cells_update6 [OF e(1)])
    have old: "old = cells t t6 (True, ?bs)" by (simp add: e(2) cells_def)
    let ?mem = "freed old ((a_mem S)(?a \<mapsto> v))"
    let ?S = "S\<lparr>a_mem := ?mem, a_next := Suc ?a, a_tree6 := Some t'\<rparr>"
    note u = cells_update [OF t(5), where x = "(True, ?bs)" and v = v]
    have "Option.bind (entry t bs) ?mem = rule_map es bs" for bs
      using u(2) [of "(False, bs)"] t(6) [of bs] unfolding c [symmetric] old [symmetric] by (simp add: cells_def)
    then have "holds ?S es" using t e(3) u(1) unfolding holds_def by (auto simp: c old simp del: fun_upd_apply)
    moreover have "add_rule S c v = Inr ?S"
      using True by (simp add: add_rule_def new_cell_def network_add_ip_def t(2) im i free_cell_freed)
    ultimately show ?thesis by blast
  next
    case False
    let ?S = "S\<lparr>a_mem := (a_mem S)(?a \<mapsto> v), a_next := Suc ?a\<rparr>"
    have "Option.bind (entry t bs) ((a_mem S)(?a \<mapsto> v)) = rule_map es bs" for bs
      using t(6) [of bs] cells_okD(2) [OF t(5), of "(False, bs)"] by (cases "entry t bs") (auto simp: cells_def)
    then have "holds ?S es" using t cells_grow [OF t(5), of v] unfolding holds_def by auto
    moreover have "add_rule S c v = Inr ?S"
      using False v4 by (simp add: add_rule_def new_cell_def network_add_ip_def)
    ultimately show ?thesis by blast
  qed
qed

section \<open>Pushing rules\<close>

fun push_all :: "acl \<Rightarrow> (string \<times> 8 word) list \<Rightarrow> acl_error + acl" where
  "push_all S [] = Inr S"
| "push_all S ((c, a) # cs) = (case network_range_push S c a of Inl e \<Rightarrow> Inl e | Inr S' \<Rightarrow> push_all S' cs)"

definition opposite :: "8 word \<Rightarrow> 8 word" where
  "opposite a = (if a = 0 then 1 else 0)"

lemma add_rule_ok:
  assumes "holds S es"
  shows "\<exists>S'. add_rule S c v = Inr S' \<and> holds S' (es @ rules4 [(c, v)])"
  using add_rule4 [OF assms, of c v] add_rule_other [OF assms, of c v] by (auto simp: rules4_def)

lemma version_examples: "ip_get_version ''0.0.0.0/0'' = 4" "ip_get_version ''::0'' = 6"
  by (simp_all add: ip_get_version_def strcspn_def peek_def)

lemma default_rule: "cidr_rule ''0.0.0.0/0'' v = (0, 0, v)"
proof -
  have d: "digit_value CHR ''0'' = 0" "digit_value CHR ''.'' = 255" "digit_value CHR ''/'' = 255"
    by (simp_all add: digit_value_def Let_def)
  have s: "strtoull 10 (CHR ''0'' # x) = (0, x)" if "x = [] \<or> hd x = CHR ''.'' \<or> hd x = CHR ''/''" for x
    using that by (cases x) (auto simp: strtoull_def isspace_def number_sign_def hex_prefix_def digits_value_def d ULLONG_MAX_def Let_def)
  have b: "ip_blocks 10 256 (Suc (Suc n)) 0 (CHR ''0'' # CHR ''.'' # x) = ip_blocks 10 256 (Suc n) 0 x" for n x
    by (subst ip_blocks.simps) (simp add: s strcspn_def peek_def del: ip_blocks.simps)
  have e: "ip_blocks 10 256 (Suc 0) 0 ''0/0'' = (0, ''/0'')" by (simp add: s strcspn_def peek_def)
  have "ip_to_integer ''0.0.0.0/0'' 4 = ip_blocks 10 256 (Suc (Suc (Suc (Suc 0)))) 0 ''0.0.0.0/0''"
    by (simp add: ip_to_integer_def numeral_eq_Suc del: ip_blocks.simps)
  then have "ip_to_integer ''0.0.0.0/0'' 4 = (0, ''/0'')" by (simp only: b e)
  then show ?thesis by (simp add: cidr_rule_def cidr_to_ip_and_mask_def cidr_prefix_def peek_def s)
qed

lemma fresh_holds: "holds (S\<lparr>a_tree := Some RNull, a_tree6 := Some RNull\<rparr>) []"
  by (simp add: holds_def cells_ok_def cells_def rule_map_def)

lemma first_push:
  assumes "a_tree S = None" "a_tree6 S = None"
  shows "\<exists>S'. network_range_push S c a = Inr S' \<and> holds S' ((0, 0, opposite a) # rules4 [(c, a)])"
proof -
  let ?S = "S\<lparr>a_tree := Some RNull, a_tree6 := Some RNull\<rparr>"
  obtain S1 where s1: "add_rule ?S ''0.0.0.0/0'' (opposite a) = Inr S1" "holds S1 [(0, 0, opposite a)]"
    using add_rule4 [OF fresh_holds version_examples(1), of S "opposite a"] by (auto simp: default_rule)
  obtain S2 where s2: "add_rule S1 ''::0'' (opposite a) = Inr S2" "holds S2 [(0, 0, opposite a)]"
    using add_rule_other [OF s1(2), of "''::0''" "opposite a"] version_examples(2) by auto
  obtain S3 where s3: "add_rule S2 c a = Inr S3" "holds S3 ([(0, 0, opposite a)] @ rules4 [(c, a)])"
    using add_rule_ok [OF s2(2)] by blast
  have "network_range_push S c a = Inr S3"
    using s1(1) s2(1) s3(1) assms unfolding network_range_push_def opposite_def by (simp add: Let_def)
  then show ?thesis using s3(2) by auto
qed

lemma next_push:
  assumes "holds S es"
  shows "\<exists>S'. network_range_push S c a = Inr S' \<and> holds S' (es @ rules4 [(c, a)])"
proof -
  have "a_tree S \<noteq> None" using assms by (auto simp: holds_def)
  then show ?thesis using add_rule_ok [OF assms] by (auto simp: network_range_push_def)
qed

lemma rules4_append: "rules4 (xs @ ys) = rules4 xs @ rules4 ys"
  by (simp add: rules4_def)

lemma push_more:
  assumes "holds S es"
  shows "\<exists>S'. push_all S cs = Inr S' \<and> holds S' (es @ rules4 cs)"
  using assms
proof (induction cs arbitrary: S es)
  case (Cons ca cs)
  obtain c a where ca: "ca = (c, a)" by (cases ca)
  obtain S1 where "network_range_push S c a = Inr S1" "holds S1 (es @ rules4 [(c, a)])"
    using next_push [OF Cons.prems] by blast
  then show ?case
    using Cons.IH [of S1 "es @ rules4 [(c, a)]"] rules4_append [of "[(c, a)]" cs] by (auto simp: ca)
qed (auto simp: rules4_def)

lemma push_all_holds:
  assumes "a_tree S = None" "a_tree6 S = None"
  shows "\<exists>S'. push_all S ((c, a) # cs) = Inr S' \<and> holds S' ((0, 0, opposite a) # rules4 ((c, a) # cs))"
proof -
  obtain S1 where "network_range_push S c a = Inr S1" "holds S1 ((0, 0, opposite a) # rules4 [(c, a)])"
    using first_push [OF assms] by blast
  then show ?thesis using push_more [of S1 _ cs] rules4_append [of "[(c, a)]" cs] by fastforce
qed

lemma check_holds:
  assumes h: "holds S es" and v4: "ip_get_version ip = 4"
  shows "ip_check_access S ip = Inr (case lpm es (fst (cidr_to_ip_and_mask ip)) of None \<Rightarrow> 0 | Some (p, v) \<Rightarrow> v)"
proof -
  obtain t t6 where t: "a_tree S = Some t" "a_tree6 S = Some t6" "rheight t \<le> 33" "rheight t6 \<le> 129"
    "cells_ok (cells t t6) (a_mem S) (a_next S)" "\<And>bs. Option.bind (entry t bs) (a_mem S) = rule_map es bs"
    "\<forall>(k, p, v) \<in> set es. p \<le> 32"
    using h by (auto simp: holds_def)
  let ?key = "fst (cidr_to_ip_and_mask ip)"
  have L: "longest (rule_map es) (netbits ?key 0 32) (lpm es ?key)"
    using lpm_longest [of es ?key] t(7) by (simp add: split_beta) force
  have alive: "entry t bs = Some a \<Longrightarrow> a_mem S a \<noteq> None" for bs a
    using cells_okD(3) [OF t(5), of "(False, bs)" a] by (simp add: cells_def)
  have none: "rule_map es bs = None \<longleftrightarrow> entry t bs = None" for bs
    using t(6) [of bs] alive [of bs] by (cases "entry t bs") auto
  show ?thesis
  proof (cases "lpm es ?key")
    case None
    then have "longest (entry t) (netbits ?key 0 32) None" using L by (simp add: longest_def none)
    then have "fst (patricia_find t ?key 0) = None" using patricia_find_ok [OF t(3)] by fastforce
    then show ?thesis using None v4 by (simp add: ip_check_access_def t(1) read_cell_def)
  next
    case (Some pv)
    obtain p v where pv: "pv = (p, v)" by (cases pv)
    then have r: "p \<le> 32" "rule_map es (netbits ?key 0 p) = Some v"
      "\<And>q. p < q \<Longrightarrow> q \<le> 32 \<Longrightarrow> rule_map es (netbits ?key 0 q) = None"
      using L Some by (auto simp: longest_def take_netbits)
    obtain a where a: "entry t (netbits ?key 0 p) = Some a" "a_mem S a = Some v"
      using t(6) [of "netbits ?key 0 p"] r(2) by (cases "entry t (netbits ?key 0 p)") auto
    have "longest (entry t) (netbits ?key 0 32) (Some (p, a))"
      using r a(1) none by (auto simp: longest_def take_netbits)
    then have "fst (patricia_find t ?key 0) = Some a" using patricia_find_ok [OF t(3)] by fastforce
    then show ?thesis using Some pv a(2) v4 by (simp add: ip_check_access_def t(1) read_cell_def)
  qed
qed

section \<open>Printing and reading addresses\<close>

definition printed :: "printer \<Rightarrow> string \<Rightarrow> bool" where
  "printed p s \<longleftrightarrow> length s < 40 \<and> p_buf p = s @ replicate (40 - length s) (CHR 0x00) \<and> p_cur p = length s \<and>
     p_remain p = 40 - length s"

lemma put_printed:
  assumes "length s + length x < 40"
  shows "put_bytes (s @ replicate (40 - length s) (CHR 0x00)) (length s) (x @ [CHR 0x00]) =
     Inr ((s @ x) @ replicate (40 - length (s @ x)) (CHR 0x00))"
proof -
  have "drop (length x + 1) (replicate (40 - length s) (CHR 0x00)) = replicate (40 - length s - (length x + 1)) (CHR 0x00)" by simp
  moreover have "40 - length (s @ x) = Suc (40 - length s - (length x + 1))" using assms by simp
  ultimately show ?thesis using assms by (simp add: put_bytes_def)
qed

lemma print_number_ok:
  assumes "printed p s" "length s + length (print_dec k) < 40"
  shows "\<exists>p'. print_number k p = Inr p' \<and> printed p' (s @ print_dec k)"
  using assms put_printed [of s "print_dec k"] by (auto simp: print_number_def printed_def Let_def)

lemma print_char_ok:
  assumes "printed p s" "length s + 1 < 40"
  shows "\<exists>p'. print_char c p = Inr p' \<and> printed p' (s @ [c])"
  using assms put_printed [of s "[c]"] by (auto simp: print_char_def printed_def)

fun dotted :: "nat \<Rightarrow> nat \<Rightarrow> string" where
  "dotted 0 n = []"
| "dotted (Suc b) n = print_dec (n div 256 ^ b) @ (if b = 0 then [] else CHR ''.'' # dotted b (n mod 256 ^ b))"

lemma select_octet: "b \<le> 3 \<Longrightarrow> unat (grpow 256 b) = 256 ^ b"
proof -
  assume "b \<le> 3"
  then have "(256::nat) ^ b \<le> 256 ^ 3" by (rule power_increasing) simp
  then have "(256::nat) ^ b < 2 ^ 128" by (rule order.strict_trans1) simp
  then have "take_bit LENGTH(128) ((256::nat) ^ b) = 256 ^ b" by (intro take_bit_nat_eq_self) simp
  then have "unat (of_nat (256 ^ b) :: 128 word) = 256 ^ b" unfolding unsigned_of_nat by simp
  then show ?thesis by (simp add: grpow_power)
qed

lemma octet_length: "k < 256 \<Longrightarrow> length (print_dec k) \<le> 3"
  using print_dec_length [of k 3] by simp

lemma print_octet:
  assumes p: "printed p s" "length s + 3 < 40" and b: "b \<le> 3" and n: "unat n < 256 ^ Suc b"
  shows "\<exists>p1. (if n \<ge> grpow 256 b then print_number (unat (n div grpow 256 b) mod 2 ^ 8) p else print_char (CHR ''0'') p) = Inr p1 \<and>
     printed p1 (s @ print_dec (unat n div 256 ^ b))"
    "unat (if n \<ge> grpow 256 b then n - (n div grpow 256 b) * grpow 256 b else n) = unat n mod 256 ^ b"
proof -
  note s = select_octet [OF b]
  have q: "unat n div 256 ^ b < 256" using n by (simp add: less_mult_imp_div_less mult.commute)
  have le: "n \<ge> grpow 256 b \<longleftrightarrow> unat n \<ge> 256 ^ b" by (simp add: word_le_nat_alt s)
  show "\<exists>p1. (if n \<ge> grpow 256 b then print_number (unat (n div grpow 256 b) mod 2 ^ 8) p else print_char (CHR ''0'') p) = Inr p1 \<and>
     printed p1 (s @ print_dec (unat n div 256 ^ b))"
  proof (cases "n \<ge> grpow 256 b")
    case True
    have "unat (n div grpow 256 b) mod 2 ^ 8 = unat n div 256 ^ b" using q by (simp add: unat_div s)
    then show ?thesis using True print_number_ok [OF p(1), of "unat n div 256 ^ b"] octet_length [OF q] p(2) by simp
  next
    case False
    then have "unat n div 256 ^ b = 0" by (simp add: le)
    moreover have "print_dec 0 = [CHR ''0'']" by (simp add: print_dec.simps digit_char_def char_of_def bit_0)
    ultimately show ?thesis using False print_char_ok [OF p(1)] p(2) by simp
  qed
  show "unat (if n \<ge> grpow 256 b then n - (n div grpow 256 b) * grpow 256 b else n) = unat n mod 256 ^ b"
  proof (cases "n \<ge> grpow 256 b")
    case True
    have "n - (n div grpow 256 b) * grpow 256 b = n mod grpow 256 b" by (simp add: minus_div_mult_eq_mod)
    then show ?thesis using True by (simp add: unat_mod s)
  next
    case False
    then show ?thesis by (simp add: le)
  qed
qed

lemma print_blocks_ok:
  assumes "printed p s" "length s + 4 * b < 40" "b \<le> 4" "unat n < 256 ^ b"
  shows "\<exists>p'. print_blocks 256 8 (CHR ''.'') b n p = Inr p' \<and> printed p' (s @ dotted b (unat n))"
  using assms
proof (induction b arbitrary: n p s)
  case (Suc b)
  have b: "b \<le> 3" "length s + 3 < 40" using Suc.prems by auto
  let ?d = "print_dec (unat n div 256 ^ b)"
  let ?n = "if n \<ge> grpow 256 b then n - (n div grpow 256 b) * grpow 256 b else n"
  obtain p1 where p1: "(if n \<ge> grpow 256 b then print_number (unat (n div grpow 256 b) mod 2 ^ 8) p else print_char (CHR ''0'') p) = Inr p1"
    "printed p1 (s @ ?d)" using print_octet(1) [OF Suc.prems(1) b(2,1) Suc.prems(4)] by blast
  have n: "unat ?n = unat n mod 256 ^ b" by (rule print_octet(2) [OF Suc.prems(1) b(2,1) Suc.prems(4)])
  show ?case
  proof (cases "b = 0")
    case True
    have "printed p1 (s @ dotted (Suc b) (unat n))" using p1(2) True by simp
    then show ?thesis unfolding print_blocks.simps Let_def p1(1) using True by simp
  next
    case False
    have "unat n div 256 ^ b < 256" using Suc.prems(4) by (simp add: less_mult_imp_div_less mult.commute)
    then have l: "length ?d \<le> 3" by (rule octet_length)
    obtain p2 where p2: "print_char (CHR ''.'') p1 = Inr p2" "printed p2 ((s @ ?d) @ [CHR ''.''])"
      using print_char_ok [OF p1(2), of "CHR ''.''"] l Suc.prems(2) by auto
    obtain p' where p': "print_blocks 256 8 (CHR ''.'') b ?n p2 = Inr p'"
      "printed p' (((s @ ?d) @ [CHR ''.'']) @ dotted b (unat ?n))"
      using Suc.IH [OF p2(2), of ?n] l Suc.prems(2,3) n by auto
    have "printed p' (s @ dotted (Suc b) (unat n))" using p'(2) False unfolding n by simp
    then show ?thesis unfolding print_blocks.simps Let_def p1(1) using False p2(1) p'(1) by simp
  qed
qed simp

lemma ip_blocks_ok:
  assumes "n < 256 ^ Suc b" "b \<le> 3"
  shows "ip_blocks 10 256 (Suc b) ret (dotted (Suc b) n) = (ret + of_nat n, [])"
  using assms
proof (induction b arbitrary: n ret)
  case 0
  then have "strtoull 10 (print_dec n) = (n, [])"
    using strtoull_print_dec [of n "[]"] by (simp add: ULLONG_MAX_def)
  then show ?case using 0 by (simp add: strcspn_def peek_def grpow_def)
next
  case (Suc b)
  let ?o = "n div 256 ^ Suc b" and ?r = "dotted (Suc b) (n mod 256 ^ Suc b)"
  have o: "?o < 256" using Suc.prems(1) by (simp add: less_mult_imp_div_less mult.commute)
  have "strtoull 10 (print_dec ?o @ CHR ''.'' # ?r) = (?o, CHR ''.'' # ?r)"
    using o by (intro strtoull_print_dec) (simp_all add: ULLONG_MAX_def digit_value_def)
  then have "ip_blocks 10 256 (Suc (Suc b)) ret (dotted (Suc (Suc b)) n) =
      ip_blocks 10 256 (Suc b) (ret + grpow 256 (Suc b) * of_nat ?o) ?r"
    using o by (subst ip_blocks.simps(2), subst dotted.simps(2)) (simp add: strcspn_def peek_def del: ip_blocks.simps dotted.simps)
  also have "\<dots> = (ret + grpow 256 (Suc b) * of_nat ?o + of_nat (n mod 256 ^ Suc b), [])"
    using Suc.prems(2) by (intro Suc.IH) simp_all
  also have "grpow 256 (Suc b) * of_nat ?o + of_nat (n mod 256 ^ Suc b) = (of_nat (256 ^ Suc b * ?o + n mod 256 ^ Suc b) :: 128 word)"
    unfolding grpow_power of_nat_add of_nat_mult of_nat_power by simp
  then have "ret + grpow 256 (Suc b) * of_nat ?o + of_nat (n mod 256 ^ Suc b) = ret + of_nat n"
    unfolding mult_div_mod_eq add.assoc by simp
  finally show ?case .
qed

lemma dotted_no_nul: "CHR 0x00 \<notin> set (dotted b n)"
proof (induction b n rule: dotted.induct)
  case (2 b n)
  have "\<not> isdigit (CHR 0x00)" by (simp add: isdigit_def)
  then have "CHR 0x00 \<notin> set (print_dec k)" for k
    using print_dec_digits [of "CHR 0x00" k] digit_char_class(4) by metis
  then show ?case using 2 by auto
qed simp

lemma integer_to_ip4:
  assumes "unat n < 2 ^ 32"
  shows "integer_to_ip n 4 = Inr (Some (dotted 4 (unat n)))"
proof -
  let ?p = "\<lparr>p_buf = replicate 40 (CHR 0x00), p_cur = 0, p_remain = 40\<rparr>"
  have "printed ?p []" by (simp add: printed_def)
  then obtain p' where p': "print_blocks 256 8 (CHR ''.'') 4 n ?p = Inr p'" "printed p' (dotted 4 (unat n))"
    using print_blocks_ok [of ?p "[]" 4 n] assms by (auto simp del: print_blocks.simps dotted.simps)
  have "takeWhile (\<lambda>c. c \<noteq> CHR 0x00) (p_buf p') = dotted 4 (unat n)"
  proof -
    have "takeWhile (\<lambda>c. c \<noteq> CHR 0x00) (xs @ replicate k (CHR 0x00)) = xs" if "CHR 0x00 \<notin> set xs" for xs k
      using that by (induction xs) (cases k; auto)+
    then show ?thesis using p'(2) dotted_no_nul unfolding printed_def by metis
  qed
  then show ?thesis using p'(1) unfolding integer_to_ip_def Let_def by (simp del: print_blocks.simps dotted.simps)
qed

section \<open>Release and copies of an access list\<close>

lemma node_free_ok:
  "a_mem (snd (patricia_node_free t S)) a = (if a \<in> set_rnode t then None else a_mem S a)"
proof (induction t arbitrary: S)
  case (RNode l r data)
  then show ?case by (cases data) (auto simp: split_beta Let_def free_cell_def)
qed simp

text \<open>After \<open>patricia_free\<close> the cells of the trie, and no others, are gone.\<close>

lemma patricia_free_ok:
  "a_mem (snd (patricia_free t S)) = (\<lambda>a. if \<exists>u. t = Some u \<and> a \<in> set_rnode u then None else a_mem S a)"
  by (cases t) (auto simp: patricia_free_def node_free_ok)

lemma entry_in_set: "entry t bs = Some a \<Longrightarrow> a \<in> set_rnode t"
  by (induction t bs rule: entry.induct) (auto split: if_splits)

lemma duplicate_ok:
  assumes "\<forall>a \<in> set_rnode t. a < next \<and> a_mem S a \<noteq> None" "next \<le> a_next S"
  shows "\<exists>t' S'. patricia_node_duplicate t S = Some (t', S') \<and> a_next S \<le> a_next S' \<and>
     (\<forall>a < a_next S. a_mem S' a = a_mem S a) \<and> (\<forall>a \<in> set_rnode t'. a_next S \<le> a \<and> a < a_next S') \<and>
     (\<forall>bs. Option.bind (entry t' bs) (a_mem S') = Option.bind (entry t bs) (a_mem S)) \<and>
     a_tree S' = a_tree S \<and> a_tree6 S' = a_tree6 S"
  using assms
proof (induction t arbitrary: S)
  case (RNode l r x)
  obtain r' S1 where 1: "patricia_node_duplicate r S = Some (r', S1)" "a_next S \<le> a_next S1"
     "\<And>a. a < a_next S \<Longrightarrow> a_mem S1 a = a_mem S a" "\<And>a. a \<in> set_rnode r' \<Longrightarrow> a_next S \<le> a \<and> a < a_next S1"
     "\<And>bs. Option.bind (entry r' bs) (a_mem S1) = Option.bind (entry r bs) (a_mem S)"
     "a_tree S1 = a_tree S" "a_tree6 S1 = a_tree6 S"
    using RNode.IH(2) [of S] RNode.prems by auto
  have lt: "a < next" "a < a_next S" "a_mem S1 a = a_mem S a" "a_mem S a \<noteq> None" if "a \<in> set_rnode l" for a
  proof -
    show "a < next" "a_mem S a \<noteq> None" using RNode.prems(1) that by auto
    then show "a < a_next S" using RNode.prems(2) by simp
    then show "a_mem S1 a = a_mem S a" by (rule 1(3))
  qed
  then have "\<forall>a \<in> set_rnode l. a < next \<and> a_mem S1 a \<noteq> None" "next \<le> a_next S1"
    using RNode.prems(2) 1(2) by auto
  then obtain l' S2 where 2: "patricia_node_duplicate l S1 = Some (l', S2)" "a_next S1 \<le> a_next S2"
     "\<And>a. a < a_next S1 \<Longrightarrow> a_mem S2 a = a_mem S1 a" "\<And>a. a \<in> set_rnode l' \<Longrightarrow> a_next S1 \<le> a \<and> a < a_next S2"
     "\<And>bs. Option.bind (entry l' bs) (a_mem S2) = Option.bind (entry l bs) (a_mem S1)"
     "a_tree S2 = a_tree S1" "a_tree6 S2 = a_tree6 S1"
    using RNode.IH(1) [of S1] by auto
  have old: "a_mem S2 a = a_mem S a" if "a < a_next S" for a using 1(2,3) 2(3) that by simp
  have l: "Option.bind (entry l' bs) (a_mem S2) = Option.bind (entry l bs) (a_mem S)" for bs
    using 2(5) [of bs] lt(3) entry_in_set [of l bs] by (cases "entry l bs") auto
  have r: "Option.bind (entry r' bs) (a_mem S2) = Option.bind (entry r bs) (a_mem S)" for bs
    using 1(5) [of bs] 2(3) 1(4) entry_in_set [of r' bs] by (cases "entry r' bs") auto
  show ?case
  proof (cases x)
    case None
    have "Option.bind (entry (RNode l' r' None) bs) (a_mem S2) = Option.bind (entry (RNode l r None) bs) (a_mem S)" for bs
      using l r by (cases bs) auto
    moreover have "a_next S \<le> a \<and> a < a_next S2" if "a \<in> set_rnode (RNode l' r' None)" for a
      using that 1(2,4) 2(2,4) by fastforce
    ultimately show ?thesis using 1(1,2,6,7) 2(1,2,6,7) old by (simp add: None)
  next
    case (Some a)
    then obtain v where v: "a_mem S2 a = Some v" "a_mem S a = Some v"
      using RNode.prems old [of a] by auto
    let ?b = "a_next S2" and ?S = "S2\<lparr>a_mem := (a_mem S2)(a_next S2 \<mapsto> v), a_next := Suc (a_next S2)\<rparr>"
    have fresh: "a \<in> set_rnode l' \<Longrightarrow> a \<noteq> ?b" "a \<in> set_rnode r' \<Longrightarrow> a \<noteq> ?b" for a
      using 1(4) 2(2,4) by fastforce+
    have "Option.bind (entry u bs) (a_mem ?S) = Option.bind (entry u bs) (a_mem S2)" if "u = l' \<or> u = r'" for u bs
      using fresh entry_in_set [of u bs] that by (cases "entry u bs") auto
    then have "Option.bind (entry (RNode l' r' (Some ?b)) bs) (a_mem ?S) = Option.bind (entry (RNode l r (Some a)) bs) (a_mem S)" for bs
      using l r v by (cases bs) auto
    moreover have "a_next S \<le> c \<and> c < a_next ?S" if "c \<in> set_rnode (RNode l' r' (Some ?b))" for c
      using that 1(2,4) 2(2,4) by fastforce
    moreover have "a_mem ?S c = a_mem S c" if "c < a_next S" for c using old that 1(2) 2(2) by simp
    ultimately show ?thesis
      using 1(1,2,6,7) 2(1,2,6,7) v(1) by (auto simp: Some new_cell_def)
  qed
qed simp

section \<open>Properties\<close>

text \<open>
  C8: the bit trie implements longest-prefix match: after any sequence of insertions of IPv4 networks,
  \<open>patricia_find\<close> returns the datum of the longest network that contains the address, the
  latest one when a network was inserted twice.
\<close>

theorem patricia_longest_prefix:
  fixes es :: "(32 word \<times> nat \<times> 'd) list"
  assumes "\<forall>(k, p, d) \<in> set es. p \<le> 32"
  shows "fst (patricia_find (foldl (\<lambda>t (k, p, d). fst (patricia_insert t k (ip_get_mask p) d)) RNull es) key n) =
     map_option snd (lpm es key)"
proof -
  have "\<And>k p d. (k, p, d) \<in> set es \<Longrightarrow> p \<le> 32" using assms by auto
  then show ?thesis
    using insert_list [of es] lpm_longest [of es key] patricia_find_ok by fastforce
qed

theorem patricia_longest_prefix_witness:
  "fst (patricia_find (foldl (\<lambda>t (k, p, d). fst (patricia_insert t k (ip_get_mask p) d)) RNull
     [(0x0A000000, 8, ''ten''), (0, 0, ''any''), (0x0A010000, 16, ''one'')]) 0x0B000000 0) = Some ''any''"
proof -
  have differ: "net_bit x d \<noteq> net_bit y d \<Longrightarrow> d < p \<Longrightarrow> \<not> matches x y p" for x y :: "32 word" and d p
    by (auto simp: matches_def)
  have "\<not> matches (0x0B000000 :: 32 word) 0x0A000000 8" by (rule differ [of _ 7]) (simp_all add: net_bit_def)
  moreover have "\<not> matches (0x0B000000 :: 32 word) 0x0A010000 16" by (rule differ [of _ 7]) (simp_all add: net_bit_def)
  moreover have "matches (0x0B000000 :: 32 word) 0 0" by (simp add: matches_def)
  ultimately have "lpm [(0x0A000000 :: 32 word, 8, ''ten''), (0, 0, ''any''), (0x0A010000, 16, ''one'')] 0x0B000000 = Some (0, ''any'')"
    by (simp add: lpm_def lpm_step_def)
  then show ?thesis
    using patricia_longest_prefix [of "[(0x0A000000, 8, ''ten''), (0, 0, ''any''), (0x0A010000, 16, ''one'')]" "0x0B000000" 0]
    by simp
qed

text \<open>
  C22: the access list of a listener that starts empty: after any sequence of allow and deny rules,
  \<open>ip_check_access\<close> reads only live cells and answers an IPv4 peer with the verdict of the
  longest matching rule, the opposite of the first rule's verdict when no rule matches.
\<close>

theorem acl_decides_by_longest_rule:
  assumes "a_tree S = None" and "a_tree6 S = None" and "ip_get_version ip = 4"
  shows "\<exists>S' p v. push_all S ((c, a) # cs) = Inr S' \<and>
     lpm ((0, 0, opposite a) # rules4 ((c, a) # cs)) (fst (cidr_to_ip_and_mask ip)) = Some (p, v) \<and>
     ip_check_access S' ip = Inr v"
proof -
  let ?es = "(0, 0, opposite a) # rules4 ((c, a) # cs)" and ?key = "fst (cidr_to_ip_and_mask ip)"
  obtain S' where S': "push_all S ((c, a) # cs) = Inr S'" "holds S' ?es"
    using push_all_holds [OF assms(1,2)] by blast
  have some: "foldl (lpm_step key) (Some b) es \<noteq> None" for key :: "32 word" and b and es :: "(32 word \<times> nat \<times> 8 word) list"
    by (induction es arbitrary: b) (auto simp: lpm_step_def)
  have "lpm ?es ?key \<noteq> None" by (simp add: lpm_def lpm_step_def matches_def some)
  then obtain p v where "lpm ?es ?key = Some (p, v)" by auto
  then show ?thesis using S' check_holds [OF S'(2) assms(3)] by auto
qed

definition no_acl :: acl where
  "no_acl = \<lparr>a_tree = None, a_tree6 = None, a_mem = Map.empty, a_next = 0\<rparr>"

theorem acl_decides_by_longest_rule_witness:
  "\<exists>S'. push_all no_acl [(''::1'', 1)] = Inr S' \<and> ip_check_access S' ''0.0.0.0/0'' = Inr 0"
proof -
  have "lpm [(0, 0, opposite 1)] key = Some (0, 0)" for key :: "32 word"
    by (simp add: lpm_def lpm_step_def matches_def opposite_def)
  moreover have "rules4 [(''::1'', 1)] = []" by (simp add: rules4_def ip_get_version_def strcspn_def peek_def)
  ultimately show ?thesis
    using acl_decides_by_longest_rule [of no_acl "''0.0.0.0/0''" "''::1''" 1 "[]"] version_examples(1)
    by (simp add: no_acl_def)
qed

text \<open>The trie when its only rules are the default and at most one other.\<close>

lemma holds_two:
  assumes h: "holds S [(0, 0, o1), (k, p, v)]" and "0 < p"
  obtains t a where "a_tree S = Some t" "rheight t \<le> 33" "entry t (netbits k 0 p) = Some a" "a_mem S a = Some v"
    "\<forall>bs. bs \<noteq> [] \<longrightarrow> bs \<noteq> netbits k 0 p \<longrightarrow> entry t bs = None" "p \<le> 32"
proof -
  obtain t t6 where t: "a_tree S = Some t" "rheight t \<le> 33" "cells_ok (cells t t6) (a_mem S) (a_next S)"
    "\<And>bs. Option.bind (entry t bs) (a_mem S) = rule_map [(0, 0, o1), (k, p, v)] bs" "p \<le> 32"
    using h by (auto simp: holds_def)
  obtain a where "entry t (netbits k 0 p) = Some a" "a_mem S a = Some v"
    using t(4) [of "netbits k 0 p"] by (cases "entry t (netbits k 0 p)") (auto simp: rule_map_def)
  moreover have "entry t bs = None" if "bs \<noteq> []" "bs \<noteq> netbits k 0 p" for bs
    using t(4) [of bs] cells_okD(3) [OF t(3), of "(False, bs)"] that
    by (cases "entry t bs") (auto simp: rule_map_def cells_def)
  ultimately show ?thesis using that t(1,2,5) by blast
qed

lemma parse_dotted:
  assumes "n < 2 ^ 32"
  shows "ip_to_integer (dotted 4 n) 4 = (of_nat n, [])"
proof -
  have four: "Suc 3 = 4" by simp
  have "ip_blocks 10 256 4 0 (dotted 4 n) = (0 + of_nat n, [])"
    by (rule ip_blocks_ok [of n 3 0, unfolded four]) (use assms in simp_all)
  then show ?thesis unfolding ip_to_integer_def by (simp del: ip_blocks.simps dotted.simps)
qed

lemma example_address: "ip_to_integer ''10.0.0.1'' 4 = (167772161, [])"
proof -
  have d: "print_dec 10 = ''10''" "print_dec 0 = ''0''" "print_dec (Suc 0) = ''1''"
    by (simp_all add: print_dec.simps digit_char_def char_of_def bit_0)
  have "dotted (Suc (Suc (Suc (Suc 0)))) 167772161 = ''10.0.0.1''" by (simp add: d)
  moreover have "Suc (Suc (Suc (Suc 0))) = 4" by simp
  ultimately have "dotted 4 167772161 = ''10.0.0.1''" by (simp only:)
  then show ?thesis using parse_dotted [of 167772161] by simp
qed



text \<open>
  The rules for IPv6 networks have no effect: \<open>ip_check_access\<close> looks an IPv6 peer up in the
  IPv4 trie, so after any sequence of IPv6 rules every IPv6 peer gets the opposite of the first verdict.
\<close>

theorem acl_ignores_ipv6_rules:
  assumes "a_tree S = None" and "a_tree6 S = None" and "ip_get_version ip = 6"
    and "\<forall>(c, a) \<in> set ((c, a) # cs). ip_get_version c = 6"
  shows "\<exists>S'. push_all S ((c, a) # cs) = Inr S' \<and> ip_check_access S' ip = Inr (opposite a)"
proof -
  have "rules4 ((c, a) # cs) = []" using assms(4) by (auto simp: rules4_def filter_empty_conv)
  then obtain S' where S': "push_all S ((c, a) # cs) = Inr S'" "holds S' [(0, 0, opposite a)]"
    using push_all_holds [OF assms(1,2), of c a cs] by auto
  obtain t t6 where t: "a_tree S' = Some t" "rheight t \<le> 33" "cells_ok (cells t t6) (a_mem S') (a_next S')"
    "\<And>bs. Option.bind (entry t bs) (a_mem S') = rule_map [(0 :: 32 word, 0, opposite a)] bs"
    using S'(2) unfolding holds_def by blast
  obtain adr where adr: "entry t [] = Some adr" "a_mem S' adr = Some (opposite a)"
    using t(4) [of "[]"] by (cases "entry t []") (auto simp: rule_map_def)
  have none: "entry t bs = None" if "bs \<noteq> []" for bs
    using t(4) [of bs] cells_okD(3) [OF t(3), of "(False, bs)"] that
    by (cases "entry t bs") (auto simp: rule_map_def cells_def)
  let ?key = "fst (cidr_to_ip_and_mask128 ip)"
  have ne: "netbits ?key 0 q \<noteq> []" if "0 < q" for q using that by (simp add: netbits_def)
  have "longest (entry t) (netbits ?key 0 128) (Some (0, adr))"
    using adr(1) none [OF ne] by (auto simp: longest_def take_netbits)
  then have "fst (patricia_find128 t ?key 0) = Some adr"
    using find_root [of t ?key "Some (0, adr)" 0] t(2) unfolding patricia_find128_def top_cursor by simp
  then have "ip_check_access S' ip = Inr (opposite a)"
    using assms(3) adr(2) by (simp add: ip_check_access_def t(1) read_cell_def)
  then show ?thesis using S'(1) by blast
qed

theorem acl_ignores_ipv6_rules_witness:
  "\<exists>S'. push_all no_acl [(''::0'', 1)] = Inr S' \<and> ip_check_access S' ''::0'' = Inr 0"
  using acl_ignores_ipv6_rules [of no_acl "''::0''" "''::0''" 1 "[]"] version_examples(2)
  by (simp add: no_acl_def opposite_def)

text \<open>
  C30: an IPv4 address survives printing and parsing: the text that \<open>integer_to_ip\<close> writes stays
  inside its buffer and \<open>ip_to_integer\<close> reads the same address back from all of it.
\<close>

theorem ipv4_print_parse:
  assumes "unat n < 2 ^ 32"
  shows "\<exists>s. integer_to_ip n 4 = Inr (Some s) \<and> ip_to_integer s 4 = (n, [])"
proof -
  have "ip_to_integer (dotted 4 (unat n)) 4 = (n, [])" using parse_dotted [OF assms] by simp
  then show ?thesis using integer_to_ip4 [OF assms] by (simp del: dotted.simps)
qed

theorem ipv4_print_parse_witness:
  "\<exists>s. integer_to_ip 3232235777 4 = Inr (Some s) \<and> ip_to_integer s 4 = (3232235777, [])"
  by (rule ipv4_print_parse) simp

text \<open>
  C29: a copy of an access list answers as the original does, and shares no cell with it: every cell of the
  copy is new and the cells that existed keep their value.
\<close>

theorem patricia_duplicate_correct:
  assumes "\<forall>a \<in> set_rnode t. a < a_next S \<and> a_mem S a \<noteq> None"
  shows "\<exists>t' S'. patricia_tree_duplicate (Some t) S = Some (Some t', S') \<and>
     (\<forall>bs. Option.bind (entry t' bs) (a_mem S') = Option.bind (entry t bs) (a_mem S)) \<and>
     (\<forall>a < a_next S. a_mem S' a = a_mem S a) \<and> (\<forall>a \<in> set_rnode t'. a_next S \<le> a)"
proof -
  obtain t' S' where "patricia_node_duplicate t S = Some (t', S')"
     "\<forall>a < a_next S. a_mem S' a = a_mem S a" "\<forall>a \<in> set_rnode t'. a_next S \<le> a \<and> a < a_next S'"
     "\<forall>bs. Option.bind (entry t' bs) (a_mem S') = Option.bind (entry t bs) (a_mem S)"
    using duplicate_ok [OF assms order_refl] by blast
  then show ?thesis by (auto simp: patricia_tree_duplicate_def)
qed

theorem patricia_duplicate_correct_witness:
  "\<exists>t' S'. patricia_tree_duplicate (Some (RNode RNull RNull (Some 0)))
       (no_acl\<lparr>a_mem := [0 \<mapsto> 1], a_next := 1\<rparr>) = Some (Some t', S') \<and>
     Option.bind (entry t' []) (a_mem S') = Some 1"
  using patricia_duplicate_correct [of "RNode RNull RNull (Some 0)" "no_acl\<lparr>a_mem := [0 \<mapsto> 1], a_next := 1\<rparr>"]
  by (fastforce dest: spec [of _ "[]"])

end
