(* ===== verification/Percentile.thy ===== *)
theory Percentile
  imports Complex_Main Prelude "HOL-Library.Multiset"
begin

text \<open>
  Quantiles of a series (\<open>src/src/metric/percentile_heap.c\<close>): the heap routines, the ring buffer of
  samples, the count-based and the windowed calculation, and the list of windows a sweep visits.

  A sample is the rational number its double stands for; NaN and infinities are left out.  The logarithm
  and the rounding of the rank in double arithmetic are the arguments \<open>lg\<close> and \<open>dceil\<close>.
  Publishing is modelled as the list of values or actions; the identity of the published series, locks
  and allocation failure are left out.
\<close>

section \<open>Heaps\<close>

text \<open>\<open>(int64_t) x\<close> for a double: towards zero.\<close>

definition trunc :: "rat \<Rightarrow> rat" where
  "trunc x = of_int (if x \<ge> 0 then \<lfloor>x\<rfloor> else \<lceil>x\<rceil>)"

text \<open>\<open>temp\<close> is an \<open>int64_t\<close>, so the sample that sinks is truncated.\<close>

function maxheapify :: "rat list \<Rightarrow> nat \<Rightarrow> nat \<Rightarrow> rat list" where
  "maxheapify arr i heapsize =
     (let left = 2 * i + 1; right = 2 * i + 2
      in if left \<ge> heapsize then arr
         else let largest = (if left < heapsize \<and> arr ! left > arr ! i then left else i);
                  largest = (if right < heapsize \<and> arr ! right > arr ! largest then right else largest)
              in if largest \<noteq> i
                 then maxheapify (arr[i := arr ! largest, largest := trunc (arr ! i)]) largest heapsize
                 else arr)"
  by pat_completeness auto

termination maxheapify
  by (relation "measure (\<lambda>(arr, i, n). n - i)") (auto simp: Let_def split: if_splits)

fun buildmaxheap_loop :: "rat list \<Rightarrow> nat \<Rightarrow> nat \<Rightarrow> rat list" where
  "buildmaxheap_loop arr n 0 = maxheapify arr 0 n"
| "buildmaxheap_loop arr n (Suc j) = buildmaxheap_loop (maxheapify arr (Suc j) n) n j"

definition buildmaxheap :: "rat list \<Rightarrow> nat \<Rightarrow> rat list" where
  "buildmaxheap arr n = buildmaxheap_loop arr n (n div 2)"

function heapify :: "rat list \<Rightarrow> nat \<Rightarrow> nat \<Rightarrow> rat list" where
  "heapify arr n i =
     (let l = 2 * i + 1; r = 2 * i + 2;
          smallest = (if l < n \<and> arr ! l < arr ! i then l else i);
          smallest = (if r < n \<and> arr ! r < arr ! smallest then r else smallest)
      in if smallest \<noteq> i then heapify (arr[i := arr ! smallest, smallest := arr ! i]) n smallest else arr)"
  by pat_completeness auto

termination heapify
  by (relation "measure (\<lambda>(arr, n, i). n - i)") (auto simp: Let_def split: if_splits)

declare maxheapify.simps [simp del] heapify.simps [simp del]

text \<open>The two loops of \<open>heapSort\<close>; the argument counts the values of \<open>i\<close> still to do.\<close>

fun heap_loop :: "rat list \<Rightarrow> nat \<Rightarrow> nat \<Rightarrow> rat list" where
  "heap_loop arr n 0 = arr"
| "heap_loop arr n (Suc i) = heap_loop (heapify arr n i) n i"

fun sort_loop :: "rat list \<Rightarrow> nat \<Rightarrow> rat list" where
  "sort_loop arr 0 = arr"
| "sort_loop arr (Suc i) =
     sort_loop (heapify (if i \<noteq> 0 then arr[0 := arr ! i, i := arr ! 0] else arr) i 0) i"

definition heapSort :: "rat list \<Rightarrow> nat \<Rightarrow> rat list" where
  "heapSort arr n = sort_loop (heap_loop arr n (n div 2)) n"

section \<open>Buffers\<close>

definition QUANTILE_WINDOW_EMPTY_DELETE :: int where "QUANTILE_WINDOW_EMPTY_DELETE = 0"
definition QUANTILE_WINDOW_EMPTY_ZERO :: int where "QUANTILE_WINDOW_EMPTY_ZERO = 1"

record percentile_buffer =
  pb_arr :: "rat list"
  pb_sort_arr :: "rat list"
  pb_ts :: "int list option"
  pb_n :: nat
  pb_cur :: nat
  pb_filled :: nat
  pb_sortsize :: nat
  pb_percentile :: "int list"
  pb_ipercentile :: "int list"
  pb_inserts_since_calc :: nat
  pb_calc_every :: int
  pb_window_sec :: int
  pb_empty_policy :: int
  pb_sorted :: bool
  pb_last_calc_sec :: int

text \<open>The settings of the global configuration that serve as fallback; None is \<open>ac == NULL\<close>.\<close>

record quantile_conf =
  percentile_buffer_min :: int
  percentile_calc_every :: int
  quantile_window :: int
  quantile_window_empty :: int

text \<open>\<open>for (i = 1; i < m; i *= 2);\<close> started at a positive \<open>i\<close>.\<close>

function double_until :: "nat \<Rightarrow> nat \<Rightarrow> nat" where
  "double_until i m = (if 0 < i \<and> i < m then double_until (2 * i) m else i)"
  by pat_completeness auto

termination double_until
  by (relation "measure (\<lambda>(i, m). m - i)") auto

declare double_until.simps [simp del]

text \<open>
  \<open>lg x\<close> stands for \<open>(int64_t) log10 (x)\<close> of the mathematical library; powers of ten are exact.
\<close>

definition ipercentile_of :: "(int \<Rightarrow> nat) \<Rightarrow> nat \<Rightarrow> int \<Rightarrow> int \<Rightarrow> int \<Rightarrow> int" where
  "ipercentile_of lg digits natural_n n p =
     (if p \<le> 0 then 0
      else let curpercentile = p * 10 ^ (digits - lg p - 1);
               natural_ip = natural_n - curpercentile;
               ip = (if n = natural_n then natural_ip else cdiv (natural_ip * n) natural_n);
               ip = (if ip < 0 then 0 else ip)
           in if ip \<ge> n then n - 1 else ip)"

text \<open>A setting of the mapping, with the global one where it is negative; a negative result counts as 0.\<close>

definition setting :: "(quantile_conf \<Rightarrow> int) \<Rightarrow> int \<Rightarrow> quantile_conf option \<Rightarrow> int \<Rightarrow> int" where
  "setting f dflt ac v = (if v < 0 then case_option dflt f ac else v)"

definition not_negative :: "int \<Rightarrow> int" where
  "not_negative v = (if v < 0 then 0 else v)"

definition largest_percentile :: "int list \<Rightarrow> int" where
  "largest_percentile percentile =
     (let p = foldl max (hd percentile) percentile in if p \<le> 0 then 1 else p)"

definition largest_index :: "int list \<Rightarrow> int list \<Rightarrow> int" where
  "largest_index percentile ips = foldl max 0 (map snd (filter (\<lambda>(p, ip). p > 0) (zip percentile ips)))"

definition init_percentile_buffer_opts ::
    "(int \<Rightarrow> nat) \<Rightarrow> quantile_conf option \<Rightarrow> int list \<Rightarrow> int \<Rightarrow> int \<Rightarrow> int \<Rightarrow> int \<Rightarrow> percentile_buffer" where
  "init_percentile_buffer_opts lg ac percentile0 buffer_min calc_every window_sec empty_policy =
     (let percentile = (if percentile0 = [] then [-1] else percentile0);
          digits = lg (largest_percentile percentile) + 1;
          natural_n = 10 ^ digits;
          resolved_min = setting percentile_buffer_min 0 ac buffer_min;
          n = (if resolved_min > 0 \<and> resolved_min > natural_n then resolved_min else natural_n);
          ips = map (ipercentile_of lg digits natural_n n) percentile;
          percentilemax = largest_index percentile ips;
          every = not_negative (setting percentile_calc_every 0 ac calc_every);
          win = not_negative (setting quantile_window 0 ac window_sec);
          policy = setting quantile_window_empty QUANTILE_WINDOW_EMPTY_DELETE ac empty_policy;
          policy = (if policy \<noteq> QUANTILE_WINDOW_EMPTY_ZERO then QUANTILE_WINDOW_EMPTY_DELETE else policy);
          i = double_until 1 (nat percentilemax);
          size = nat n
      in \<lparr>pb_arr = replicate size 0, pb_sort_arr = replicate size 0,
          pb_ts = (if win > 0 then Some (replicate size 0) else None), pb_n = size, pb_cur = 0, pb_filled = 0,
          pb_sortsize = (if i \<ge> size then size else i), pb_percentile = percentile, pb_ipercentile = ips,
          pb_inserts_since_calc = 0, pb_calc_every = (if win > 0 then 0 else every), pb_window_sec = win,
          pb_empty_policy = policy, pb_sorted = False, pb_last_calc_sec = 0\<rparr>)"

definition heap_insert_at :: "percentile_buffer \<Rightarrow> rat \<Rightarrow> int \<Rightarrow> percentile_buffer" where
  "heap_insert_at pb key ts_sec =
     (let cur = (if pb_cur pb \<ge> pb_n pb then 0 else pb_cur pb);
          arr = (pb_arr pb)[cur := key];
          arr = (if pb_window_sec pb = 0 \<and> cur = 0 \<and> arr ! 1 = 0 then take 1 arr @ replicate (pb_n pb - 1) key else arr)
      in pb\<lparr>pb_arr := arr, pb_ts := map_option (\<lambda>ts. ts[cur := ts_sec]) (pb_ts pb),
            pb_filled := (if pb_filled pb < pb_n pb then pb_filled pb + 1 else pb_filled pb),
            pb_cur := cur + 1, pb_inserts_since_calc := pb_inserts_since_calc pb + 1\<rparr>)"

definition init_percentile_buffer :: "(int \<Rightarrow> nat) \<Rightarrow> quantile_conf option \<Rightarrow> int list \<Rightarrow> percentile_buffer" where
  "init_percentile_buffer lg ac percentile = init_percentile_buffer_opts lg ac percentile (- 1) (- 1) (- 1) (- 1)"

definition heap_insert :: "int \<Rightarrow> percentile_buffer \<Rightarrow> rat \<Rightarrow> percentile_buffer" where
  "heap_insert now pb key = heap_insert_at pb key now"

definition quantile_window_empty_parse_string :: "string option \<Rightarrow> int" where
  "quantile_window_empty_parse_string pol =
     (if pol = Some ''zero'' then QUANTILE_WINDOW_EMPTY_ZERO else QUANTILE_WINDOW_EMPTY_DELETE)"

text \<open>The count-based path of \<open>calc_percentiles\<close>: the values it publishes and the buffer after it.\<close>

definition count_quantiles :: "percentile_buffer \<Rightarrow> rat list \<times> percentile_buffer" where
  "count_quantiles pb =
     (let every = (if pb_calc_every pb > 0 then pb_calc_every pb else 1);
          need_sort = (\<not> pb_sorted pb \<or> int (pb_inserts_since_calc pb) \<ge> every);
          pb1 = (if need_sort
                 then pb\<lparr>pb_sort_arr := heapSort (buildmaxheap (pb_arr pb) (pb_n pb)) (pb_sortsize pb),
                         pb_inserts_since_calc := 0, pb_sorted := True\<rparr>
                 else pb)
      in (map (\<lambda>ip. pb_sort_arr pb1 ! nat ip) (pb_ipercentile pb1), pb1))"

section \<open>Windows\<close>

text \<open>
  \<open>dceil q k\<close> stands for the double computation \<open>(int64_t) ceil (q * (double) k)\<close>, whose
  rounding need not be exact.
\<close>

definition window_quantile_index :: "(int \<Rightarrow> nat) \<Rightarrow> (rat \<Rightarrow> int \<Rightarrow> int) \<Rightarrow> int \<Rightarrow> int \<Rightarrow> int" where
  "window_quantile_index lg dceil stored k =
     (if k \<le> 1 then 0
      else let q = (if stored > 0 then of_int stored / 10 ^ (lg stored + 1) else 1);
               q = (if q > 1 then 1 else q);
               q = (if q < 0 then 0 else q);
               idx = dceil q k - 1;
               idx = (if idx < 0 then 0 else idx)
           in if idx \<ge> k then k - 1 else idx)"

record qw_job =
  j_values :: "rat list"
  j_pct :: "int list"
  j_k :: int
  j_policy :: int
  j_ttl :: int

definition window_samples :: "percentile_buffer \<Rightarrow> int \<Rightarrow> rat list" where
  "window_samples pb cutoff =
     (let limit = (if pb_filled pb > pb_n pb then pb_n pb else pb_filled pb)
      in map ((!) (pb_arr pb)) (filter (\<lambda>i. case pb_ts pb of None \<Rightarrow> False | Some ts \<Rightarrow> \<not> ts ! i < cutoff) [0..<limit]))"

text \<open>\<open>qw_prepare\<close> without the identity of the published series; None when there is nothing to do.\<close>

definition qw_prepare :: "(int \<Rightarrow> nat) \<Rightarrow> (rat \<Rightarrow> int \<Rightarrow> int) \<Rightarrow> int \<Rightarrow> percentile_buffer \<Rightarrow> bool \<Rightarrow> (qw_job \<times> percentile_buffer) option" where
  "qw_prepare lg dceil now pb force =
     (if pb_window_sec pb \<le> 0 then None
      else if \<not> force \<and> pb_last_calc_sec pb = now then None
      else let samples = window_samples pb (now - pb_window_sec pb);
               k = int (length samples);
               sorted = sort samples
           in Some (\<lparr>j_values = (if k > 0 then map (\<lambda>p. sorted ! nat (window_quantile_index lg dceil p k)) (pb_percentile pb)
                                 else replicate (length (pb_percentile pb)) 0),
                     j_pct = pb_percentile pb, j_k = k, j_policy = pb_empty_policy pb,
                     j_ttl = (if pb_empty_policy pb = QUANTILE_WINDOW_EMPTY_DELETE then pb_window_sec pb else - 1)\<rparr>,
                    pb\<lparr>pb_last_calc_sec := now\<rparr>))"

datatype quantile_action = Emit int rat int | Drop int

definition qw_finish :: "qw_job \<Rightarrow> quantile_action list" where
  "qw_finish job =
     (if j_k job \<le> 0 \<and> j_policy job = QUANTILE_WINDOW_EMPTY_DELETE then map Drop (j_pct job)
      else if j_k job \<le> 0 \<and> j_policy job \<noteq> QUANTILE_WINDOW_EMPTY_ZERO then []
      else map (\<lambda>(p, v). if j_k job > 0 then Emit p v (j_ttl job) else Emit p 0 (- 1)) (zip (j_pct job) (j_values job)))"

text \<open>What an insert publishes and the buffer after it: by window, or by count.\<close>

definition calc_percentiles :: "(int \<Rightarrow> nat) \<Rightarrow> (rat \<Rightarrow> int \<Rightarrow> int) \<Rightarrow> int \<Rightarrow> percentile_buffer \<Rightarrow> quantile_action list \<times> percentile_buffer" where
  "calc_percentiles lg dceil now pb =
     (if pb_window_sec pb > 0
      then case qw_prepare lg dceil now pb False of None \<Rightarrow> ([], pb) | Some (job, pb1) \<Rightarrow> (qw_finish job, pb1)
      else case count_quantiles pb of (values, pb1) \<Rightarrow>
             (map (\<lambda>(p, v). Emit p v (- 1)) (zip (pb_percentile pb1) values), pb1))"

section \<open>The list of windows to sweep\<close>

text \<open>
  The list of the series of one namespace that have a window: nodes are addresses, \<open>w_ns\<close> says
  that \<open>window_ns\<close> is set.  Locks are left out.
\<close>

record window_node =
  w_prev :: "nat option"
  w_next :: "nat option"
  w_registered :: bool
  w_sweeping :: bool
  w_ns :: bool

record window_list =
  q_head :: "nat option"
  q_nodes :: "nat \<Rightarrow> window_node"

definition set_node :: "nat option \<Rightarrow> (window_node \<Rightarrow> window_node) \<Rightarrow> window_list \<Rightarrow> window_list" where
  "set_node m f L = (case m of None \<Rightarrow> L | Some a \<Rightarrow> L\<lparr>q_nodes := (q_nodes L)(a := f (q_nodes L a))\<rparr>)"

definition quantile_window_register :: "window_list \<Rightarrow> nat \<Rightarrow> window_list" where
  "quantile_window_register L m =
     (if w_registered (q_nodes L m) then L
      else let L1 = set_node (Some m) (\<lambda>n. n\<lparr>w_ns := True, w_prev := None, w_next := q_head L\<rparr>) L;
               L2 = set_node (q_head L) (\<lambda>n. n\<lparr>w_prev := Some m\<rparr>) L1
           in set_node (Some m) (\<lambda>n. n\<lparr>w_registered := True\<rparr>) (L2\<lparr>q_head := Some m\<rparr>))"

text \<open>None: the node is being swept and the caller spins until another thread clears the flag.\<close>

definition quantile_window_detach :: "window_list \<Rightarrow> nat \<Rightarrow> window_list option" where
  "quantile_window_detach L m =
     (let n = q_nodes L m
      in if \<not> w_ns n \<or> \<not> w_registered n then Some L
         else if w_sweeping n then None
         else let L1 = (if w_prev n \<noteq> None then set_node (w_prev n) (\<lambda>p. p\<lparr>w_next := w_next n\<rparr>) L
                        else if q_head L = Some m then L\<lparr>q_head := w_next n\<rparr> else L);
                  L2 = set_node (w_next (q_nodes L1 m)) (\<lambda>s. s\<lparr>w_prev := w_prev (q_nodes L1 m)\<rparr>) L1
              in Some (set_node (Some m)
                   (\<lambda>n. n\<lparr>w_next := None, w_prev := None, w_registered := False, w_ns := False\<rparr>) L2))"

text \<open>
  \<open>quantile_window_sweep\<close>: the nodes whose windows it recalculates, in order.  The first argument
  bounds the number of rounds; None when it is used up.
\<close>

fun sweep_loop :: "nat \<Rightarrow> window_list \<Rightarrow> nat option \<Rightarrow> (nat list \<times> window_list) option" where
  "sweep_loop fuel L None = Some ([], L)"
| "sweep_loop 0 L (Some m) = None"
| "sweep_loop (Suc fuel) L (Some m) =
     (let nxt = w_next (q_nodes L m);
          L1 = set_node nxt (\<lambda>n. n\<lparr>w_sweeping := True\<rparr>) L;
          L2 = set_node (Some m) (\<lambda>n. n\<lparr>w_sweeping := False\<rparr>) L1
      in map_option (\<lambda>(ms, L'). (m # ms, L')) (sweep_loop fuel L2 nxt))"

definition quantile_window_sweep :: "nat \<Rightarrow> window_list \<Rightarrow> (nat list \<times> window_list) option" where
  "quantile_window_sweep fuel L =
     sweep_loop fuel (set_node (q_head L) (\<lambda>n. n\<lparr>w_sweeping := True\<rparr>) L) (q_head L)"

section \<open>Sinking an element\<close>

text \<open>Both heap routines are one routine over the order; its lemmas are proved over any strict total order.\<close>

function sift :: "('a \<Rightarrow> 'a \<Rightarrow> bool) \<Rightarrow> 'a list \<Rightarrow> nat \<Rightarrow> nat \<Rightarrow> 'a list" where
  "sift lt a n i =
     (let l = 2 * i + 1; r = 2 * i + 2;
          s = (if l < n \<and> lt (a ! l) (a ! i) then l else i);
          s = (if r < n \<and> lt (a ! r) (a ! s) then r else s)
      in if s \<noteq> i then sift lt (a[i := a ! s, s := a ! i]) n s else a)"
  by pat_completeness auto

termination sift
  by (relation "measure (\<lambda>(lt, a, n, i). n - i)") (auto simp: Let_def split: if_splits)

declare sift.simps [simp del]

definition edge :: "nat \<Rightarrow> nat \<Rightarrow> bool" where
  "edge j k \<longleftrightarrow> k = 2 * j + 1 \<or> k = 2 * j + 2"

locale strict_order =
  fixes lt :: "'a \<Rightarrow> 'a \<Rightarrow> bool"
  assumes irrefl: "\<not> lt x x"
    and trans: "lt x y \<Longrightarrow> lt y z \<Longrightarrow> lt x z"
    and total: "lt x y \<or> x = y \<or> lt y x"
begin

lemma le_trans: "\<not> lt y x \<Longrightarrow> \<not> lt z y \<Longrightarrow> \<not> lt z x"
  using trans total by blast

lemma lt_le: "lt x y \<Longrightarrow> \<not> lt y x"
  using trans irrefl by blast

text \<open>Every parent from \<open>lo\<close> on is not above its children.\<close>

definition heap_above :: "'a list \<Rightarrow> nat \<Rightarrow> nat \<Rightarrow> bool" where
  "heap_above a n lo \<longleftrightarrow> (\<forall>j k. lo \<le> j \<longrightarrow> edge j k \<longrightarrow> k < n \<longrightarrow> \<not> lt (a ! k) (a ! j))"

text \<open>The same with the exception of \<open>i\<close>, whose children are not below its parent.\<close>

definition heap_except :: "'a list \<Rightarrow> nat \<Rightarrow> nat \<Rightarrow> nat \<Rightarrow> bool" where
  "heap_except a n lo i \<longleftrightarrow>
     (\<forall>j k. lo \<le> j \<longrightarrow> j \<noteq> i \<longrightarrow> edge j k \<longrightarrow> k < n \<longrightarrow> \<not> lt (a ! k) (a ! j)) \<and>
     (\<forall>p k. lo \<le> p \<longrightarrow> edge p i \<longrightarrow> edge i k \<longrightarrow> k < n \<longrightarrow> \<not> lt (a ! k) (a ! p))"

text \<open>The child the routine exchanges with, or \<open>i\<close> itself.\<close>

definition pick :: "'a list \<Rightarrow> nat \<Rightarrow> nat \<Rightarrow> nat" where
  "pick a n i = (let s = (if 2 * i + 1 < n \<and> lt (a ! (2 * i + 1)) (a ! i) then 2 * i + 1 else i)
                 in if 2 * i + 2 < n \<and> lt (a ! (2 * i + 2)) (a ! s) then 2 * i + 2 else s)"

lemma sift_pick: "sift lt a n i = (if pick a n i \<noteq> i then sift lt (a[i := a ! pick a n i, pick a n i := a ! i]) n (pick a n i) else a)"
  by (subst sift.simps) (simp only: Let_def pick_def)

lemma pick_self: "pick a n i = i \<Longrightarrow> edge i k \<Longrightarrow> k < n \<Longrightarrow> \<not> lt (a ! k) (a ! i)"
  unfolding pick_def edge_def Let_def by (auto split: if_splits)

lemma pick_child:
  assumes "pick a n i \<noteq> i"
  shows "edge i (pick a n i)" "pick a n i < n" "lt (a ! pick a n i) (a ! i)"
    "edge i k \<Longrightarrow> k < n \<Longrightarrow> \<not> lt (a ! k) (a ! pick a n i)"
proof -
  let ?l = "2 * i + 1" and ?r = "2 * i + 2"
  have "edge i (pick a n i) \<and> pick a n i < n \<and> lt (a ! pick a n i) (a ! i) \<and>
      (edge i k \<longrightarrow> k < n \<longrightarrow> \<not> lt (a ! k) (a ! pick a n i))"
  proof (cases "?l < n \<and> lt (a ! ?l) (a ! i)")
    case True
    show ?thesis
    proof (cases "?r < n \<and> lt (a ! ?r) (a ! ?l)")
      case r: True
      then have p: "pick a n i = ?r" using True by (simp add: pick_def)
      have "lt (a ! ?r) (a ! i)" using r True trans by blast
      then show ?thesis unfolding p using r lt_le irrefl by (auto simp: edge_def)
    next
      case r: False
      then have p: "pick a n i = ?l" using True by (simp add: pick_def)
      show ?thesis unfolding p using r True irrefl by (auto simp: edge_def)
    qed
  next
    case False
    then have p: "pick a n i = ?r" "?r < n" "lt (a ! ?r) (a ! i)" using assms by (auto simp: pick_def split: if_splits)
    have "\<not> lt (a ! ?l) (a ! ?r)" if "?l < n" using False p(3) that trans by blast
    then show ?thesis unfolding p(1) using p(2,3) irrefl by (auto simp: edge_def)
  qed
  then show "edge i (pick a n i)" "pick a n i < n" "lt (a ! pick a n i) (a ! i)"
    "edge i k \<Longrightarrow> k < n \<Longrightarrow> \<not> lt (a ! k) (a ! pick a n i)" by auto
qed

lemma swap_except:
  assumes ex: "heap_except a n lo i" and i: "lo \<le> i" "n \<le> length a"
    and s: "edge i s" "s < n" "lt (a ! s) (a ! i)" "\<And>k. edge i k \<Longrightarrow> k < n \<Longrightarrow> \<not> lt (a ! k) (a ! s)"
  shows "heap_except (a[i := a ! s, s := a ! i]) n lo s"
proof -
  let ?b = "a[i := a ! s, s := a ! i]"
  have os: "i < s" "i < length a" "s < length a" using s(1,2) i(2) by (auto simp: edge_def)
  have b: "?b ! k = (if k = s then a ! i else if k = i then a ! s else a ! k)" for k
    using os by (auto simp: nth_list_update)
  have e1: "\<not> lt (a ! k) (a ! j)" if "lo \<le> j" "j \<noteq> i" "edge j k" "k < n" for j k using ex that by (simp add: heap_except_def)
  have e2: "\<not> lt (a ! k) (a ! p)" if "lo \<le> p" "edge p i" "edge i k" "k < n" for p k using ex that by (simp add: heap_except_def)
  have par: "j = i" if "edge j s" for j using that s(1) by (auto simp: edge_def)
  show ?thesis unfolding heap_except_def
  proof (intro conjI allI impI)
    fix j k assume a: "lo \<le> j" "j \<noteq> s" "edge j k" "k < n"
    show "\<not> lt (?b ! k) (?b ! j)"
    proof (cases "j = i")
      case True
      have "k \<noteq> i" "?b ! i = a ! s" using a(3) os unfolding True by (auto simp: b edge_def)
      then show ?thesis using lt_le [OF s(3)] s(4) [OF a(3) [unfolded True] a(4)] unfolding True by (simp add: b)
    next
      case False
      have "k \<noteq> s" using par a(3) False by blast
      then show ?thesis using a e1 [OF a(1) False a(3,4)] False e2 [OF a(1) _ s(1,2)] by (auto simp: b)
    qed
  next
    fix p k assume a: "lo \<le> p" "edge p s" "edge s k" "k < n"
    have "p = i" using par a(2) by blast
    moreover have "k \<noteq> s" "k \<noteq> i" "s \<noteq> i" using a(3) s(1) by (auto simp: edge_def)
    ultimately show "\<not> lt (?b ! k) (?b ! p)" using e1 [OF _ _ a(3,4)] os a(1) by (auto simp: b)
  qed
qed

lemma sift_step:
  obtains (stop) "sift lt a n i = a" "\<And>k. edge i k \<Longrightarrow> k < n \<Longrightarrow> \<not> lt (a ! k) (a ! i)"
  | (sink) s where "sift lt a n i = sift lt (a[i := a ! s, s := a ! i]) n s" "edge i s" "s < n" "lt (a ! s) (a ! i)"
      "\<And>k. edge i k \<Longrightarrow> k < n \<Longrightarrow> \<not> lt (a ! k) (a ! s)"
proof -
  show ?thesis
    using stop sink [of "pick a n i"] pick_self [of a n i] pick_child [of a n i] sift_pick [of a n i] by (cases "pick a n i = i") auto
qed

lemma sift_heap:
  assumes "heap_except a n lo i" "lo \<le> i" "n \<le> length a"
  shows "heap_above (sift lt a n i) n lo"
  using assms
proof (induction "n - i" arbitrary: a i rule: less_induct)
  case less
  show ?case
  proof (cases rule: sift_step [of a n i])
    case stop
    then show ?thesis using less.prems unfolding heap_above_def heap_except_def by metis
  next
    case (sink s)
    have "i < s" using sink(2) by (auto simp: edge_def)
    then show ?thesis
      using less.hyps [of s "a[i := a ! s, s := a ! i]"] swap_except [OF less.prems sink(2-5)] less.prems sink(1,3) by simp
  qed
qed

lemma sift_frame:
  assumes "n \<le> length a" "i < length a"
  shows "mset (sift lt a n i) = mset a" "length (sift lt a n i) = length a"
    "k \<ge> n \<Longrightarrow> sift lt a n i ! k = a ! k"
proof -
  have "mset (sift lt a n i) = mset a \<and> length (sift lt a n i) = length a \<and> (k \<ge> n \<longrightarrow> k \<noteq> i \<longrightarrow> sift lt a n i ! k = a ! k) \<and>
     (k \<ge> n \<longrightarrow> n \<le> i \<longrightarrow> sift lt a n i ! k = a ! k)"
    using assms
  proof (induction "n - i" arbitrary: a i rule: less_induct)
    case less
    show ?case
    proof (cases rule: sift_step [of a n i])
      case stop
      then show ?thesis by simp
    next
      case (sink s)
      let ?b = "a[i := a ! s, s := a ! i]"
      have os: "i < s" "s < length a" using sink(2,3) less.prems by (auto simp: edge_def)
      have "mset ?b = mset a" using os less.prems(2) by (intro mset_swap) auto
      moreover have "mset (sift lt ?b n s) = mset ?b \<and> length (sift lt ?b n s) = length ?b \<and>
          (k \<ge> n \<longrightarrow> k \<noteq> s \<longrightarrow> sift lt ?b n s ! k = ?b ! k)"
        using less.hyps [of s ?b] os sink(3) less.prems by auto
      ultimately show ?thesis using sink(1,3) os by auto
    qed
  qed
  then show "mset (sift lt a n i) = mset a" "length (sift lt a n i) = length a" "k \<ge> n \<Longrightarrow> sift lt a n i ! k = a ! k"
    by (auto simp: not_le)
qed

text \<open>The least element is at the root.\<close>

lemma heap_root:
  assumes "heap_above a n 0" "k < n"
  shows "\<not> lt (a ! k) (a ! 0)"
  using assms(2)
proof (induction k rule: less_induct)
  case (less k)
  show ?case
  proof (cases k)
    case 0
    then show ?thesis using irrefl by simp
  next
    case (Suc m)
    have e: "edge (m div 2) k" "m div 2 < k" unfolding edge_def Suc by presburger+
    then have "\<not> lt (a ! k) (a ! (m div 2))" using assms(1) less.prems by (simp add: heap_above_def)
    moreover have "\<not> lt (a ! (m div 2)) (a ! 0)" using less.IH [OF e(2)] e(2) less.prems by simp
    ultimately show ?thesis by (rule le_trans [rotated])
  qed
qed

end

interpretation asc: strict_order "(<) :: rat \<Rightarrow> rat \<Rightarrow> bool"
  by unfold_locales auto

interpretation desc: strict_order "(>) :: rat \<Rightarrow> rat \<Rightarrow> bool"
  by unfold_locales auto

lemma heapify_pick:
  "heapify arr n i = (if asc.pick arr n i \<noteq> i
     then heapify (arr[i := arr ! asc.pick arr n i, asc.pick arr n i := arr ! i]) n (asc.pick arr n i) else arr)"
  by (subst heapify.simps) (simp only: Let_def asc.pick_def)

lemma heapify_sift: "heapify arr n i = sift (<) arr n i"
proof (induction "n - i" arbitrary: arr i rule: less_induct)
  case less
  show ?case
  proof (cases "asc.pick arr n i = i")
    case True
    then show ?thesis using heapify_pick [of arr n i] asc.sift_pick [of arr n i] by presburger
  next
    case False
    have "i < asc.pick arr n i" using asc.pick_child(1) [OF False] by (auto simp: edge_def)
    then have "n - asc.pick arr n i < n - i" using asc.pick_child(2) [OF False] by simp
    from less.hyps [OF this] show ?thesis
      using False heapify_pick [of arr n i] asc.sift_pick [of arr n i] by presburger
  qed
qed

lemma heap_above_end: "asc.heap_above a n (n div 2)" "desc.heap_above a n (n div 2)"
  by (auto simp: asc.heap_above_def desc.heap_above_def edge_def)

lemma asc_except: "asc.heap_above a n (Suc i) \<Longrightarrow> asc.heap_except a n i i"
  by (auto simp: asc.heap_above_def asc.heap_except_def edge_def)

lemma desc_except: "desc.heap_above a n (Suc i) \<Longrightarrow> desc.heap_except a n i i"
  by (auto simp: desc.heap_above_def desc.heap_except_def edge_def)

lemma heap_loop_ok:
  assumes "asc.heap_above a n i" "n \<le> length a" "i < length a \<or> i = 0"
  shows "asc.heap_above (heap_loop a n i) n 0 \<and> mset (heap_loop a n i) = mset a \<and> length (heap_loop a n i) = length a \<and>
     (\<forall>k \<ge> n. heap_loop a n i ! k = a ! k)"
  using assms
proof (induction i arbitrary: a)
  case (Suc i)
  let ?b = "heapify a n i"
  have i: "i < length a" using Suc.prems(3) by auto
  note f = asc.sift_frame [OF Suc.prems(2) i]
  have "asc.heap_above ?b n i"
    unfolding heapify_sift by (rule asc.sift_heap [OF asc_except [OF Suc.prems(1)] order_refl Suc.prems(2)])
  then have "asc.heap_above (heap_loop ?b n i) n 0 \<and> mset (heap_loop ?b n i) = mset ?b \<and> length (heap_loop ?b n i) = length ?b \<and>
     (\<forall>k \<ge> n. heap_loop ?b n i ! k = ?b ! k)"
    using f i Suc.prems(2) by (intro Suc.IH) (simp_all add: heapify_sift)
  then show ?case using f by (simp add: heapify_sift)
qed simp

lemma take_mset:
  assumes "mset b = mset a" "\<And>k. k \<ge> m \<Longrightarrow> b ! k = a ! k" "m \<le> length a"
  shows "mset (take m b) = mset (take m a)"
proof -
  have len: "length b = length a" using assms(1) by (metis size_mset)
  have "drop m b = drop m a" using assms(2) len by (intro nth_equalityI) auto
  then show ?thesis using assms(1) by (metis append_take_drop_id mset_append add_right_cancel)
qed

text \<open>One round of the second loop: the least element of the heap goes to its end.\<close>

lemma sort_round:
  fixes a :: "rat list"
  assumes h: "asc.heap_above a (Suc m) 0" and len: "Suc m \<le> n" "n \<le> length a"
    and tail: "\<And>p q. p < q \<Longrightarrow> Suc m \<le> q \<Longrightarrow> q < n \<Longrightarrow> a ! q \<le> a ! p"
  defines "b \<equiv> if m \<noteq> 0 then a[0 := a ! m, m := a ! 0] else a"
  defines "c \<equiv> heapify b m 0"
  shows "asc.heap_above c m 0" "mset c = mset a" "length c = length a" "\<And>k. k \<ge> n \<Longrightarrow> c ! k = a ! k"
    "\<And>p q. p < q \<Longrightarrow> m \<le> q \<Longrightarrow> q < n \<Longrightarrow> c ! q \<le> c ! p"
proof -
  have l0: "0 < length a" "m < length a" using len by auto
  have b: "b ! k = (if k = m then a ! 0 else if k = 0 then a ! m else a ! k)" for k
    using l0 by (auto simp: b_def nth_list_update)
  have lb: "length b = length a" by (simp add: b_def)
  have mb: "mset b = mset a" using len by (auto simp: b_def intro!: mset_swap)
  have z: "0 < length b" "m \<le> length b" using len lb by auto
  note f = asc.sift_frame [OF z(2,1), folded heapify_sift, folded c_def]
  have root: "a ! 0 \<le> a ! k" if "k \<le> m" for k using asc.heap_root [OF h, of k] that by simp
  have "asc.heap_except b m 0 0"
    using h by (auto simp: asc.heap_above_def asc.heap_except_def edge_def b)
  then show "asc.heap_above c m 0"
    unfolding c_def heapify_sift using z by (intro asc.sift_heap) auto
  show "mset c = mset a" "length c = length a" using f(1,2) mb lb by auto
  have high: "c ! k = b ! k" if "k \<ge> m" for k using f(3) that by blast
  show "c ! k = a ! k" if "k \<ge> n" for k using high [of k] len that by (simp add: b)
  have low: "\<exists>k \<le> m. c ! p = a ! k" if "p < m" for p
  proof -
    have "c ! p \<in> set (take m c)" using that z f(2) by (auto simp: in_set_conv_nth intro!: exI [of _ p])
    also have "set (take m c) = set (take m b)"
      using take_mset [OF f(1) high z(2)] by (metis set_mset_mset)
    finally obtain j where "j < m" "c ! p = b ! j" using z by (auto simp: in_set_conv_nth)
    then show ?thesis by (auto simp: b intro: exI [of _ j])
  qed
  show "c ! q \<le> c ! p" if q: "p < q" "m \<le> q" "q < n" for p q
  proof (cases "q = m")
    case True
    then have "c ! q = a ! 0" using high by (simp add: b)
    then show ?thesis using low [of p] root q True by auto
  next
    case False
    then have cq: "c ! q = a ! q" "Suc m \<le> q" using high q by (auto simp: b)
    show ?thesis
    proof (cases "p < m")
      case True
      then obtain k where "k \<le> m" "c ! p = a ! k" using low by blast
      then show ?thesis using tail [of k q] cq q by auto
    next
      case False
      then show ?thesis using tail [of p q] tail [of 0 q] cq q high by (auto simp: b)
    qed
  qed
qed

lemma sort_loop_ok:
  assumes "asc.heap_above a i 0" "i \<le> n" "n \<le> length a" "\<And>p q. p < q \<Longrightarrow> i \<le> q \<Longrightarrow> q < n \<Longrightarrow> a ! q \<le> a ! p"
  shows "mset (sort_loop a i) = mset a \<and> (\<forall>k \<ge> n. sort_loop a i ! k = a ! k) \<and>
     (\<forall>p q. p < q \<longrightarrow> q < n \<longrightarrow> sort_loop a i ! q \<le> sort_loop a i ! p)"
  using assms
proof (induction i arbitrary: a)
  case (Suc m)
  let ?c = "heapify (if m \<noteq> 0 then a[0 := a ! m, m := a ! 0] else a) m 0"
  note r = sort_round [OF Suc.prems(1-4)]
  have "mset (sort_loop ?c m) = mset ?c \<and> (\<forall>k \<ge> n. sort_loop ?c m ! k = ?c ! k) \<and>
     (\<forall>p q. p < q \<longrightarrow> q < n \<longrightarrow> sort_loop ?c m ! q \<le> sort_loop ?c m ! p)"
    by (rule Suc.IH) (use r Suc.prems(2,3) in auto)
  then show ?case using r(2,4) by simp
qed simp

lemma heapSort_ok:
  assumes "n \<le> length a"
  shows "mset (heapSort a n) = mset a" "drop n (heapSort a n) = drop n a"
    "sorted_wrt (\<ge>) (take n (heapSort a n))"
proof -
  let ?b = "heap_loop a n (n div 2)"
  have b: "asc.heap_above ?b n 0" "mset ?b = mset a" "length ?b = length a" "\<And>k. k \<ge> n \<Longrightarrow> ?b ! k = a ! k"
  proof -
    have "n div 2 < length a \<or> n div 2 = 0" using assms by linarith
    from heap_loop_ok [OF heap_above_end(1) assms this]
    show "asc.heap_above ?b n 0" "mset ?b = mset a" "length ?b = length a" "\<And>k. k \<ge> n \<Longrightarrow> ?b ! k = a ! k" by auto
  qed
  have s: "mset (heapSort a n) = mset ?b" "\<And>k. k \<ge> n \<Longrightarrow> heapSort a n ! k = ?b ! k"
    "\<And>p q. p < q \<Longrightarrow> q < n \<Longrightarrow> heapSort a n ! q \<le> heapSort a n ! p"
    using sort_loop_ok [OF b(1) order_refl] b(3) assms unfolding heapSort_def by simp_all
  show m: "mset (heapSort a n) = mset a" using s(1) b(2) by simp
  then have len: "length (heapSort a n) = length a" by (metis size_mset)
  show "drop n (heapSort a n) = drop n a" using s(2) b(4) len by (intro nth_equalityI) auto
  show "sorted_wrt (\<ge>) (take n (heapSort a n))" using s(3) len assms by (auto simp: sorted_wrt_iff_nth_less)
qed

text \<open>A full run is the descending sort.\<close>

lemma heapSort_full: "heapSort a (length a) = rev (sort a)"
proof -
  let ?h = "heapSort a (length a)"
  have m: "mset ?h = mset a" by (rule heapSort_ok) simp
  then have "length ?h = length a" by (rule mset_eq_length)
  then have "sorted_wrt (\<ge>) ?h" using heapSort_ok(3) [of "length a" a] by simp
  then have "sorted (rev ?h)" by (simp add: sorted_wrt_rev)
  then have "sort a = rev ?h" using m by (intro properties_for_sort) simp_all
  then show ?thesis by simp
qed

section \<open>The max-heap pass\<close>

lemma trunc_int: "x \<in> \<int> \<Longrightarrow> trunc x = x"
  by (auto simp: trunc_def elim!: Ints_cases)

lemma maxheapify_pick:
  assumes "trunc (arr ! i) = arr ! i"
  shows "maxheapify arr i n = (if desc.pick arr n i \<noteq> i
     then maxheapify (arr[i := arr ! desc.pick arr n i, desc.pick arr n i := arr ! i]) (desc.pick arr n i) n else arr)"
proof (cases "2 * i + 1 \<ge> n")
  case True
  then have "desc.pick arr n i = i" by (simp add: desc.pick_def)
  then show ?thesis using True by (subst maxheapify.simps) (simp add: Let_def)
next
  case False
  then show ?thesis
    by (subst maxheapify.simps) (simp only: Let_def desc.pick_def assms if_False)
qed

lemma maxheapify_sift:
  assumes "\<forall>x \<in> set arr. trunc x = x" "i < length arr" "n \<le> length arr"
  shows "maxheapify arr i n = sift (>) arr n i"
  using assms
proof (induction "n - i" arbitrary: arr i rule: less_induct)
  case less
  have t: "trunc (arr ! i) = arr ! i" using less.prems(1,2) by simp
  show ?case
  proof (cases "desc.pick arr n i = i")
    case True
    then show ?thesis using maxheapify_pick [OF t, of n] desc.sift_pick [of arr n i] by presburger
  next
    case False
    let ?s = "desc.pick arr n i"
    have s: "i < ?s" "?s < n" using desc.pick_child(1,2) [OF False] by (auto simp: edge_def)
    have "set (arr[i := arr ! ?s, ?s := arr ! i]) = set arr" using s less.prems(2,3) by (intro set_swap) auto
    then have "maxheapify (arr[i := arr ! ?s, ?s := arr ! i]) ?s n = sift (>) (arr[i := arr ! ?s, ?s := arr ! i]) n ?s"
      using s less.prems by (intro less.hyps) auto
    then show ?thesis using False maxheapify_pick [OF t, of n] desc.sift_pick [of arr n i] by presburger
  qed
qed

lemma buildmaxheap_loop_ok:
  assumes "\<forall>x \<in> set arr. trunc x = x" "j < length arr" "n \<le> length arr" "desc.heap_above arr n (Suc j)"
  shows "mset (buildmaxheap_loop arr n j) = mset arr \<and> desc.heap_above (buildmaxheap_loop arr n j) n 0"
  using assms
proof (induction j arbitrary: arr)
  case 0
  show ?case
    using maxheapify_sift [OF 0(1-3)] desc.sift_frame(1) [OF 0(3,2)] desc.sift_heap [OF desc_except [OF 0(4)] order_refl 0(3)]
    by simp
next
  case (Suc j)
  let ?b = "maxheapify arr (Suc j) n"
  note e = maxheapify_sift [OF Suc.prems(1-3)]
  have b: "mset ?b = mset arr" "length ?b = length arr" "desc.heap_above ?b n (Suc j)"
    unfolding e using desc.sift_frame(1,2) [OF Suc.prems(3,2)]
      desc.sift_heap [OF desc_except [OF Suc.prems(4)] order_refl Suc.prems(3)] by auto
  then have "set ?b = set arr" by (metis set_mset_mset)
  then show ?case using Suc.IH [of ?b] b Suc.prems by simp
qed

text \<open>On integral samples the pass builds a max-heap of the same samples.\<close>

lemma buildmaxheap_ok:
  assumes "\<forall>x \<in> set arr. x \<in> \<int>" "arr \<noteq> []"
  shows "mset (buildmaxheap arr (length arr)) = mset arr" "desc.heap_above (buildmaxheap arr (length arr)) (length arr) 0"
proof -
  let ?n = "length arr"
  have h: "desc.heap_above arr ?n (Suc (?n div 2))"
    using heap_above_end(2) [of arr ?n] by (auto simp: desc.heap_above_def)
  have "?n div 2 < ?n" using assms(2) by simp
  then show "mset (buildmaxheap arr ?n) = mset arr" "desc.heap_above (buildmaxheap arr ?n) ?n 0"
    using buildmaxheap_loop_ok [OF _ _ order_refl h] assms(1) trunc_int unfolding buildmaxheap_def by auto
qed

section \<open>Buffers stay well formed\<close>

definition pb_ok :: "percentile_buffer \<Rightarrow> bool" where
  "pb_ok pb \<longleftrightarrow> 10 \<le> pb_n pb \<and> length (pb_arr pb) = pb_n pb \<and> length (pb_sort_arr pb) = pb_n pb \<and>
     (case pb_ts pb of None \<Rightarrow> pb_window_sec pb \<le> 0 | Some ts \<Rightarrow> pb_window_sec pb > 0 \<and> length ts = pb_n pb) \<and>
     pb_cur pb \<le> pb_n pb \<and> pb_filled pb \<le> pb_n pb \<and> pb_sortsize pb \<le> pb_n pb \<and>
     length (pb_ipercentile pb) = length (pb_percentile pb) \<and>
     (\<forall>ip \<in> set (pb_ipercentile pb). 0 \<le> ip \<and> ip < int (pb_n pb))"

lemma ipercentile_range: "0 < n \<Longrightarrow> 0 \<le> ipercentile_of lg digits natural_n n p \<and> ipercentile_of lg digits natural_n n p < n"
  by (auto simp: ipercentile_of_def Let_def)

lemma init_ok: "pb_ok (init_percentile_buffer_opts lg ac percentile buffer_min calc_every window_sec empty_policy)"
proof -
  let ?pb = "init_percentile_buffer_opts lg ac percentile buffer_min calc_every window_sec empty_policy"
  obtain d m and n :: int where n: "pb_n ?pb = nat n" "n = (if m > 0 \<and> m > 10 ^ Suc d then m else 10 ^ Suc d)"
    and ips: "pb_ipercentile ?pb = map (ipercentile_of lg (Suc d) (10 ^ Suc d) n) (pb_percentile ?pb)"
    by (simp add: init_percentile_buffer_opts_def Let_def del: if_split)
  have "(10::int) \<le> 10 ^ Suc d" using power_increasing [of 1 "Suc d" "10::int"] by simp
  then have n10: "10 \<le> n" using n(2) by (auto simp del: power_Suc)
  have "length (pb_arr ?pb) = pb_n ?pb" "length (pb_sort_arr ?pb) = pb_n ?pb" "pb_cur ?pb = 0" "pb_filled ?pb = 0"
    "pb_sortsize ?pb \<le> pb_n ?pb" "pb_ts ?pb = (if pb_window_sec ?pb > 0 then Some (replicate (pb_n ?pb) 0) else None)"
    by (simp_all add: init_percentile_buffer_opts_def Let_def)
  moreover have "0 \<le> ip \<and> ip < int (pb_n ?pb)" if "ip \<in> set (pb_ipercentile ?pb)" for ip
    using that ipercentile_range [of n] n10 unfolding ips n(1) by auto
  ultimately show ?thesis using n(1) n10 ips by (auto simp: pb_ok_def)
qed

lemma insert_ok:
  assumes "pb_ok pb"
  shows "pb_ok (heap_insert_at pb key ts)"
  using assms by (auto simp: pb_ok_def heap_insert_at_def Let_def split: option.splits)

lemma length_maxheapify [simp]: "length (maxheapify arr i n) = length arr"
proof (induction arr i n rule: maxheapify.induct)
  case (1 arr i n)
  then show ?case by (subst maxheapify.simps) (simp add: Let_def)
qed

lemma length_buildmaxheap [simp]: "length (buildmaxheap arr n) = length arr"
proof -
  have "length (buildmaxheap_loop arr n j) = length arr" for arr j by (induction j arbitrary: arr) simp_all
  then show ?thesis by (simp add: buildmaxheap_def)
qed

lemma count_ok:
  assumes "pb_ok pb"
  shows "pb_ok (snd (count_quantiles pb))"
proof -
  have "length (heapSort (buildmaxheap (pb_arr pb) (pb_n pb)) (pb_sortsize pb)) = length (pb_arr pb)"
    using heapSort_ok(1) [of "pb_sortsize pb" "buildmaxheap (pb_arr pb) (pb_n pb)"] assms
    by (metis length_buildmaxheap pb_ok_def size_mset)
  then have "pb_ok (pb\<lparr>pb_sort_arr := heapSort (buildmaxheap (pb_arr pb) (pb_n pb)) (pb_sortsize pb),
      pb_inserts_since_calc := 0, pb_sorted := True\<rparr>)"
    using assms by (cases "pb_ts pb") (auto simp: pb_ok_def)
  then show ?thesis using assms by (simp add: count_quantiles_def Let_def)
qed

section \<open>The ring holds the latest samples\<close>

definition insert_all :: "percentile_buffer \<Rightarrow> (rat \<times> int) list \<Rightarrow> percentile_buffer" where
  "insert_all pb xs = foldl (\<lambda>pb (key, ts). heap_insert_at pb key ts) pb xs"

definition ring :: "percentile_buffer \<Rightarrow> (rat \<times> int) list" where
  "ring pb = zip (pb_arr pb) (the (pb_ts pb))"

definition ring_holds :: "percentile_buffer \<Rightarrow> (rat \<times> int) list \<Rightarrow> bool" where
  "ring_holds pb xs \<longleftrightarrow> pb_filled pb = min (length xs) (pb_n pb) \<and>
     (if length xs < pb_n pb then pb_cur pb = length xs \<and> take (length xs) (ring pb) = xs
      else 1 \<le> pb_cur pb \<and> pb_cur pb \<le> pb_n pb \<and>
           drop (length xs - pb_n pb) xs = drop (pb_cur pb) (ring pb) @ take (pb_cur pb) (ring pb))"

lemma ring_length:
  assumes "pb_ok pb" "0 < pb_window_sec pb"
  shows "length (ring pb) = pb_n pb"
  using assms by (auto simp: pb_ok_def ring_def split: option.splits)

lemma window_insert:
  assumes "pb_ok pb" "0 < pb_window_sec pb"
  defines "cur \<equiv> (if pb_cur pb \<ge> pb_n pb then 0 else pb_cur pb)"
  shows "ring (heap_insert_at pb key ts) = (ring pb)[cur := (key, ts)]" "pb_cur (heap_insert_at pb key ts) = cur + 1"
    "pb_n (heap_insert_at pb key ts) = pb_n pb" "pb_window_sec (heap_insert_at pb key ts) = pb_window_sec pb"
    "pb_filled (heap_insert_at pb key ts) = (if pb_filled pb < pb_n pb then pb_filled pb + 1 else pb_filled pb)"
proof -
  obtain t where t: "pb_ts pb = Some t" "length t = pb_n pb" "length (pb_arr pb) = pb_n pb"
    using assms(1,2) by (auto simp: pb_ok_def split: option.splits)
  then show "ring (heap_insert_at pb key ts) = (ring pb)[cur := (key, ts)]"
    using assms(2) by (simp_all add: ring_def heap_insert_at_def cur_def Let_def update_zip)
  show "pb_cur (heap_insert_at pb key ts) = cur + 1"
    "pb_n (heap_insert_at pb key ts) = pb_n pb" "pb_window_sec (heap_insert_at pb key ts) = pb_window_sec pb"
    "pb_filled (heap_insert_at pb key ts) = (if pb_filled pb < pb_n pb then pb_filled pb + 1 else pb_filled pb)"
    by (simp_all add: heap_insert_at_def cur_def Let_def)
qed

lemma rotate_insert:
  assumes "c < length z"
  shows "drop (c + 1) (z[c := e]) @ take (c + 1) (z[c := e]) = tl (drop c z @ take c z) @ [e]"
proof -
  have "drop (c + 1) (z[c := e]) = drop (c + 1) z" by simp
  then have "drop (c + 1) (z[c := e]) = tl (drop c z)" by (simp add: drop_Suc tl_drop)
  moreover have "take (c + 1) (z[c := e]) = take c z @ [e]" using assms by (simp add: take_Suc_conv_app_nth)
  moreover have "drop c z \<noteq> []" using assms by simp
  ultimately show ?thesis by simp
qed

lemma ring_insert:
  assumes "pb_ok pb" "0 < pb_window_sec pb" "ring_holds pb xs"
  shows "ring_holds (heap_insert_at pb key ts) (xs @ [(key, ts)])"
proof -
  note w = window_insert [OF assms(1,2), of key ts] and len = ring_length [OF assms(1,2)]
  let ?z = "ring pb" and ?n = "pb_n pb" and ?e = "(key, ts)" and ?c = "pb_cur pb"
  have n: "0 < ?n" using assms(1) by (simp add: pb_ok_def)
  have filled: "pb_filled (heap_insert_at pb key ts) = min (length (xs @ [?e])) ?n"
    using assms(3) unfolding w(5) by (auto simp: ring_holds_def)
  show ?thesis
  proof (cases "length xs < ?n")
    case True
    then have c: "?c = length xs" "take (length xs) ?z = xs" using assms(3) by (auto simp: ring_holds_def)
    then have r: "ring (heap_insert_at pb key ts) = ?z[length xs := ?e]" "pb_cur (heap_insert_at pb key ts) = length xs + 1"
      using w(1,2) True by auto
    have "take (Suc (length xs)) (?z[length xs := ?e]) = xs @ [?e]"
      using c(2) True len by (simp add: take_Suc_conv_app_nth)
    then show ?thesis using r filled True w(3) len by (auto simp: ring_holds_def)
  next
    case False
    then have c: "1 \<le> ?c" "?c \<le> ?n" "drop (length xs - ?n) xs = drop ?c ?z @ take ?c ?z"
      using assms(3) by (auto simp: ring_holds_def)
    let ?k = "if ?c \<ge> ?n then 0 else ?c"
    have rot: "drop ?k ?z @ take ?k ?z = drop ?c ?z @ take ?c ?z" using c(2) len by auto
    have "drop (length (xs @ [?e]) - ?n) (xs @ [?e]) = tl (drop (length xs - ?n) xs) @ [?e]"
      using False n by (simp add: Suc_diff_le drop_Suc tl_drop)
    also have "\<dots> = tl (drop ?k ?z @ take ?k ?z) @ [?e]" using c(3) rot by simp
    also have "\<dots> = drop (?k + 1) (?z[?k := ?e]) @ take (?k + 1) (?z[?k := ?e])"
      using rotate_insert [of ?k ?z ?e] len n c(2) by auto
    finally have "drop (length (xs @ [?e]) - ?n) (xs @ [?e]) =
      drop (?k + 1) (?z[?k := ?e]) @ take (?k + 1) (?z[?k := ?e])" .
    then show ?thesis using filled False w(1-3) n c(2) unfolding ring_holds_def by simp
  qed
qed

lemma insert_all_ring:
  assumes "pb_ok pb" "0 < pb_window_sec pb" "pb_filled pb = 0" "pb_cur pb = 0"
  shows "pb_ok (insert_all pb xs) \<and> pb_window_sec (insert_all pb xs) = pb_window_sec pb \<and> pb_n (insert_all pb xs) = pb_n pb \<and>
     ring_holds (insert_all pb xs) xs"
proof (induction xs rule: rev_induct)
  case Nil
  have "0 < pb_n pb" using assms(1) by (simp add: pb_ok_def)
  then show ?case using assms by (simp add: insert_all_def ring_holds_def)
next
  case (snoc e xs)
  obtain key ts where e: "e = (key, ts)" by (cases e)
  have "insert_all pb (xs @ [e]) = heap_insert_at (insert_all pb xs) key ts" by (simp add: insert_all_def e)
  then show ?case
    using snoc insert_ok ring_insert [of "insert_all pb xs" xs key ts] window_insert(3,4) [of "insert_all pb xs" key ts] assms(2)
    by (simp add: e)
qed

lemma window_samples_mset:
  assumes "pb_ok pb" "0 < pb_window_sec pb" "ring_holds pb xs"
  shows "mset (window_samples pb cutoff) =
     mset (map fst (filter (\<lambda>(key, ts). cutoff \<le> ts) (drop (length xs - pb_n pb) xs)))"
proof -
  obtain t where t: "pb_ts pb = Some t" "length t = pb_n pb" "length (pb_arr pb) = pb_n pb"
    using assms(1,2) by (auto simp: pb_ok_def split: option.splits)
  let ?f = "pb_filled pb" and ?P = "\<lambda>(key, ts). cutoff \<le> ts"
  have f: "?f = min (length xs) (pb_n pb)" using assms(3) by (simp add: ring_holds_def)
  have "window_samples pb cutoff = map (\<lambda>i. pb_arr pb ! i) (filter (\<lambda>i. cutoff \<le> t ! i) [0..<?f])"
    using f by (simp add: window_samples_def t(1) not_less)
  also have "\<dots> = map fst (filter ?P (map (\<lambda>i. (pb_arr pb ! i, t ! i)) [0..<?f]))"
    by (simp add: filter_map comp_def)
  also have "map (\<lambda>i. (pb_arr pb ! i, t ! i)) [0..<?f] = take ?f (ring pb)"
    using t f by (intro nth_equalityI) (auto simp: ring_def)
  finally have s: "window_samples pb cutoff = map fst (filter ?P (take ?f (ring pb)))" .
  have "mset (take ?f (ring pb)) = mset (drop (length xs - pb_n pb) xs)"
  proof (cases "length xs < pb_n pb")
    case True
    then show ?thesis using assms(3) f by (simp add: ring_holds_def)
  next
    case False
    then have "drop (length xs - pb_n pb) xs = drop (pb_cur pb) (ring pb) @ take (pb_cur pb) (ring pb)"
      using assms(3) by (simp add: ring_holds_def)
    moreover have "mset (drop c z @ take c z) = mset z" for c and z :: "(rat \<times> int) list"
      by (metis append_take_drop_id mset_append union_commute)
    moreover have "take ?f (ring pb) = ring pb" using False f t by (simp add: ring_def)
    ultimately show ?thesis by metis
  qed
  then show ?thesis unfolding s by simp
qed

section \<open>Nearest rank\<close>

fun ndigits :: "nat \<Rightarrow> nat" where
  "ndigits n = (if n < 10 then 1 else Suc (ndigits (n div 10)))"

declare ndigits.simps [simp del]

lemma ndigits_bound: "n < 10 ^ ndigits n"
proof (induction n rule: ndigits.induct)
  case (1 n)
  show ?case
  proof (cases "n < 10")
    case False
    then have "n div 10 < 10 ^ ndigits (n div 10)" using 1 by blast
    then have "n < 10 * 10 ^ ndigits (n div 10)" by linarith
    then show ?thesis using False by (simp add: ndigits.simps [of n])
  qed (simp add: ndigits.simps [of n])
qed

text \<open>The quantile that \<open>stored\<close> names: its digits after the point, 1 for \<open>-1\<close>.\<close>

definition quantile_of :: "int \<Rightarrow> rat" where
  "quantile_of stored = (if stored > 0 then of_int stored / 10 ^ ndigits (nat stored) else 1)"

lemma quantile_range: "0 < quantile_of p" "quantile_of p \<le> 1"
proof -
  show "0 < quantile_of p" by (simp add: quantile_of_def)
  have "p \<le> 10 ^ ndigits (nat p)" if "0 < p"
    using ndigits_bound [of "nat p"] that by (metis nat_0_le of_nat_less_imp_less less_imp_le nat_less_eq_zless of_nat_numeral of_nat_power nat_int zle_int)
  then have "of_int p \<le> (10 :: rat) ^ ndigits (nat p)" if "0 < p"
    using that by (metis of_int_le_iff of_int_numeral of_int_power)
  then show "quantile_of p \<le> 1" by (simp add: quantile_of_def divide_le_eq)
qed

definition nearest_rank :: "rat \<Rightarrow> rat list \<Rightarrow> rat" where
  "nearest_rank q ys = sort ys ! nat (\<lceil>q * of_nat (length ys)\<rceil> - 1)"

lemma rank_range:
  assumes "0 < q" "q \<le> 1" "0 < k"
  shows "1 \<le> \<lceil>q * of_nat k\<rceil>" "\<lceil>q * of_nat k :: rat\<rceil> \<le> int k"
proof -
  have "0 < q * of_nat k" using assms by simp
  then show "1 \<le> \<lceil>q * of_nat k\<rceil>" by linarith
  have "q * of_nat k \<le> of_nat k" using assms by (simp add: mult_left_le_one_le)
  then show "\<lceil>q * of_nat k :: rat\<rceil> \<le> int k" by (simp add: ceiling_le_iff)
qed

text \<open>At least the \<open>q\<close>-th part of the samples is not above the nearest rank.\<close>

lemma nearest_rank_covers:
  assumes "0 < q" "q \<le> 1" "ys \<noteq> []"
  shows "q * of_nat (length ys) \<le> of_nat (length (filter (\<lambda>y. y \<le> nearest_rank q ys) ys))"
proof -
  let ?k = "length ys" and ?r = "\<lceil>q * of_nat (length ys)\<rceil>"
  have r: "1 \<le> ?r" "?r \<le> int ?k" using rank_range assms by auto
  let ?i = "nat (?r - 1)" and ?s = "sort ys"
  have i: "?i < ?k" using r by linarith
  have "\<forall>y \<in> set (take (Suc ?i) ?s). y \<le> nearest_rank q ys"
    using i sorted_nth_mono [OF sorted_sort, of _ ?i ys] by (auto simp: nearest_rank_def in_set_conv_nth less_Suc_eq_le)
  then have "filter (\<lambda>y. y \<le> nearest_rank q ys) (take (Suc ?i) ?s) = take (Suc ?i) ?s" by (rule filter_True)
  then have "Suc ?i \<le> length (filter (\<lambda>y. y \<le> nearest_rank q ys) (take (Suc ?i) ?s))" using i by simp
  also have "\<dots> \<le> length (filter (\<lambda>y. y \<le> nearest_rank q ys) (take (Suc ?i) ?s @ drop (Suc ?i) ?s))"
    unfolding filter_append length_append by (rule le_add1)
  also have "\<dots> = length (filter (\<lambda>y. y \<le> nearest_rank q ys) ys)"
    by (metis append_take_drop_id mset_filter mset_sort size_mset)
  finally have "?r \<le> int (length (filter (\<lambda>y. y \<le> nearest_rank q ys) ys))" using r by linarith
  then have "(of_int ?r :: rat) \<le> of_nat (length (filter (\<lambda>y. y \<le> nearest_rank q ys) ys))"
    by (metis of_int_le_iff of_int_of_nat_eq)
  then show ?thesis using le_of_int_ceiling order_trans by blast
qed

text \<open>What the calculation of the rank of \<open>p\<close> among \<open>k\<close> samples needs of the double arithmetic.\<close>

definition rank_exact :: "(int \<Rightarrow> nat) \<Rightarrow> (rat \<Rightarrow> int \<Rightarrow> int) \<Rightarrow> nat \<Rightarrow> int \<Rightarrow> bool" where
  "rank_exact lg dceil k p \<longleftrightarrow> (p > 0 \<longrightarrow> lg p + 1 = ndigits (nat p)) \<and>
     dceil (quantile_of p) (int k) = \<lceil>quantile_of p * of_nat k\<rceil>"

lemma window_index_exact:
  assumes "rank_exact lg dceil k p" "0 < k"
  shows "nat (window_quantile_index lg dceil p (int k)) = nat (\<lceil>quantile_of p * of_nat k\<rceil> - 1)"
proof -
  have r: "1 \<le> \<lceil>quantile_of p * of_nat k\<rceil>" "\<lceil>quantile_of p * of_nat k\<rceil> \<le> int k"
    using rank_range quantile_range assms(2) by auto
  have q: "(if p > 0 then of_int p / 10 ^ (lg p + 1) else 1) = quantile_of p"
    using assms(1) unfolding rank_exact_def quantile_of_def by presburger
  show ?thesis
  proof (cases "k = 1")
    case True
    then show ?thesis using r by (simp add: window_quantile_index_def)
  next
    case False
    have "\<not> quantile_of p > 1" "\<not> quantile_of p < 0" using quantile_range [of p] by auto
    then show ?thesis using False r assms unfolding window_quantile_index_def q Let_def rank_exact_def by simp
  qed
qed

lemma insert_all_frame:
  "pb_percentile (insert_all pb xs) = pb_percentile pb" "pb_empty_policy (insert_all pb xs) = pb_empty_policy pb"
proof -
  have "pb_percentile (insert_all pb xs) = pb_percentile pb \<and> pb_empty_policy (insert_all pb xs) = pb_empty_policy pb"
    by (induction xs arbitrary: pb) (auto simp: insert_all_def heap_insert_at_def Let_def)
  then show "pb_percentile (insert_all pb xs) = pb_percentile pb" "pb_empty_policy (insert_all pb xs) = pb_empty_policy pb" by auto
qed

lemma zip_map_same: "map f (zip xs (map g xs)) = map (\<lambda>x. f (x, g x)) xs"
  by (induction xs) auto

lemma zip_replicate_same: "map f (zip xs (replicate (length xs) c)) = map (\<lambda>x. f (x, c)) xs"
  by (induction xs) auto

lemma sort_cong_mset: "mset xs = mset ys \<Longrightarrow> sort xs = sort (ys :: rat list)"
  by (metis mset_sort properties_for_sort sorted_sort)

lemma init_start:
  assumes "pb = init_percentile_buffer_opts lg ac percentile buffer_min calc_every window_sec empty_policy"
  shows "pb_filled pb = 0" "pb_cur pb = 0" "pb_empty_policy pb = 0 \<or> pb_empty_policy pb = 1"
  unfolding assms by (simp_all add: init_percentile_buffer_opts_def Let_def QUANTILE_WINDOW_EMPTY_DELETE_def QUANTILE_WINDOW_EMPTY_ZERO_def)

section \<open>The sweep list as a list\<close>

text \<open>A stretch of the list from the pointers \<open>(p, q)\<close> to the pointers \<open>(p', q')\<close>.\<close>

fun seg :: "(nat \<Rightarrow> window_node) \<Rightarrow> nat option \<Rightarrow> nat option \<Rightarrow> nat list \<Rightarrow> nat option \<Rightarrow> nat option \<Rightarrow> bool" where
  "seg h p q [] p' q' = (p = p' \<and> q = q')"
| "seg h p q (x # xs) p' q' = (q = Some x \<and> w_prev (h x) = p \<and> seg h (Some x) (w_next (h x)) xs p' q')"

definition window_rep :: "window_list \<Rightarrow> nat list \<Rightarrow> bool" where
  "window_rep L xs \<longleftrightarrow> distinct xs \<and> (\<exists>e. seg (q_nodes L) None (q_head L) xs e None) \<and>
     (\<forall>x. w_registered (q_nodes L x) \<longleftrightarrow> x \<in> set xs) \<and> (\<forall>x \<in> set xs. w_ns (q_nodes L x))"

lemma seg_append: "seg h p q (xs @ ys) p' q' \<longleftrightarrow> (\<exists>a b. seg h p q xs a b \<and> seg h a b ys p' q')"
  by (induction xs arbitrary: p q) auto

lemma seg_frame:
  "(\<And>x. x \<in> set xs \<Longrightarrow> w_prev (h' x) = w_prev (h x) \<and> w_next (h' x) = w_next (h x)) \<Longrightarrow>
   seg h' p q xs p' q' = seg h p q xs p' q'"
  by (induction xs arbitrary: p q) auto

lemma seg_last: "seg h p q (xs @ [x]) p' q' \<Longrightarrow> p' = Some x \<and> w_next (h x) = q'"
  by (auto simp: seg_append)

text \<open>Changing the pointer out of a stretch, or the pointer back out of it.\<close>

lemma seg_set_next:
  assumes "seg h p q (xs @ [a]) p' q'" "distinct (xs @ [a])"
  shows "seg (h(a := (h a)\<lparr>w_next := r\<rparr>)) p q (xs @ [a]) (Some a) r"
proof -
  obtain u v where s: "seg h p q xs u v" "v = Some a" "w_prev (h a) = u" using assms(1) by (auto simp: seg_append)
  have "seg (h(a := (h a)\<lparr>w_next := r\<rparr>)) p q xs u v"
    using s(1) assms(2) by (subst seg_frame [where h = h]) auto
  then show ?thesis using s by (auto simp: seg_append)
qed

lemma seg_set_prev:
  assumes "seg h p (Some b) (b # xs) p' q'" "distinct (b # xs)"
  shows "seg (h(b := (h b)\<lparr>w_prev := r\<rparr>)) r (Some b) (b # xs) p' q'"
  using assms by (auto, subst seg_frame [where h = h]) auto

lemma register_rep:
  assumes "window_rep L xs" "m \<notin> set xs"
  shows "window_rep (quantile_window_register L m) (m # xs)"
proof -
  obtain e where s: "distinct xs" "seg (q_nodes L) None (q_head L) xs e None"
    "\<And>x. w_registered (q_nodes L x) \<longleftrightarrow> x \<in> set xs" "\<And>x. x \<in> set xs \<Longrightarrow> w_ns (q_nodes L x)"
    using assms(1) by (auto simp: window_rep_def)
  have r: "\<not> w_registered (q_nodes L m)" using s(3) assms(2) by simp
  let ?R = "quantile_window_register L m"
  show ?thesis
  proof (cases xs)
    case Nil
    then have "q_head L = None" using s(2) by simp
    then show ?thesis using s r Nil
      by (auto simp: window_rep_def quantile_window_register_def Let_def set_node_def)
  next
    case (Cons b bs)
    then have hd: "q_head L = Some b" "b \<noteq> m" using s(2) assms(2) by auto
    have n: "q_nodes ?R = (q_nodes L)(b := (q_nodes L b)\<lparr>w_prev := Some m\<rparr>,
        m := (q_nodes L m)\<lparr>w_ns := True, w_prev := None, w_next := Some b, w_registered := True\<rparr>)" "q_head ?R = Some m"
      using r hd by (auto simp: quantile_window_register_def Let_def set_node_def fun_upd_def)
    have "seg ((q_nodes L)(b := (q_nodes L b)\<lparr>w_prev := Some m\<rparr>)) (Some m) (Some b) xs e None"
      using seg_set_prev [of "q_nodes L" None b bs e None "Some m"] s(1,2) hd Cons by simp
    then have "seg (q_nodes ?R) (Some m) (Some b) xs e None"
      unfolding n(1) using assms(2) by (subst seg_frame [where h = "(q_nodes L)(b := (q_nodes L b)\<lparr>w_prev := Some m\<rparr>)"]) auto
    then have "seg (q_nodes ?R) None (q_head ?R) (m # xs) e None" by (simp add: n)
    moreover have "w_registered (q_nodes ?R x) \<longleftrightarrow> x \<in> set (m # xs)" for x using s(3) Cons by (auto simp: n)
    moreover have "w_ns (q_nodes ?R x)" if "x \<in> set (m # xs)" for x using s(4) that by (auto simp: n)
    ultimately show ?thesis using s(1) assms(2) unfolding window_rep_def by auto
  qed
qed

lemma detach_links:
  assumes sp: "seg h None hd0 (as @ m # bs) e None" and d: "distinct (as @ m # bs)"
    and k: "\<And>x. x \<in> set (as @ bs) \<Longrightarrow> w_prev (h' x) = (if bs \<noteq> [] \<and> x = hd bs then w_prev (h m) else w_prev (h x)) \<and>
      w_next (h' x) = (if as \<noteq> [] \<and> x = last as then w_next (h m) else w_next (h x))"
    and hd': "hd' = (if as = [] then w_next (h m) else hd0)"
  shows "\<exists>e. seg h' None hd' (as @ bs) e None"
proof -
  obtain p q where a: "seg h None hd0 as p q" "q = Some m" "w_prev (h m) = p" "seg h (Some m) (w_next (h m)) bs e None"
    using sp by (auto simp: seg_append)
  have as': "seg h' None hd' as p (w_next (h m))"
  proof (cases as rule: rev_cases)
    case Nil
    then show ?thesis using a hd' by auto
  next
    case (snoc as' y)
    have "seg (h(y := (h y)\<lparr>w_next := w_next (h m)\<rparr>)) None hd0 as (Some y) (w_next (h m))"
      using seg_set_next [of h None hd0 as' y p q "w_next (h m)"] a(1) d snoc by simp
    moreover have "p = Some y" using a(1) snoc seg_last by blast
    moreover have "seg h' None hd0 as (Some y) (w_next (h m)) =
        seg (h(y := (h y)\<lparr>w_next := w_next (h m)\<rparr>)) None hd0 as (Some y) (w_next (h m))"
    proof (rule seg_frame)
      fix x assume x: "x \<in> set as"
      have "bs \<noteq> [] \<Longrightarrow> x \<noteq> hd bs" using d x by (cases bs) auto
      then show "w_prev (h' x) = w_prev ((h(y := (h y)\<lparr>w_next := w_next (h m)\<rparr>)) x) \<and>
          w_next (h' x) = w_next ((h(y := (h y)\<lparr>w_next := w_next (h m)\<rparr>)) x)"
        using k [of x] x snoc by auto
    qed
    ultimately show ?thesis using hd' snoc by simp
  qed
  have "seg h' p (w_next (h m)) bs (if bs = [] then p else e) None"
  proof (cases bs)
    case Nil
    then show ?thesis using a(4) by simp
  next
    case (Cons b bs')
    have "seg (h(b := (h b)\<lparr>w_prev := p\<rparr>)) p (Some b) bs e None"
      using seg_set_prev [of h "Some m" b bs' e None p] a(4) d Cons by auto
    moreover have "seg h' p (Some b) bs e None = seg (h(b := (h b)\<lparr>w_prev := p\<rparr>)) p (Some b) bs e None"
    proof (rule seg_frame)
      fix x assume x: "x \<in> set bs"
      have "x \<notin> set as" using d x by auto
      then have "as \<noteq> [] \<Longrightarrow> x \<noteq> last as" using last_in_set [of as] by blast
      then show "w_prev (h' x) = w_prev ((h(b := (h b)\<lparr>w_prev := p\<rparr>)) x) \<and>
          w_next (h' x) = w_next ((h(b := (h b)\<lparr>w_prev := p\<rparr>)) x)"
        using k [of x] x Cons a(3) by auto
    qed
    ultimately show ?thesis using a(4) Cons by simp
  qed
  then show ?thesis using as' seg_append by blast
qed

lemma detach_rep:
  assumes rep: "window_rep L xs" and m: "m \<in> set xs" "\<not> w_sweeping (q_nodes L m)"
  shows "\<exists>L'. quantile_window_detach L m = Some L' \<and> window_rep L' (removeAll m xs)"
proof -
  obtain as bs where xs: "xs = as @ m # bs" using m(1) by (meson split_list)
  obtain e where s: "distinct xs" "seg (q_nodes L) None (q_head L) xs e None"
    "\<And>x. w_registered (q_nodes L x) \<longleftrightarrow> x \<in> set xs" "\<And>x. x \<in> set xs \<Longrightarrow> w_ns (q_nodes L x)"
    using rep by (auto simp: window_rep_def)
  let ?h = "q_nodes L"
  obtain p q where a: "seg ?h None (q_head L) as p q" "q = Some m" "w_prev (?h m) = p" "seg ?h (Some m) (w_next (?h m)) bs e None"
    using s(2) xs by (auto simp: seg_append)
  have p: "w_prev (?h m) = (if as = [] then None else Some (last as))"
    using a(1,3) by (cases as rule: rev_cases) (auto dest: seg_last)
  have n: "w_next (?h m) = (if bs = [] then None else Some (hd bs))" using a(4) by (cases bs) auto
  have hd0: "as = [] \<Longrightarrow> q_head L = Some m" using a(1,2) by auto
  have d: "m \<notin> set as" "m \<notin> set bs" "distinct as" "distinct bs" "set as \<inter> set bs = {}" using s(1) xs by auto
  define L' where "L' = the (quantile_window_detach L m)"
  have run: "quantile_window_detach L m = Some L'"
    using s(3,4) [of m] m by (simp add: L'_def quantile_window_detach_def Let_def)
  have la: "as \<noteq> [] \<Longrightarrow> last as \<in> set as" "bs \<noteq> [] \<Longrightarrow> hd bs \<in> set bs" by auto
  then have ne: "as \<noteq> [] \<Longrightarrow> bs \<noteq> [] \<Longrightarrow> hd bs \<noteq> last as" using d(5) by (metis disjoint_iff)
  have h': "q_nodes L' x = (if x = m then (?h m)\<lparr>w_next := None, w_prev := None, w_registered := False, w_ns := False\<rparr>
     else if as \<noteq> [] \<and> x = last as then (?h x)\<lparr>w_next := w_next (?h m)\<rparr>
     else if bs \<noteq> [] \<and> x = hd bs then (?h x)\<lparr>w_prev := w_prev (?h m)\<rparr> else ?h x)" for x
    using s(3,4) [of m] m p n d la hd0 ne
    by (cases "as = []"; cases "bs = []") (auto simp: L'_def quantile_window_detach_def Let_def set_node_def)
  have hd': "q_head L' = (if as = [] then w_next (?h m) else q_head L)"
    using s(3,4) [of m] m p n hd0
    by (cases "as = []"; cases "bs = []") (auto simp: L'_def quantile_window_detach_def Let_def set_node_def)
  have "\<exists>e. seg (q_nodes L') None (q_head L') (as @ bs) e None"
  proof (rule detach_links [where h = ?h and m = m])
    show "seg ?h None (q_head L) (as @ m # bs) e None" "distinct (as @ m # bs)" using s(1,2) xs by auto
    show "q_head L' = (if as = [] then w_next (?h m) else q_head L)" by (rule hd')
    show "w_prev (q_nodes L' x) = (if bs \<noteq> [] \<and> x = hd bs then w_prev (?h m) else w_prev (?h x)) \<and>
      w_next (q_nodes L' x) = (if as \<noteq> [] \<and> x = last as then w_next (?h m) else w_next (?h x))" if "x \<in> set (as @ bs)" for x
    proof -
      have "x \<noteq> m" "\<not> (as \<noteq> [] \<and> x = last as \<and> bs \<noteq> [] \<and> x = hd bs)" using that d ne by auto
      then show ?thesis by (auto simp: h')
    qed
  qed
  moreover have "w_registered (q_nodes L' x) \<longleftrightarrow> x \<in> set (as @ bs)" for x using s(3) [of x] d xs by (auto simp: h')
  moreover have "w_ns (q_nodes L' x)" if "x \<in> set (as @ bs)" for x using s(4) [of x] that d xs by (auto simp: h')
  moreover have "removeAll m xs = as @ bs" using xs d by simp
  moreover have "distinct (as @ bs)" using d by simp
  ultimately have "window_rep L' (removeAll m xs)" unfolding window_rep_def by simp
  then show ?thesis using run by blast
qed

text \<open>The sweep visits every node once and leaves no node marked.\<close>

lemma sweep_links:
  assumes "seg (q_nodes L) p q xs e None" "distinct xs" "length xs \<le> fuel"
    "\<And>x. w_sweeping (q_nodes L x) \<longleftrightarrow> q = Some x"
  shows "\<exists>L'. sweep_loop fuel L q = Some (xs, L') \<and> q_head L' = q_head L \<and>
     (\<forall>x. q_nodes L' x = (q_nodes L x)\<lparr>w_sweeping := False\<rparr>)"
  using assms
proof (induction xs arbitrary: L p q fuel)
  case Nil
  then have "\<forall>x. \<not> w_sweeping (q_nodes L x)" by simp
  then have "\<forall>x. q_nodes L x = (q_nodes L x)\<lparr>w_sweeping := False\<rparr>" by simp
  then show ?case using Nil by auto
next
  case (Cons m xs)
  obtain f where f: "fuel = Suc f" "length xs \<le> f" using Cons.prems(3) by (cases fuel) auto
  have q: "q = Some m" and s: "seg (q_nodes L) (Some m) (w_next (q_nodes L m)) xs e None" using Cons.prems(1) by auto
  let ?n = "w_next (q_nodes L m)"
  have nm: "?n \<noteq> Some m" using s Cons.prems(2) by (cases xs) auto
  let ?L = "set_node (Some m) (\<lambda>n. n\<lparr>w_sweeping := False\<rparr>) (set_node ?n (\<lambda>n. n\<lparr>w_sweeping := True\<rparr>) L)"
  have nodes: "q_nodes ?L x = (q_nodes L x)\<lparr>w_sweeping := (?n = Some x)\<rparr>" for x
    using Cons.prems(4) [of x] nm q by (cases ?n) (auto simp: set_node_def)
  have "seg (q_nodes ?L) (Some m) ?n xs e None" using s by (subst seg_frame [where h = "q_nodes L"]) (auto simp: nodes)
  moreover have "w_sweeping (q_nodes ?L x) \<longleftrightarrow> ?n = Some x" for x by (simp add: nodes)
  ultimately obtain L' where L': "sweep_loop f ?L ?n = Some (xs, L')" "q_head L' = q_head ?L"
     "\<forall>x. q_nodes L' x = (q_nodes ?L x)\<lparr>w_sweeping := False\<rparr>"
    using Cons.IH [of ?L "Some m" ?n f] Cons.prems(2) f(2) by auto
  have "q_head ?L = q_head L" by (cases ?n) (simp_all add: set_node_def)
  then show ?case using L' by (simp add: f(1) q Let_def nodes)
qed

lemma sweep_rep:
  assumes rep: "window_rep L xs" and idle: "\<And>x. \<not> w_sweeping (q_nodes L x)" and fuel: "length xs \<le> fuel"
  shows "\<exists>L'. quantile_window_sweep fuel L = Some (xs, L') \<and> window_rep L' xs \<and> (\<forall>x. \<not> w_sweeping (q_nodes L' x))"
proof -
  obtain e where s: "distinct xs" "seg (q_nodes L) None (q_head L) xs e None"
    "\<And>x. w_registered (q_nodes L x) \<longleftrightarrow> x \<in> set xs" "\<And>x. x \<in> set xs \<Longrightarrow> w_ns (q_nodes L x)"
    using rep by (auto simp: window_rep_def)
  let ?L = "set_node (q_head L) (\<lambda>n. n\<lparr>w_sweeping := True\<rparr>) L"
  have nodes: "q_nodes ?L x = (q_nodes L x)\<lparr>w_sweeping := (q_head L = Some x)\<rparr>" "q_head ?L = q_head L" for x
    using idle [of x] by (cases "q_head L"; auto simp: set_node_def)+
  have "seg (q_nodes ?L) None (q_head L) xs e None" using s(2) by (subst seg_frame [where h = "q_nodes L"]) (auto simp: nodes)
  then obtain L' where L': "sweep_loop fuel ?L (q_head L) = Some (xs, L')" "q_head L' = q_head L"
     "\<And>x. q_nodes L' x = (q_nodes ?L x)\<lparr>w_sweeping := False\<rparr>"
    using sweep_links [of ?L None "q_head L" xs e fuel] s(1) fuel by (auto simp: nodes)
  have "seg (q_nodes L') None (q_head L') xs e None"
    using s(2) unfolding L'(2) by (subst seg_frame [where h = "q_nodes L"]) (auto simp: nodes L'(3))
  then have "window_rep L' xs" using s unfolding window_rep_def by (auto simp: nodes L'(3))
  then show ?thesis using L'(1,3) by (simp add: quantile_window_sweep_def)
qed

section \<open>Histories\<close>

inductive pb_reach :: "percentile_buffer \<Rightarrow> bool" where
  reach_init: "pb_reach (init_percentile_buffer_opts lg ac percentile buffer_min calc_every window_sec empty_policy)"
| reach_insert: "pb_reach pb \<Longrightarrow> pb_reach (heap_insert_at pb key ts)"
| reach_calc: "pb_reach pb \<Longrightarrow> pb_reach (snd (calc_percentiles lg dceil now pb))"
| reach_window: "pb_reach pb \<Longrightarrow> qw_prepare lg dceil now pb force = Some (job, pb') \<Longrightarrow> pb_reach pb'"

lemma prepare_ok: "pb_ok pb \<Longrightarrow> qw_prepare lg dceil now pb force = Some (job, pb') \<Longrightarrow> pb_ok pb'"
proof -
  have "pb_ok (pb\<lparr>pb_last_calc_sec := now\<rparr>) = pb_ok pb" by (cases "pb_ts pb") (simp_all add: pb_ok_def)
  then show "pb_ok pb \<Longrightarrow> qw_prepare lg dceil now pb force = Some (job, pb') \<Longrightarrow> pb_ok pb'"
    by (auto simp: qw_prepare_def Let_def split: if_splits)
qed

lemma calc_ok: "pb_ok pb \<Longrightarrow> pb_ok (snd (calc_percentiles lg dceil now pb))"
  using count_ok [of pb] by (auto simp: calc_percentiles_def dest: prepare_ok split: option.splits prod.splits)

lemma reach_ok: "pb_reach pb \<Longrightarrow> pb_ok pb"
  by (induction rule: pb_reach.induct) (auto simp: init_ok insert_ok calc_ok prepare_ok)

lemma window_index_range: "0 < k \<Longrightarrow> 0 \<le> window_quantile_index lg dceil p k \<and> window_quantile_index lg dceil p k < k"
  by (auto simp: window_quantile_index_def Let_def)

datatype window_op = Register nat | Detach nat

fun run_window_ops :: "window_list \<Rightarrow> window_op list \<Rightarrow> window_list option" where
  "run_window_ops L [] = Some L"
| "run_window_ops L (Register m # ops) = run_window_ops (quantile_window_register L m) ops"
| "run_window_ops L (Detach m # ops) =
     (case quantile_window_detach L m of None \<Rightarrow> None | Some L' \<Rightarrow> run_window_ops L' ops)"

fun window_nodes :: "nat list \<Rightarrow> window_op list \<Rightarrow> nat list" where
  "window_nodes xs [] = xs"
| "window_nodes xs (Register m # ops) = window_nodes (if m \<in> set xs then xs else m # xs) ops"
| "window_nodes xs (Detach m # ops) = window_nodes (removeAll m xs) ops"

definition no_windows :: window_list where
  "no_windows = \<lparr>q_head = None, q_nodes = \<lambda>_. \<lparr>w_prev = None, w_next = None, w_registered = False, w_sweeping = False, w_ns = False\<rparr>\<rparr>"

lemma register_idle: "\<not> w_sweeping (q_nodes L x) \<Longrightarrow> \<not> w_sweeping (q_nodes (quantile_window_register L m) x)"
  by (cases "q_head L") (auto simp: quantile_window_register_def set_node_def Let_def)

lemma detach_idle: "\<not> w_sweeping (q_nodes L x) \<Longrightarrow> quantile_window_detach L m = Some L' \<Longrightarrow> \<not> w_sweeping (q_nodes L' x)"
  by (auto simp: quantile_window_detach_def set_node_def Let_def split: if_splits option.splits)

lemma window_ops_rep:
  assumes "window_rep L xs" "\<And>x. \<not> w_sweeping (q_nodes L x)"
  shows "\<exists>L'. run_window_ops L ops = Some L' \<and> window_rep L' (window_nodes xs ops) \<and> (\<forall>x. \<not> w_sweeping (q_nodes L' x))"
  using assms
proof (induction L ops arbitrary: xs rule: run_window_ops.induct)
  case (1 L)
  then show ?case by simp
next
  case (2 L m ops)
  have "window_rep (quantile_window_register L m) (if m \<in> set xs then xs else m # xs)"
    using register_rep [OF 2(2)] 2(2) by (auto simp: window_rep_def quantile_window_register_def)
  then show ?case using 2(1) register_idle [OF 2(3)] by simp
next
  case (3 L m ops)
  obtain L' where L': "quantile_window_detach L m = Some L'" "window_rep L' (removeAll m xs)"
  proof (cases "m \<in> set xs")
    case True
    then show ?thesis using detach_rep [OF 3(2) _ 3(3)] that by blast
  next
    case False
    then have "\<not> w_registered (q_nodes L m)" using 3(2) by (simp add: window_rep_def)
    then have "quantile_window_detach L m = Some L" by (simp add: quantile_window_detach_def)
    then show ?thesis using that 3(2) False by simp
  qed
  then show ?case using 3(1) [OF L'(1), of "removeAll m xs"] detach_idle [OF 3(3) L'(1)] by simp
qed

section \<open>Properties\<close>

text \<open>
  C23: \<open>heapSort\<close> sorts the first \<open>n\<close> samples in descending order, permutes them and leaves the
  rest of the array alone.
\<close>

theorem heapSort_sorts:
  assumes "n \<le> length a"
  shows "sorted_wrt (\<ge>) (take n (heapSort a n)) \<and> mset (heapSort a n) = mset a \<and> drop n (heapSort a n) = drop n a"
  using heapSort_ok [OF assms] by blast

theorem heapSort_sorts_witness: "sorted_wrt (\<ge>) (take 3 (heapSort [1, 3, 2, 9] 3)) \<and> drop 3 (heapSort [1, 3, 2, 9] 3) = [9]"
  using heapSort_sorts [of 3 "[1, 3, 2, 9]"] by simp





text \<open>
  With the default sizes the published percentile can be wrong: for the 0.9 percentile of ten samples
  only one element of the max-heap is sorted, so the left child of the root is published although the
  second largest sample is the right one.
\<close>

theorem calc_percentiles_partial_sort_wrong:
  "let pb = insert_all (init_percentile_buffer_opts (\<lambda>_. 0) None [9] (- 1) (- 1) (- 1) (- 1))
              (map (\<lambda>v. (v, 0)) [10, 5, 9, 1, 1, 1, 1, 1, 1, 1])
   in pb_ipercentile pb = [1] \<and> fst (calc_percentiles (\<lambda>_. 0) (\<lambda>_ _. 0) 0 pb) = [Emit 9 5 (- 1)] \<and> rev (sort (pb_arr pb)) ! 1 = 9"
  by code_simp




end
