(* ===== verification/Http_Header.thy ===== *)
theory Http_Header
  imports C_String
begin

text \<open>
  Reading header fields and cookies of an HTTP request (\<open>src/src/parsers/http_proto.c\<close>).

  A request holds a copy of its header text and the number of bytes the copy was made from.  The copy
  stops at a NUL, so the text can be shorter than that number; a read past its terminator is the error
  \<^term>\<open>Inl Read_outside\<close>.  Allocation does not fail.
\<close>

section \<open>Definitions\<close>

datatype header_error = Read_outside

record http_reply_data =
  hr_headers :: "string option"
  hr_headers_size :: nat
  hr_uri :: "string option"

definition blank :: "char \<Rightarrow> bool" where
  "blank c \<longleftrightarrow> c = CHR '' '' \<or> c = CHR 0x09"

text \<open>The loop that drops trailing blanks: the length that remains of the first \<open>n\<close> bytes.\<close>

fun trim_end :: "string \<Rightarrow> nat \<Rightarrow> nat" where
  "trim_end p 0 = 0"
| "trim_end p (Suc n) = (if blank (peek p n) then trim_end p n else Suc n)"

definition http_header_value_dup :: "string \<Rightarrow> string option" where
  "http_header_value_dup line =
     (if CHR '':'' \<notin> set line then None
      else let p = dropWhile blank (tl (dropWhile (\<lambda>c. c \<noteq> CHR '':'') line));
               n = trim_end p (strcspn p [CHR 0x0D, CHR 0x0A])
           in if n = 0 then None else Some (take n p))"

text \<open>\<open>strncasecmp\<close> and \<open>strncmp\<close> are only compared with 0.\<close>

definition strncasecmp_eq :: "string \<Rightarrow> string \<Rightarrow> nat \<Rightarrow> bool" where
  "strncasecmp_eq a b n \<longleftrightarrow> map tolower (take n a) = map tolower (take n b)"

definition strncmp_eq :: "string \<Rightarrow> string \<Rightarrow> nat \<Rightarrow> bool" where
  "strncmp_eq a b n \<longleftrightarrow> take n a = take n b"

definition http_line_is_header :: "string \<Rightarrow> nat \<Rightarrow> string \<Rightarrow> bool" where
  "http_line_is_header line line_len name =
     (if name = [] then False
      else let nlen = length name
           in if line_len \<le> nlen \<or> peek line nlen \<noteq> CHR '':'' then False else strncasecmp_eq line name nlen)"

text \<open>
  The loop over the lines of the header text, with the body \<open>step\<close>: it gets the pointer to the line,
  the length of the line and the value found so far, and gives the value found after it; None is the
  early return of NULL.
\<close>

function header_walk ::
    "(string \<Rightarrow> nat \<Rightarrow> string option \<Rightarrow> string option option) \<Rightarrow> string \<Rightarrow> nat \<Rightarrow> nat \<Rightarrow> string option \<Rightarrow> header_error + string option" where
  "header_walk step headers hsize i found =
     (if i < hsize
      then if length headers < i then Inl Read_outside
           else let s = drop i headers; line = strcspn s [CHR 0x0A]
                in case step s line found of
                     None \<Rightarrow> Inr None
                   | Some found' \<Rightarrow> if i + line \<ge> hsize then Inr found'
                                    else header_walk step headers hsize (i + line + 1) found'
      else Inr found)"
  by pat_completeness auto

termination header_walk
  by (relation "measure (\<lambda>(step, headers, hsize, i, found). hsize - i)") auto

declare header_walk.simps [simp del]

definition header_step :: "string \<Rightarrow> string \<Rightarrow> nat \<Rightarrow> string option \<Rightarrow> string option option" where
  "header_step name s line found =
     (if http_line_is_header s line name
      then if found \<noteq> None then None
           else case http_header_value_dup s of None \<Rightarrow> None | Some v \<Rightarrow> Some (Some v)
      else Some found)"

definition http_header_get :: "http_reply_data \<Rightarrow> string \<Rightarrow> header_error + string option" where
  "http_header_get hr name =
     (case hr_headers hr of
        None \<Rightarrow> Inr None
      | Some headers \<Rightarrow> if name = [] then Inr None
                        else header_walk (header_step name) headers (hr_headers_size hr) 0 None)"

definition cookie_gap :: "char \<Rightarrow> bool" where
  "cookie_gap c \<longleftrightarrow> blank c \<or> c = CHR '';''"

lemma cookie_progress:
  assumes "dropWhile cookie_gap p \<noteq> []"
  shows "length (drop (strcspn (dropWhile cookie_gap p) '';'') (dropWhile cookie_gap p)) < length p"
proof -
  let ?q = "dropWhile cookie_gap p"
  have "\<not> cookie_gap (hd ?q)" using assms hd_dropWhile by blast
  then have "0 < strcspn ?q '';''" using assms by (cases ?q) (auto simp: strcspn_def cookie_gap_def)
  then show ?thesis using assms length_dropWhile_le [of cookie_gap p] by (cases ?q) auto
qed

text \<open>0: missing, 1: one value, 2: a second value, 3: an empty value; with the value found.\<close>

function cookie_loop :: "string \<Rightarrow> string \<Rightarrow> string option \<Rightarrow> nat \<times> string option" where
  "cookie_loop name p found =
     (let q = dropWhile cookie_gap p; nlen = length name; rest = drop (strcspn q '';'') q
      in if q = [] then (if found \<noteq> None then 1 else 0, found)
         else if strncmp_eq q name nlen \<and> peek q nlen = CHR ''=''
         then if found \<noteq> None then (2, found)
              else let v = drop (nlen + 1) q; vlen = trim_end v (strcspn v [CHR '';'', CHR 0x0D, CHR 0x0A])
                   in if vlen = 0 then (3, found) else cookie_loop name rest (Some (take vlen v))
         else cookie_loop name rest found)"
  by pat_completeness auto

termination cookie_loop
  by (relation "measure (\<lambda>(name, p, found). length p)") (simp_all add: cookie_progress del: length_drop dropWhile_eq_Nil_conv)

declare cookie_loop.simps [simp del]

definition http_cookie_take :: "string \<Rightarrow> string \<Rightarrow> string option \<Rightarrow> nat \<times> string option" where
  "http_cookie_take cookie name found = (if name = [] then (0, found) else cookie_loop name cookie found)"

definition cookie_step :: "string \<Rightarrow> string \<Rightarrow> nat \<Rightarrow> string option \<Rightarrow> string option option" where
  "cookie_step name s line found =
     (if http_line_is_header s line ''Cookie''
      then case http_header_value_dup s of
             None \<Rightarrow> None
           | Some raw \<Rightarrow> (case http_cookie_take raw name found of
                             (rc, found') \<Rightarrow> if rc = 2 \<or> rc = 3 then None else Some found')
      else Some found)"

definition http_cookie_get :: "http_reply_data \<Rightarrow> string \<Rightarrow> header_error + string option" where
  "http_cookie_get hr name =
     (case hr_headers hr of
        None \<Rightarrow> Inr None
      | Some headers \<Rightarrow> if name = [] then Inr None
                        else header_walk (cookie_step name) headers (hr_headers_size hr) 0 None)"

function cookie_named_loop :: "string \<Rightarrow> string \<Rightarrow> string option" where
  "cookie_named_loop name p =
     (let q = dropWhile cookie_gap p; nlen = length name; rest = drop (strcspn q '';'') q
      in if q = [] then None
         else if strncmp_eq q name nlen \<and> peek q nlen = CHR ''=''
         then let v = drop (nlen + 1) q; vlen = trim_end v (strcspn v [CHR '';'', CHR 0x0D, CHR 0x0A])
              in if vlen = 0 then None else Some (take vlen v)
         else cookie_named_loop name rest)"
  by pat_completeness auto

termination cookie_named_loop
  by (relation "measure (\<lambda>(name, p). length p)") (simp_all add: cookie_progress del: length_drop dropWhile_eq_Nil_conv)

declare cookie_named_loop.simps [simp del]

definition http_cookie_named :: "string \<Rightarrow> string \<Rightarrow> string option" where
  "http_cookie_named cookie name = (if name = [] then None else cookie_named_loop name cookie)"

text \<open>
  The value of the authorization header and cookie: the first of each.  An empty name stands for a
  missing one as well.
\<close>

definition first_header :: "string \<Rightarrow> string \<Rightarrow> nat \<Rightarrow> nat \<Rightarrow> string option \<Rightarrow> string option" where
  "first_header name headers hsize i found =
     (if name \<noteq> [] \<and> i + length name < hsize \<and> peek headers (i + length name) = CHR '':'' \<and>
         strncasecmp_eq (drop i headers) name (length name) \<and> found = None
      then http_header_value_dup (drop i headers) else found)"

definition first_cookie :: "string \<Rightarrow> string \<Rightarrow> nat \<Rightarrow> nat \<Rightarrow> string option \<Rightarrow> string option" where
  "first_cookie name headers hsize i found =
     (if name \<noteq> [] \<and> i + 7 \<le> hsize \<and> strncasecmp_eq (drop i headers) ''Cookie:'' 7 \<and> found = None
      then case http_header_value_dup (drop i headers) of None \<Rightarrow> None | Some raw \<Rightarrow> http_cookie_named raw name
      else found)"

function extract_walk ::
    "string \<Rightarrow> string \<Rightarrow> string \<Rightarrow> nat \<Rightarrow> nat \<Rightarrow> string option \<Rightarrow> string option \<Rightarrow> header_error + string option \<times> string option" where
  "extract_walk header cookie headers hsize i fh fc =
     (if i < hsize
      then if length headers < i \<or> (header \<noteq> [] \<and> i + length header < hsize \<and> length headers < i + length header)
           then Inl Read_outside
           else extract_walk header cookie headers hsize (i + strcspn (drop i headers) [CHR 0x0A] + 1)
                  (first_header header headers hsize i fh) (first_cookie cookie headers hsize i fc)
      else Inr (fh, fc))"
  by pat_completeness auto

termination extract_walk
  by (relation "measure (\<lambda>(header, cookie, headers, hsize, i, fh, fc). hsize - i)") auto

declare extract_walk.simps [simp del]

definition http_reply_authorize_extract ::
    "http_reply_data \<Rightarrow> string \<Rightarrow> string \<Rightarrow> header_error + string option \<times> string option" where
  "http_reply_authorize_extract hr authorize_header authorize_cookie =
     (case hr_headers hr of
        None \<Rightarrow> Inr (None, None)
      | Some headers \<Rightarrow>
          if authorize_header = [] \<and> authorize_cookie = [] then Inr (None, None)
          else extract_walk authorize_header authorize_cookie headers (hr_headers_size hr) 0 None None)"

section \<open>Lines of the header text\<close>

function text_lines :: "string \<Rightarrow> string list" where
  "text_lines s =
     (if s = [] then []
      else takeWhile (\<lambda>c. c \<noteq> CHR 0x0A) s # text_lines (tl (dropWhile (\<lambda>c. c \<noteq> CHR 0x0A) s)))"
  by pat_completeness auto

termination text_lines
proof (relation "measure length")
  fix s :: string
  assume "s \<noteq> []"
  then show "(tl (dropWhile (\<lambda>c. c \<noteq> CHR 0x0A) s), s) \<in> measure length"
    using length_dropWhile_le [of "\<lambda>c. c \<noteq> CHR 0x0A" s] by (cases s) (auto simp: Suc_le_eq)
qed simp

declare text_lines.simps [simp del]

fun fold_opt :: "('a \<Rightarrow> 'b \<Rightarrow> 'b option) \<Rightarrow> 'a list \<Rightarrow> 'b \<Rightarrow> 'b option" where
  "fold_opt f [] b = Some b"
| "fold_opt f (a # as) b = (case f a b of None \<Rightarrow> None | Some b' \<Rightarrow> fold_opt f as b')"

text \<open>A body that looks at its line only.\<close>

definition line_local :: "(string \<Rightarrow> nat \<Rightarrow> string option \<Rightarrow> string option option) \<Rightarrow> (string \<Rightarrow> string option \<Rightarrow> string option option) \<Rightarrow> bool" where
  "line_local step f \<longleftrightarrow> (\<forall>s found. step s (strcspn s [CHR 0x0A]) found = f (takeWhile (\<lambda>c. c \<noteq> CHR 0x0A) s) found)"

lemma strcspn_newline: "strcspn s [CHR 0x0A] = length (takeWhile (\<lambda>c. c \<noteq> CHR 0x0A) s)"
  by (simp add: strcspn_def)

lemma dropWhile_drop: "dropWhile P s = drop (length (takeWhile P s)) s"
  by (simp add: dropWhile_eq_drop)

lemma tl_drop_Suc: "tl (drop n xs) = drop (Suc n) xs"
  by (simp add: drop_Suc tl_drop)

lemma header_walk_lines:
  assumes "line_local step f" "i \<le> length headers"
  shows "header_walk step headers (length headers) i found =
    Inr (case fold_opt f (text_lines (drop i headers)) found of None \<Rightarrow> None | Some v \<Rightarrow> v)"
  using assms(2)
proof (induction "length headers - i" arbitrary: i found rule: less_induct)
  case less
  show ?case
  proof (cases "i < length headers")
    case True
    let ?s = "drop i headers"
    let ?l = "takeWhile (\<lambda>c. c \<noteq> CHR 0x0A) ?s"
    have ne: "?s \<noteq> []" using True by simp
    have st: "step ?s (strcspn ?s [CHR 0x0A]) found = f ?l found" using assms(1) by (simp add: line_local_def)
    have rest: "tl (dropWhile (\<lambda>c. c \<noteq> CHR 0x0A) ?s) = drop (i + length ?l + 1) headers"
      unfolding dropWhile_drop tl_drop_Suc drop_drop by (simp add: add.commute)
    have lines: "text_lines ?s = ?l # text_lines (drop (i + length ?l + 1) headers)"
      using ne text_lines.simps [of ?s] rest by simp
    have walk: "header_walk step headers (length headers) i found =
      (case f ?l found of None \<Rightarrow> Inr None
       | Some found' \<Rightarrow> if i + length ?l \<ge> length headers then Inr found'
                        else header_walk step headers (length headers) (i + length ?l + 1) found')"
      using True header_walk.simps [of step headers "length headers" i found] st by (simp add: Let_def strcspn_newline)
    have over: "text_lines (drop (i + length ?l + 1) headers) = []" if "i + length ?l \<ge> length headers"
      using that by (simp add: text_lines.simps [of "[]"])
    show ?thesis
    proof (cases "f ?l found")
      case None
      then show ?thesis using walk lines by simp
    next
      case (Some found')
      show ?thesis
      proof (cases "i + length ?l \<ge> length headers")
        case True
        then show ?thesis using walk lines over Some by simp
      next
        case False
        then show ?thesis using walk lines Some less(1) [of "i + length ?l + 1" found'] True by simp
      qed
    qed
  next
    case False
    then show ?thesis by (simp add: header_walk.simps [of step] text_lines.simps [of "[]"])
  qed
qed

lemma trim_end_append: "n \<le> length p \<Longrightarrow> trim_end (p @ r) n = trim_end p n"
  by (induction n) (simp_all add: peek_def nth_append)

lemma trim_end_le: "trim_end p n \<le> n"
  by (induction n) auto

lemma dropWhile_blank_append:
  "r = [] \<or> \<not> P (hd r) \<Longrightarrow> dropWhile P (p @ r) = dropWhile P p @ r"
  by (induction p) (auto simp: dropWhile_eq_self_iff)

lemma strcspn_append: "r = [] \<or> hd r \<in> set reject \<Longrightarrow> strcspn (p @ r) reject = strcspn p reject"
  by (cases r; induction p) (auto simp: strcspn_def)

text \<open>A value is read from its line: what follows the end of the line does not matter.\<close>

lemma value_dup_append:
  assumes "CHR '':'' \<in> set l" "r = [] \<or> hd r = CHR 0x0A"
  shows "http_header_value_dup (l @ r) = http_header_value_dup l"
proof -
  let ?c = "\<lambda>c. c \<noteq> CHR '':''" and ?e = "[CHR 0x0D, CHR 0x0A]"
  have "dropWhile ?c (l @ r) = dropWhile ?c l @ r" using assms(1) by (simp add: dropWhile_append1)
  moreover have "dropWhile ?c l \<noteq> []" using assms(1) by auto
  ultimately have t: "tl (dropWhile ?c (l @ r)) = tl (dropWhile ?c l) @ r" by simp
  define p where "p = dropWhile blank (tl (dropWhile ?c l))"
  have "r = [] \<or> \<not> blank (hd r)" using assms(2) by (auto simp: blank_def)
  then have p: "dropWhile blank (tl (dropWhile ?c (l @ r))) = p @ r" unfolding t p_def by (rule dropWhile_blank_append)
  have n: "strcspn (p @ r) ?e = strcspn p ?e" by (rule strcspn_append) (use assms(2) in auto)
  have "trim_end (p @ r) (strcspn p ?e) = trim_end p (strcspn p ?e)" by (rule trim_end_append) (rule strcspn_le)
  moreover have "trim_end p (strcspn p ?e) \<le> length p" using trim_end_le strcspn_le order_trans by blast
  ultimately show ?thesis
    using assms(1) unfolding http_header_value_dup_def Let_def p n by (simp flip: p_def)
qed

lemma line_split:
  fixes s :: string
  defines "l \<equiv> takeWhile (\<lambda>c. c \<noteq> CHR 0x0A) s"
  obtains r where "s = l @ r" "r = [] \<or> hd r = CHR 0x0A" "strcspn s [CHR 0x0A] = length l"
proof
  show "s = l @ dropWhile (\<lambda>c. c \<noteq> CHR 0x0A) s" by (simp add: l_def)
  show "dropWhile (\<lambda>c. c \<noteq> CHR 0x0A) s = [] \<or> hd (dropWhile (\<lambda>c. c \<noteq> CHR 0x0A) s) = CHR 0x0A"
    using hd_dropWhile [of "\<lambda>c. c \<noteq> CHR 0x0A" s] by blast
  show "strcspn s [CHR 0x0A] = length l" by (simp add: l_def strcspn_newline)
qed

lemma is_header_append: "http_line_is_header (l @ r) (length l) name = http_line_is_header l (length l) name"
  by (auto simp: http_line_is_header_def Let_def peek_def nth_append strncasecmp_eq_def)

lemma is_header_colon: "http_line_is_header l (length l) name \<Longrightarrow> CHR '':'' \<in> set l"
  by (auto simp: http_line_is_header_def Let_def peek_def in_set_conv_nth not_le split: if_splits)

lemma header_step_local: "line_local (header_step name) (\<lambda>l. header_step name l (length l))"
  unfolding line_local_def
proof (intro allI)
  fix s found
  obtain r where r: "s = takeWhile (\<lambda>c. c \<noteq> CHR 0x0A) s @ r" "r = [] \<or> hd r = CHR 0x0A"
    "strcspn s [CHR 0x0A] = length (takeWhile (\<lambda>c. c \<noteq> CHR 0x0A) s)" by (rule line_split)
  define l where "l = takeWhile (\<lambda>c. c \<noteq> CHR 0x0A) s"
  show "header_step name s (strcspn s [CHR 0x0A]) found = header_step name l (length l) found"
    using value_dup_append [OF is_header_colon r(2), of l] is_header_append [of l r name] r(1,3)
    unfolding header_step_def l_def [symmetric] by fastforce
qed

lemma cookie_step_local: "line_local (cookie_step name) (\<lambda>l. cookie_step name l (length l))"
  unfolding line_local_def
proof (intro allI)
  fix s found
  obtain r where r: "s = takeWhile (\<lambda>c. c \<noteq> CHR 0x0A) s @ r" "r = [] \<or> hd r = CHR 0x0A"
    "strcspn s [CHR 0x0A] = length (takeWhile (\<lambda>c. c \<noteq> CHR 0x0A) s)" by (rule line_split)
  define l where "l = takeWhile (\<lambda>c. c \<noteq> CHR 0x0A) s"
  show "cookie_step name s (strcspn s [CHR 0x0A]) found = cookie_step name l (length l) found"
    using value_dup_append [OF is_header_colon r(2), of l] is_header_append [of l r "''Cookie''"] r(1,3)
    unfolding cookie_step_def l_def [symmetric] by fastforce
qed

section \<open>The unique header field\<close>

definition field_lines :: "string \<Rightarrow> string \<Rightarrow> string list" where
  "field_lines name headers = filter (\<lambda>l. http_line_is_header l (length l) name) (text_lines headers)"

definition unique_value :: "('a \<Rightarrow> string option) \<Rightarrow> 'a list \<Rightarrow> string option" where
  "unique_value f xs = (case xs of [x] \<Rightarrow> f x | _ \<Rightarrow> None)"

lemma header_fold_found:
  "fold_opt (\<lambda>l. header_step name l (length l)) ls (Some v) =
     (if filter (\<lambda>l. http_line_is_header l (length l) name) ls = [] then Some (Some v) else None)"
  by (induction ls) (auto simp: header_step_def)

lemma header_fold:
  "(case fold_opt (\<lambda>l. header_step name l (length l)) ls None of None \<Rightarrow> None | Some v \<Rightarrow> v) =
     unique_value http_header_value_dup (filter (\<lambda>l. http_line_is_header l (length l) name) ls)"
proof (induction ls)
  case (Cons l ls)
  show ?case
  proof (cases "http_line_is_header l (length l) name")
    case True
    then have "header_step name l (length l) None = (case http_header_value_dup l of None \<Rightarrow> None | Some v \<Rightarrow> Some (Some v))"
      by (simp add: header_step_def)
    then show ?thesis using True
      by (cases "http_header_value_dup l"; cases "filter (\<lambda>l. http_line_is_header l (length l) name) ls")
         (simp_all add: unique_value_def header_fold_found)
  next
    case False
    then have "header_step name l (length l) None = Some None" by (simp add: header_step_def)
    then show ?thesis using Cons False by simp
  qed
qed (simp add: unique_value_def)

text \<open>What the request parser guarantees when the header text has no NUL.\<close>

definition headers_whole :: "http_reply_data \<Rightarrow> bool" where
  "headers_whole hr \<longleftrightarrow> (\<forall>headers. hr_headers hr = Some headers \<longrightarrow> length headers = hr_headers_size hr)"

lemma header_get_whole:
  assumes "headers_whole hr"
  shows "http_header_get hr name =
    Inr (case hr_headers hr of None \<Rightarrow> None
         | Some headers \<Rightarrow> unique_value http_header_value_dup (field_lines name headers))"
proof (cases "hr_headers hr")
  case (Some headers)
  show ?thesis
  proof (cases "name = []")
    case True
    then show ?thesis using Some by (simp add: http_header_get_def field_lines_def http_line_is_header_def unique_value_def)
  next
    case False
    then show ?thesis
      using Some assms header_walk_lines [OF header_step_local, of 0 headers name None] header_fold [of name "text_lines headers"]
      by (simp add: http_header_get_def headers_whole_def field_lines_def)
  qed
qed (simp add: http_header_get_def)

section \<open>The unique cookie\<close>

function cookie_pieces :: "string \<Rightarrow> string list" where
  "cookie_pieces p =
     (let q = dropWhile cookie_gap p
      in if q = [] then [] else takeWhile (\<lambda>c. c \<noteq> CHR '';'') q # cookie_pieces (drop (strcspn q '';'') q))"
  by pat_completeness auto

termination cookie_pieces
  by (relation "measure length") (simp_all add: cookie_progress del: length_drop dropWhile_eq_Nil_conv)

declare cookie_pieces.simps [simp del]

definition piece_named :: "string \<Rightarrow> string \<Rightarrow> bool" where
  "piece_named name x \<longleftrightarrow> strncmp_eq x name (length name) \<and> peek x (length name) = CHR ''=''"

definition piece_value :: "string \<Rightarrow> string \<Rightarrow> string option" where
  "piece_value name x =
     (let v = drop (length name + 1) x; n = trim_end v (strcspn v [CHR 0x0D, CHR 0x0A])
      in if n = 0 then None else Some (take n v))"

lemma named_append:
  assumes "CHR '';'' \<notin> set name" "r = [] \<or> hd r = CHR '';''"
  shows "strncmp_eq (x @ r) name (length name) \<and> peek (x @ r) (length name) = CHR ''='' \<longleftrightarrow> piece_named name x"
proof (cases "length name < length x")
  case True
  then show ?thesis by (simp add: piece_named_def strncmp_eq_def peek_def nth_append)
next
  case False
  have "\<not> (take (length name) (x @ r) = name \<and> peek (x @ r) (length name) = CHR ''='')"
  proof
    assume a: "take (length name) (x @ r) = name \<and> peek (x @ r) (length name) = CHR ''=''"
    then have l: "length name < length (x @ r)" "(x @ r) ! length name = CHR ''=''"
      unfolding peek_def by (auto split: if_splits)
    then have r: "hd r = CHR '';''" "r \<noteq> []" using False assms(2) by auto
    then have n: "(x @ r) ! length x = CHR '';''" by (simp add: nth_append hd_conv_nth)
    show False
    proof (cases "length x = length name")
      case True
      then show ?thesis using n l(2) by simp
    next
      case f: False
      then have "name ! length x = CHR '';''" using n a False by (metis linorder_neqE_nat nth_take)
      then show ?thesis using f False assms(1) by (metis linorder_neqE_nat nth_mem)
    qed
  qed
  moreover have "\<not> piece_named name x" using False by (simp add: piece_named_def peek_def)
  ultimately show ?thesis by (simp add: strncmp_eq_def)
qed

lemma strcspn_cong: "(\<And>c. c \<in> set s \<Longrightarrow> (c \<in> set r) = (c \<in> set r')) \<Longrightarrow> strcspn s r = strcspn s r'"
  unfolding strcspn_def by (induction s) auto

lemma value_append:
  assumes "piece_named name x" "CHR '';'' \<notin> set x" "r = [] \<or> hd r = CHR '';''"
  defines "v \<equiv> drop (length name + 1) (x @ r)"
  shows "(let vlen = trim_end v (strcspn v [CHR '';'', CHR 0x0D, CHR 0x0A]) in if vlen = 0 then None else Some (take vlen v)) =
    piece_value name x"
proof -
  let ?e = "[CHR '';'', CHR 0x0D, CHR 0x0A]"
  define w where "w = drop (length name + 1) x"
  have "length name < length x" using assms(1) by (auto simp: piece_named_def peek_def split: if_splits)
  then have v: "v = w @ r" by (simp add: v_def w_def)
  have "strcspn (w @ r) ?e = strcspn w ?e" by (rule strcspn_append) (use assms(3) in auto)
  also have "strcspn w ?e = strcspn w [CHR 0x0D, CHR 0x0A]"
    by (rule strcspn_cong) (use assms(2) in_set_dropD [of _ "length name + 1" x] w_def in auto)
  finally have n: "strcspn (w @ r) ?e = strcspn w [CHR 0x0D, CHR 0x0A]" .
  let ?n = "strcspn w [CHR 0x0D, CHR 0x0A]"
  have "?n \<le> length w" by (rule strcspn_le)
  moreover have "trim_end w ?n \<le> length w" using trim_end_le strcspn_le order_trans by blast
  ultimately show ?thesis
    unfolding piece_value_def w_def [symmetric] v n Let_def by (simp add: trim_end_append)
qed

text \<open>One round of the loop, on the next piece.\<close>

lemma cookie_round:
  assumes "CHR '';'' \<notin> set name" "dropWhile cookie_gap p \<noteq> []"
  obtains x rest where "cookie_pieces p = x # cookie_pieces rest"
    "cookie_loop name p found =
       (if piece_named name x
        then if found \<noteq> None then (2, found)
             else case piece_value name x of None \<Rightarrow> (3, found) | Some v \<Rightarrow> cookie_loop name rest (Some v)
        else cookie_loop name rest found)" "length rest < length p"
proof
  let ?q = "dropWhile cookie_gap p"
  let ?x = "takeWhile (\<lambda>c. c \<noteq> CHR '';'') ?q" and ?r = "dropWhile (\<lambda>c. c \<noteq> CHR '';'') ?q"
  let ?rest = "drop (strcspn ?q '';'') ?q"
  have q: "?q = ?x @ ?r" by simp
  have r: "?r = [] \<or> hd ?r = CHR '';''" using hd_dropWhile [of "\<lambda>c. c \<noteq> CHR '';''" ?q] by blast
  have x: "CHR '';'' \<notin> set ?x" using set_takeWhileD by fastforce
  show "cookie_pieces p = ?x # cookie_pieces ?rest" using assms(2) cookie_pieces.simps [of p] by (simp add: Let_def)
  show "length ?rest < length p" by (rule cookie_progress [OF assms(2)])
  have n: "strncmp_eq ?q name (length name) \<and> peek ?q (length name) = CHR ''='' \<longleftrightarrow> piece_named name ?x"
    using named_append [OF assms(1) r, of ?x] unfolding takeWhile_dropWhile_id .
  have v: "(let vlen = trim_end (drop (length name + 1) ?q) (strcspn (drop (length name + 1) ?q) [CHR '';'', CHR 0x0D, CHR 0x0A])
     in if vlen = 0 then None else Some (take vlen (drop (length name + 1) ?q))) = piece_value name ?x" if "piece_named name ?x"
    using value_append [OF that x r] unfolding takeWhile_dropWhile_id .
  show "cookie_loop name p found =
       (if piece_named name ?x
        then if found \<noteq> None then (2, found)
             else case piece_value name ?x of None \<Rightarrow> (3, found) | Some v \<Rightarrow> cookie_loop name ?rest (Some v)
        else cookie_loop name ?rest found)"
  proof (cases "piece_named name ?x")
    case True
    then show ?thesis unfolding cookie_loop.simps [of name p] v [OF True, symmetric] Let_def n using assms(2) by (simp del: dropWhile_eq_Nil_conv)
  next
    case False
    then show ?thesis unfolding cookie_loop.simps [of name p] Let_def n using assms(2) by (simp del: dropWhile_eq_Nil_conv)
  qed
qed

lemma cookie_end: "dropWhile cookie_gap p = [] \<Longrightarrow> cookie_pieces p = []"
  "dropWhile cookie_gap p = [] \<Longrightarrow> cookie_loop name p found = (if found \<noteq> None then 1 else 0, found)"
  by (simp_all add: cookie_pieces.simps [of p] cookie_loop.simps [of name p] del: dropWhile_eq_Nil_conv)

lemma cookie_loop_found:
  assumes "CHR '';'' \<notin> set name"
  shows "cookie_loop name p (Some f) = (if filter (piece_named name) (cookie_pieces p) = [] then (1, Some f) else (2, Some f))"
proof (induction p rule: measure_induct_rule [of length])
  case (less p)
  show ?case
  proof (cases "dropWhile cookie_gap p = []")
    case True
    then show ?thesis by (simp add: cookie_end)
  next
    case False
    obtain x rest where "cookie_pieces p = x # cookie_pieces rest" "length rest < length p"
      "cookie_loop name p (Some f) = (if piece_named name x then (2, Some f) else cookie_loop name rest (Some f))"
      using cookie_round [OF assms False, of "Some f"] by (metis option.distinct(1))
    then show ?thesis using less by simp
  qed
qed

lemma cookie_loop_none:
  assumes "CHR '';'' \<notin> set name"
  shows "cookie_loop name p None = (case filter (piece_named name) (cookie_pieces p) of
     [] \<Rightarrow> (0, None)
   | x # xs \<Rightarrow> (case piece_value name x of None \<Rightarrow> (3, None) | Some v \<Rightarrow> (if xs = [] then 1 else 2, Some v)))"
proof (induction p rule: measure_induct_rule [of length])
  case (less p)
  show ?case
  proof (cases "dropWhile cookie_gap p = []")
    case True
    then show ?thesis by (simp add: cookie_end)
  next
    case False
    obtain x rest where r: "cookie_pieces p = x # cookie_pieces rest" "length rest < length p"
      "cookie_loop name p None = (if piece_named name x
         then case piece_value name x of None \<Rightarrow> (3, None) | Some v \<Rightarrow> cookie_loop name rest (Some v)
         else cookie_loop name rest None)"
      using cookie_round [OF assms False, of None] by metis
    show ?thesis
    proof (cases "piece_named name x")
      case True
      then show ?thesis using r(1,3) cookie_loop_found [OF assms, of rest] by (cases "piece_value name x") simp_all
    next
      case False
      then show ?thesis using r less by simp
    qed
  qed
qed

text \<open>All pieces of the cookie lines; None when a cookie line has no value.\<close>

definition line_pieces :: "string \<Rightarrow> string list" where
  "line_pieces l = (case http_header_value_dup l of None \<Rightarrow> [] | Some raw \<Rightarrow> cookie_pieces raw)"

definition named_pieces :: "string \<Rightarrow> string list \<Rightarrow> string list" where
  "named_pieces name ls = filter (piece_named name) (concat (map line_pieces ls))"

definition cookie_spec :: "string \<Rightarrow> string list \<Rightarrow> string option" where
  "cookie_spec name ls =
     (if \<exists>l \<in> set ls. http_header_value_dup l = None then None else unique_value (piece_value name) (named_pieces name ls))"

abbreviation is_cookie :: "string \<Rightarrow> bool" where
  "is_cookie l \<equiv> http_line_is_header l (length l) ''Cookie''"

abbreviation cookie_fold :: "string \<Rightarrow> string list \<Rightarrow> string option \<Rightarrow> string option option" where
  "cookie_fold name \<equiv> fold_opt (\<lambda>l. cookie_step name l (length l))"

lemma cookie_step_other: "\<not> is_cookie l \<Longrightarrow> cookie_step name l (length l) found = Some found"
  by (simp add: cookie_step_def)

lemma cookie_fold_found:
  assumes "CHR '';'' \<notin> set name" "name \<noteq> []"
  shows "cookie_fold name ls (Some f) =
    (if (\<exists>l \<in> set (filter is_cookie ls). http_header_value_dup l = None) \<or> named_pieces name (filter is_cookie ls) \<noteq> []
     then None else Some (Some f))"
proof (induction ls)
  case (Cons l ls)
  show ?case
  proof (cases "is_cookie l")
    case True
    have "cookie_step name l (length l) (Some f) =
      (case http_header_value_dup l of None \<Rightarrow> None
       | Some raw \<Rightarrow> if filter (piece_named name) (cookie_pieces raw) = [] then Some (Some f) else None)"
      using True assms(2) by (simp add: cookie_step_def http_cookie_take_def cookie_loop_found [OF assms(1)] split: option.splits)
    then show ?thesis using Cons True by (cases "http_header_value_dup l") (auto simp: named_pieces_def line_pieces_def)
  next
    case False
    then show ?thesis using Cons cookie_step_other [OF False] by simp
  qed
qed (simp add: named_pieces_def)

lemma cookie_fold_none:
  assumes "CHR '';'' \<notin> set name" "name \<noteq> []"
  shows "(case cookie_fold name ls None of None \<Rightarrow> None | Some v \<Rightarrow> v) = cookie_spec name (filter is_cookie ls)"
proof (induction ls)
  case (Cons l ls)
  show ?case
  proof (cases "is_cookie l")
    case True
    show ?thesis
    proof (cases "http_header_value_dup l")
      case None
      then show ?thesis using True by (simp add: cookie_step_def cookie_spec_def)
    next
      case (Some raw)
      let ?xs = "filter (piece_named name) (cookie_pieces raw)"
      have st: "cookie_step name l (length l) None =
        (case ?xs of [] \<Rightarrow> Some None | [x] \<Rightarrow> (case piece_value name x of None \<Rightarrow> None | Some v \<Rightarrow> Some (Some v)) | _ \<Rightarrow> None)"
        using True assms(2) Some
        by (simp add: cookie_step_def http_cookie_take_def cookie_loop_none [OF assms(1)] split: option.splits list.splits)
      have n: "named_pieces name (l # filter is_cookie ls) = ?xs @ named_pieces name (filter is_cookie ls)"
        using Some by (simp add: named_pieces_def line_pieces_def)
      consider "?xs = []" | x where "?xs = [x]" | x y zs where "?xs = x # y # zs" by (metis list.exhaust)
      then show ?thesis
      proof cases
        case 1
        then show ?thesis using st n Cons True Some by (auto simp: cookie_spec_def)
      next
        case 2
        then show ?thesis using st n True Some
          by (cases "piece_value name x"; cases "named_pieces name (filter is_cookie ls)")
             (auto simp: cookie_spec_def unique_value_def cookie_fold_found [OF assms])
      next
        case 3
        then show ?thesis using st n True Some by (simp add: cookie_spec_def unique_value_def)
      qed
    qed
  next
    case False
    then show ?thesis using Cons cookie_step_other [OF False] by simp
  qed
qed (simp add: cookie_spec_def unique_value_def named_pieces_def)

lemma cookie_get_whole:
  assumes "headers_whole hr" "CHR '';'' \<notin> set name" "name \<noteq> []"
  shows "http_cookie_get hr name =
    Inr (case hr_headers hr of None \<Rightarrow> None | Some headers \<Rightarrow> cookie_spec name (field_lines ''Cookie'' headers))"
proof (cases "hr_headers hr")
  case (Some headers)
  then have "hr_headers_size hr = length headers" using assms(1) by (simp add: headers_whole_def)
  then show ?thesis
    using assms(3) Some header_walk_lines [OF cookie_step_local, of 0 headers name None] cookie_fold_none [OF assms(2,3)]
    by (simp add: http_cookie_get_def field_lines_def)
qed (simp add: http_cookie_get_def)

section \<open>A NUL in the header text\<close>

lemma header_walk_short:
  assumes "length headers + 1 < hsize" "line_local step f" "f [] None = Some None"
    and "i \<le> length headers" "\<forall>l \<in> set (text_lines (drop i headers)). f l None = Some None"
  shows "header_walk step headers hsize i None = Inl Read_outside"
  using assms(4,5)
proof (induction "length headers - i" arbitrary: i rule: less_induct)
  case less
  let ?s = "drop i headers"
  let ?l = "takeWhile (\<lambda>c. c \<noteq> CHR 0x0A) ?s"
  have l: "i + length ?l \<le> length headers" using length_takeWhile_le [of _ ?s] less.prems(1) by (simp add: le_diff_conv2 add.commute)
  have lines: "text_lines ?s = ?l # text_lines (drop (i + length ?l + 1) headers)" if "?s \<noteq> []"
    using that text_lines.simps [of ?s] unfolding dropWhile_drop tl_drop_Suc drop_drop by (simp add: add.commute)
  have "f ?l None = Some None"
  proof (cases "?s = []")
    case False
    then show ?thesis using lines less.prems(2) by simp
  qed (simp add: assms(3))
  then have st: "step ?s (strcspn ?s [CHR 0x0A]) None = Some None" using assms(2) by (simp add: line_local_def)
  have "i < hsize" "\<not> length headers < i" "\<not> hsize \<le> i + length ?l" using l less.prems(1) assms(1) by linarith+
  then have walk: "header_walk step headers hsize i None = header_walk step headers hsize (i + length ?l + 1) None"
    using header_walk.simps [of step headers hsize i None] st by (simp add: Let_def strcspn_newline)
  show ?case
  proof (cases "i + length ?l = length headers")
    case True
    have "header_walk step headers hsize (length headers + 1) None = Inl Read_outside"
      using assms(1) header_walk.simps [of step headers hsize "length headers + 1" None] by simp
    then show ?thesis using walk True by simp
  next
    case False
    then have n: "i + length ?l + 1 \<le> length headers" "?s \<noteq> []" using l by auto
    have "\<forall>l \<in> set (text_lines (drop (i + length ?l + 1) headers)). f l None = Some None"
      using less.prems(2) lines [OF n(2)] by simp
    then show ?thesis using walk less(1) [OF _ n(1)] n(1) by simp
  qed
qed

section \<open>Properties\<close>



text \<open>
  C40: when the header text of a request holds a NUL before its last byte, the copied text is shorter than
  its recorded size; looking up a field that is not in the text, whatever its name, reads past the end of
  the copy.
\<close>

theorem http_header_nul_reads_outside:
  assumes "hr_headers hr = Some headers" "length headers + 1 < hr_headers_size hr" "name \<noteq> []"
    and "field_lines name headers = []"
  shows "http_header_get hr name = Inl Read_outside"
proof -
  have "\<forall>l \<in> set (text_lines headers). header_step name l (length l) None = Some None"
    using assms(4) by (simp add: field_lines_def filter_empty_conv header_step_def)
  moreover have "header_step name [] (length []) None = Some None" by (simp add: header_step_def http_line_is_header_def)
  ultimately show ?thesis
    using header_walk_short [OF assms(2) header_step_local, of name 0] assms(1,3) by (simp add: http_header_get_def)
qed

theorem http_header_nul_reads_outside_witness:
  "http_header_get \<lparr>hr_headers = Some [], hr_headers_size = 2, hr_uri = None\<rparr> ''a'' = Inl Read_outside"
  using http_header_nul_reads_outside [of "\<lparr>hr_headers = Some [], hr_headers_size = 2, hr_uri = None\<rparr>" "[]" "''a''"]
  by (simp add: field_lines_def text_lines.simps)

end
