(* ===== verification/Http_Limit.thy ===== *)
theory Http_Limit
  imports Http_Header Jansson
begin

text \<open>
  Request rate limits of an entrypoint (\<open>src/src/common/http_limit.c\<close>): rules read from the
  configuration, the identity of a client under a rule, the generic cell rate algorithm, the table of
  clients with reuse of idle slots, and the check of a request against all rules of its path.

  Times are nanoseconds of a monotonic clock.  A \<open>uint64_t\<close> is a natural number and its additions wrap
  at \<open>2^64\<close> (\<open>u64\<close>); its subtractions stand behind the comparisons that keep them from wrapping.  The
  JSON library is the argument \<open>J\<close>.  Allocation and the locks do not fail and are left out; the rules of
  one limiter are only used under their locks.
\<close>

section \<open>Definitions\<close>

definition HTTP_LIMIT_KEY_MAX :: nat where "HTTP_LIMIT_KEY_MAX = 8"
definition HTTP_LIMIT_RULES_MAX :: nat where "HTTP_LIMIT_RULES_MAX = 32"
definition HTTP_LIMIT_SLOTS :: nat where "HTTP_LIMIT_SLOTS = 4096"
definition HTTP_LIMIT_VALUE_MAX :: nat where "HTTP_LIMIT_VALUE_MAX = 4096"
definition HTTP_LIMIT_PATH_MAX :: nat where "HTTP_LIMIT_PATH_MAX = 512"
definition HTTP_LIMIT_RPS_MAX :: int where "HTTP_LIMIT_RPS_MAX = 1000000000"
definition HTTP_LIMIT_IDLE_NS :: nat where "HTTP_LIMIT_IDLE_NS = 60000000000"
definition HTTP_LIMIT_TABLE_RETRY_SEC :: nat where "HTTP_LIMIT_TABLE_RETRY_SEC = 60"

definition u64 :: "nat \<Rightarrow> nat" where "u64 n = n mod 2 ^ 64"
definition u32 :: "nat \<Rightarrow> nat" where "u32 n = n mod 2 ^ 32"

datatype key_kind = HTTP_LIMIT_KEY_REMOTE_ADDR | HTTP_LIMIT_KEY_HEADER | HTTP_LIMIT_KEY_COOKIE

record http_limit_key =
  k_kind :: key_kind
  k_name :: string

record http_limit_slot =
  sl_id :: string
  sl_tat :: nat
  sl_last :: nat
  sl_have :: bool

text \<open>The slots in use are the first \<open>nslots\<close> of the table.\<close>

record http_limit_rule =
  r_path :: string
  r_rps :: nat
  r_interval :: nat
  r_tau :: nat
  r_keys :: "http_limit_key list"
  r_tat :: nat
  r_have :: bool
  r_slots :: "http_limit_slot list"

record http_limit =
  l_rules :: "http_limit_rule list"
  l_ref :: nat

record http_limit_plan =
  p_deny :: bool
  p_retry :: nat
  p_new_tat :: nat
  p_slot :: "nat option"
  p_insert :: nat
  p_reuse_at :: nat
  p_id :: "string option"

text \<open>The fields of a connection that the limits use.\<close>

record limit_carg =
  c_peer :: string
  c_limit :: "http_limit option"
  c_config_error :: bool

subsection \<open>Rules\<close>

definition name_char_ok :: "key_kind \<Rightarrow> char \<Rightarrow> bool" where
  "name_char_ok kind c =
     (let n = of_char c :: nat
      in if n \<le> 32 \<or> n \<ge> 127 then False
         else if kind = HTTP_LIMIT_KEY_COOKIE \<and> (c = CHR '';'' \<or> c = CHR ''='' \<or> c = CHR '','') then False
         else if kind = HTTP_LIMIT_KEY_HEADER \<and> c = CHR '':'' then False
         else True)"

definition http_limit_name_ok :: "key_kind \<Rightarrow> string \<Rightarrow> bool" where
  "http_limit_name_ok kind name = (if name = [] \<or> length name > 128 then False else list_all (name_char_ok kind) name)"

definition http_limit_path_ok :: "string \<Rightarrow> bool" where
  "http_limit_path_ok path =
     (if peek path 0 \<noteq> CHR ''/'' then False
      else if length path > HTTP_LIMIT_PATH_MAX then False
      else if set path \<inter> {CHR ''?'', CHR '' '', CHR 0x09, CHR 0x0D, CHR 0x0A} \<noteq> {} then False
      else True)"

definition http_limit_parse_key :: "string option \<Rightarrow> http_limit_key option" where
  "http_limit_parse_key spec =
     (case spec of
        None \<Rightarrow> None
      | Some s \<Rightarrow>
          if s = ''remote_addr'' then Some \<lparr>k_kind = HTTP_LIMIT_KEY_REMOTE_ADDR, k_name = []\<rparr>
          else if strncmp_eq s ''header:'' 7
          then if http_limit_name_ok HTTP_LIMIT_KEY_HEADER (drop 7 s)
               then Some \<lparr>k_kind = HTTP_LIMIT_KEY_HEADER, k_name = drop 7 s\<rparr> else None
          else if strncmp_eq s ''cookie:'' 7
          then if http_limit_name_ok HTTP_LIMIT_KEY_COOKIE (drop 7 s)
               then Some \<lparr>k_kind = HTTP_LIMIT_KEY_COOKIE, k_name = drop 7 s\<rparr> else None
          else None)"

fun parse_keys :: "'j json_ops \<Rightarrow> 'j list \<Rightarrow> http_limit_key list option" where
  "parse_keys J [] = Some []"
| "parse_keys J (j # js) =
     (case http_limit_parse_key (json_string_value J j) of
        None \<Rightarrow> None
      | Some k \<Rightarrow> map_option (Cons k) (parse_keys J js))"

definition rule_keys :: "'j json_ops \<Rightarrow> 'j \<Rightarrow> http_limit_key list option" where
  "rule_keys J obj =
     (case json_object_get J obj ''key'' of
        None \<Rightarrow> Some []
      | Some jkeys \<Rightarrow> (case json_array_elems J jkeys of
                          None \<Rightarrow> None
                        | Some js \<Rightarrow> if length js > HTTP_LIMIT_KEY_MAX then None else parse_keys J js))"

definition http_limit_rule_fill :: "'j json_ops \<Rightarrow> 'j \<Rightarrow> http_limit_rule option" where
  "http_limit_rule_fill J obj =
     (if \<not> json_is_object J obj then None
      else case (Option.bind (json_object_get J obj ''path'') (json_string_value J),
                 Option.bind (json_object_get J obj ''rps'') (json_integer_value J)) of
             (Some path, Some rps) \<Rightarrow>
               if \<not> http_limit_path_ok path then None
               else if rps < 1 \<or> rps > HTTP_LIMIT_RPS_MAX then None
               else let interval_ns = 1000000000 div nat rps;
                        tau_ns = u64 (interval_ns * (nat rps - 1))
                    in if interval_ns = 0 then None
                       else (case rule_keys J obj of
                               None \<Rightarrow> None
                             | Some keys \<Rightarrow> Some \<lparr>r_path = path, r_rps = nat rps, r_interval = interval_ns, r_tau = tau_ns,
                                                    r_keys = keys, r_tat = 0, r_have = False, r_slots = []\<rparr>)
           | _ \<Rightarrow> None)"

text \<open>The rules accepted so far and whether an entry was rejected.\<close>

fun fill_loop :: "'j json_ops \<Rightarrow> 'j list \<Rightarrow> http_limit_rule list \<Rightarrow> bool \<Rightarrow> http_limit_rule list \<times> bool" where
  "fill_loop J [] rules rejected = (rules, rejected)"
| "fill_loop J (j # js) rules rejected =
     (if length rules \<ge> HTTP_LIMIT_RULES_MAX then (rules, True)
      else case http_limit_rule_fill J j of
             None \<Rightarrow> fill_loop J js rules True
           | Some r \<Rightarrow> fill_loop J js (rules @ [r]) rejected)"

definition http_limit_incref :: "http_limit \<Rightarrow> http_limit" where
  "http_limit_incref lim = lim\<lparr>l_ref := u32 (l_ref lim + 1)\<rparr>"

text \<open>None: the last reference is gone and the limiter is destroyed.\<close>

definition http_limit_decref :: "http_limit \<Rightarrow> http_limit option" where
  "http_limit_decref lim =
     (let ref = u32 (l_ref lim + (2 ^ 32 - 1)) in if ref = 0 then None else Some (lim\<lparr>l_ref := ref\<rparr>))"

text \<open>
  The result code and the connection; the last component is what is left of the limiter that was replaced,
  which other connections may still hold.
\<close>

definition http_limit_apply_json :: "'j json_ops \<Rightarrow> limit_carg \<Rightarrow> 'j option \<Rightarrow> int \<times> limit_carg \<times> http_limit option" where
  "http_limit_apply_json J carg jlimit =
     (case jlimit of
        None \<Rightarrow> (0, carg, None)
      | Some j \<Rightarrow>
          (case json_array_elems J j of
             None \<Rightarrow> (- 1, carg\<lparr>c_config_error := True\<rparr>, None)
           | Some js \<Rightarrow>
               (case fill_loop J js [] False of (rules, rejected) \<Rightarrow>
                  if rejected \<or> rules = []
                  then (0, if rejected then carg\<lparr>c_config_error := True\<rparr> else carg, None)
                  else (int (length rules), carg\<lparr>c_limit := Some \<lparr>l_rules = rules, l_ref = 1\<rparr>\<rparr>,
                        Option.bind (c_limit carg) http_limit_decref))))"

subsection \<open>The identity of a client\<close>

definition http_limit_path_match :: "string \<Rightarrow> string \<Rightarrow> bool" where
  "http_limit_path_match rule_path uri =
     (let n = (if CHR ''?'' \<in> set uri then strcspn uri ''?'' else length uri)
      in if n \<noteq> length rule_path then False else take n uri = take n rule_path)"

definition http_limit_id_add :: "string \<Rightarrow> string \<Rightarrow> string" where
  "http_limit_id_add buf s = buf @ print_dec (length s) @ '':'' @ s"

text \<open>None: the label does not fit into the 160 bytes of its buffer.\<close>

definition http_limit_key_label :: "http_limit_key \<Rightarrow> string option" where
  "http_limit_key_label key =
     (let out = (case k_kind key of
                   HTTP_LIMIT_KEY_REMOTE_ADDR \<Rightarrow> ''remote_addr''
                 | HTTP_LIMIT_KEY_HEADER \<Rightarrow> ''header:'' @ k_name key
                 | HTTP_LIMIT_KEY_COOKIE \<Rightarrow> ''cookie:'' @ k_name key)
      in if length out \<ge> 160 then None else Some out)"

definition http_limit_value :: "limit_carg \<Rightarrow> http_reply_data \<Rightarrow> http_limit_key \<Rightarrow> header_error + string" where
  "http_limit_value carg http key =
     (case k_kind key of
        HTTP_LIMIT_KEY_REMOTE_ADDR \<Rightarrow> Inr (c_peer carg)
      | kind \<Rightarrow>
          (case (if kind = HTTP_LIMIT_KEY_HEADER then http_header_get http (k_name key) else http_cookie_get http (k_name key)) of
             Inl e \<Rightarrow> Inl e
           | Inr None \<Rightarrow> Inr []
           | Inr (Some v) \<Rightarrow> if v = [] \<or> length v > HTTP_LIMIT_VALUE_MAX then Inr [] else Inr v))"

text \<open>\<^term>\<open>Inr None\<close>: a label that does not fit, the request is refused.\<close>

fun id_loop :: "limit_carg \<Rightarrow> http_reply_data \<Rightarrow> http_limit_key list \<Rightarrow> string \<Rightarrow> header_error + string option" where
  "id_loop carg http [] ident = Inr (Some ident)"
| "id_loop carg http (key # keys) ident =
     (case http_limit_value carg http key of
        Inl e \<Rightarrow> Inl e
      | Inr value \<Rightarrow>
          (case http_limit_key_label key of
             None \<Rightarrow> Inr None
           | Some label \<Rightarrow> id_loop carg http keys (http_limit_id_add (http_limit_id_add ident label) value)))"

text \<open>The inner option is the pointer to the identity: NULL for a rule without keys.\<close>

definition http_limit_build_id :: "limit_carg \<Rightarrow> http_reply_data \<Rightarrow> http_limit_rule \<Rightarrow> header_error + string option option" where
  "http_limit_build_id carg http rule =
     (if r_keys rule = [] then Inr (Some None)
      else case id_loop carg http (r_keys rule) [] of
             Inl e \<Rightarrow> Inl e
           | Inr None \<Rightarrow> Inr None
           | Inr (Some ident) \<Rightarrow> Inr (Some (Some ident)))"

subsection \<open>The check\<close>

text \<open>\<open>Inl\<close>: the seconds to wait; \<open>Inr\<close>: the new theoretical arrival time.\<close>

definition http_limit_gcra_plan :: "nat \<Rightarrow> bool \<Rightarrow> nat \<Rightarrow> nat \<Rightarrow> nat \<Rightarrow> nat + nat" where
  "http_limit_gcra_plan tat have_tat now interval tau =
     (let base = (if \<not> have_tat \<or> tat < now then now else tat)
      in if base - now > tau
         then let wait = base - now - tau;
                  sec = u64 (wait + 999999999) div 1000000000
              in Inl (if sec < 1 then 1 else sec)
         else Inr (u64 (base + interval)))"

definition http_limit_touch :: "http_limit_slot \<Rightarrow> nat \<Rightarrow> http_limit_slot" where
  "http_limit_touch slot now = (if now \<ge> sl_last slot then slot\<lparr>sl_last := now\<rparr> else slot)"

definition first_index :: "('a \<Rightarrow> bool) \<Rightarrow> 'a list \<Rightarrow> nat option" where
  "first_index P xs = (case filter (\<lambda>i. P (xs ! i)) [0..<length xs] of [] \<Rightarrow> None | i # _ \<Rightarrow> Some i)"

definition gcra_into :: "nat + nat \<Rightarrow> http_limit_plan \<Rightarrow> http_limit_plan" where
  "gcra_into g plan = (case g of Inl retry \<Rightarrow> plan\<lparr>p_deny := True, p_retry := retry\<rparr> | Inr tat \<Rightarrow> plan\<lparr>p_new_tat := tat\<rparr>)"

definition slot_idle :: "nat \<Rightarrow> http_limit_slot \<Rightarrow> bool" where
  "slot_idle now slot \<longleftrightarrow> sl_have slot \<and> now \<ge> sl_last slot \<and> now - sl_last slot \<ge> HTTP_LIMIT_IDLE_NS"

definition http_limit_rule_plan :: "http_limit_rule \<Rightarrow> string option \<Rightarrow> nat \<Rightarrow> http_limit_rule \<times> http_limit_plan" where
  "http_limit_rule_plan rule ident now =
     (let plan = \<lparr>p_deny = False, p_retry = 1, p_new_tat = 0, p_slot = None, p_insert = 0, p_reuse_at = 0, p_id = ident\<rparr>;
          gcra = (\<lambda>tat have_tat. http_limit_gcra_plan tat have_tat now (r_interval rule) (r_tau rule))
      in if r_keys rule = [] then (rule, gcra_into (gcra (r_tat rule) (r_have rule)) plan)
         else case ident of
           None \<Rightarrow> (rule, plan\<lparr>p_deny := True\<rparr>)
         | Some key \<Rightarrow>
             (case first_index (\<lambda>slot. sl_id slot = key) (r_slots rule) of
                Some i \<Rightarrow>
                  let slot = http_limit_touch (r_slots rule ! i) now
                  in (rule\<lparr>r_slots := (r_slots rule)[i := slot]\<rparr>,
                      gcra_into (gcra (sl_tat slot) (sl_have slot)) (plan\<lparr>p_slot := Some i\<rparr>))
              | None \<Rightarrow>
                  if length (r_slots rule) < HTTP_LIMIT_SLOTS
                  then (rule, gcra_into (gcra 0 False) (plan\<lparr>p_insert := 1\<rparr>))
                  else (case first_index (slot_idle now) (r_slots rule) of
                          Some i \<Rightarrow> (rule, gcra_into (gcra 0 False) (plan\<lparr>p_insert := 2, p_reuse_at := i\<rparr>))
                        | None \<Rightarrow> (rule, plan\<lparr>p_deny := True, p_retry := HTTP_LIMIT_TABLE_RETRY_SEC\<rparr>))))"

definition http_limit_rule_commit :: "http_limit_rule \<Rightarrow> http_limit_plan \<Rightarrow> nat \<Rightarrow> http_limit_rule" where
  "http_limit_rule_commit rule plan now =
     (let fresh = \<lparr>sl_id = the (p_id plan), sl_tat = p_new_tat plan, sl_last = now, sl_have = True\<rparr>
      in if r_keys rule = [] then rule\<lparr>r_tat := p_new_tat plan, r_have := True\<rparr>
         else case p_slot plan of
           Some i \<Rightarrow> rule\<lparr>r_slots := (r_slots rule)[i := http_limit_touch ((r_slots rule ! i)\<lparr>sl_tat := p_new_tat plan, sl_have := True\<rparr>) now]\<rparr>
         | None \<Rightarrow>
             if p_insert plan = 1 then rule\<lparr>r_slots := r_slots rule @ [fresh]\<rparr>
             else if p_insert plan = 2 then rule\<lparr>r_slots := (r_slots rule)[p_reuse_at plan := fresh]\<rparr>
             else rule)"

text \<open>The loops of the check over the indexes of the matching rules.\<close>

fun build_ids :: "limit_carg \<Rightarrow> http_reply_data \<Rightarrow> http_limit_rule list \<Rightarrow> nat list \<Rightarrow> header_error + string option list option" where
  "build_ids carg http rules [] = Inr (Some [])"
| "build_ids carg http rules (m # ms) =
     (case http_limit_build_id carg http (rules ! m) of
        Inl e \<Rightarrow> Inl e
      | Inr None \<Rightarrow> Inr None
      | Inr (Some ident) \<Rightarrow> (case build_ids carg http rules ms of Inl e \<Rightarrow> Inl e | Inr ids \<Rightarrow> Inr (map_option (Cons ident) ids)))"

fun plan_loop :: "http_limit_rule list \<Rightarrow> (nat \<times> string option) list \<Rightarrow> nat \<Rightarrow> http_limit_rule list \<times> http_limit_plan list" where
  "plan_loop rules [] now = (rules, [])"
| "plan_loop rules ((m, ident) # ms) now =
     (case http_limit_rule_plan (rules ! m) ident now of (rule, plan) \<Rightarrow>
        (case plan_loop (rules[m := rule]) ms now of (rules', plans) \<Rightarrow> (rules', plan # plans)))"

fun commit_loop :: "http_limit_rule list \<Rightarrow> (nat \<times> http_limit_plan) list \<Rightarrow> nat \<Rightarrow> http_limit_rule list" where
  "commit_loop rules [] now = rules"
| "commit_loop rules ((m, plan) # ms) now = commit_loop (rules[m := http_limit_rule_commit (rules ! m) plan now]) ms now"

definition matching :: "http_limit_rule list \<Rightarrow> string \<Rightarrow> nat list" where
  "matching rules uri = take HTTP_LIMIT_RULES_MAX (filter (\<lambda>i. http_limit_path_match (r_path (rules ! i)) uri) [0..<length rules])"

text \<open>Whether the request is allowed, the seconds to wait if not, and the connection after the check.\<close>

definition http_limit_check :: "limit_carg \<Rightarrow> http_reply_data option \<Rightarrow> nat \<Rightarrow> header_error + bool \<times> nat \<times> limit_carg" where
  "http_limit_check carg http now_ns =
     (case (c_limit carg, http) of
        (Some lim, Some h) \<Rightarrow>
          (case hr_uri h of
             None \<Rightarrow> Inr (True, 1, carg)
           | Some uri \<Rightarrow>
               let match = matching (l_rules lim) uri
               in if match = [] then Inr (True, 1, carg)
                  else (case build_ids carg h (l_rules lim) match of
                          Inl e \<Rightarrow> Inl e
                        | Inr None \<Rightarrow> Inr (False, 1, carg)
                        | Inr (Some ids) \<Rightarrow>
                            (case plan_loop (l_rules lim) (zip match ids) now_ns of (rules, plans) \<Rightarrow>
                               (case filter p_deny plans of
                                  plan # _ \<Rightarrow> Inr (False, if p_retry plan \<noteq> 0 then p_retry plan else 1,
                                                   carg\<lparr>c_limit := Some (lim\<lparr>l_rules := rules\<rparr>)\<rparr>)
                                | [] \<Rightarrow> Inr (True, 1, carg\<lparr>c_limit := Some (lim\<lparr>l_rules := commit_loop rules (zip match plans) now_ns\<rparr>)\<rparr>)))))
      | _ \<Rightarrow> Inr (True, 1, carg))"

section \<open>The table of clients as a map\<close>

lemma first_index_Some:
  assumes "first_index P xs = Some i"
  shows "i < length xs" "P (xs ! i)"
proof -
  obtain js where "filter (\<lambda>i. P (xs ! i)) [0..<length xs] = i # js"
    using assms by (auto simp: first_index_def split: list.splits)
  then have "i \<in> set (filter (\<lambda>i. P (xs ! i)) [0..<length xs])" by (metis list.set_intros(1))
  then show "i < length xs" "P (xs ! i)" by auto
qed

lemma first_index_None: "first_index P xs = None \<longleftrightarrow> (\<forall>x \<in> set xs. \<not> P x)"
proof -
  have "first_index P xs = None \<longleftrightarrow> filter (\<lambda>i. P (xs ! i)) [0..<length xs] = []"
    by (simp add: first_index_def split: list.splits)
  then show ?thesis unfolding filter_empty_conv all_set_conv_all_nth by simp
qed

lemma map_of_mid:
  assumes "k \<notin> fst ` set a" "k \<notin> fst ` set b" "q \<notin> fst ` set a" "q \<notin> fst ` set b"
  shows "map_of (a @ (k, v) # b) = (map_of (a @ (q, w) # b))(q := None, k \<mapsto> v)"
proof
  fix p
  have "map_of a k = None" "map_of b k = None" "map_of a q = None" "map_of b q = None"
    using assms by (simp_all add: map_of_eq_None_iff)
  then show "map_of (a @ (k, v) # b) p = ((map_of (a @ (q, w) # b))(q := None, k \<mapsto> v)) p"
    by (cases "map_of a p") (auto simp: map_add_def)
qed

lemma map_of_list_update:
  assumes "distinct (map fst xs)" "i < length xs" "k = fst (xs ! i) \<or> k \<notin> fst ` set xs"
  shows "map_of (xs[i := (k, v)]) = (map_of xs)(fst (xs ! i) := None, k \<mapsto> v)"
proof -
  let ?a = "take i xs" and ?b = "drop (Suc i) xs"
  obtain q w where q: "xs ! i = (q, w)" by fastforce
  have x: "xs = ?a @ (q, w) # ?b" using id_take_nth_drop [OF assms(2)] q by simp
  have "distinct (map fst (?a @ (q, w) # ?b))" using assms(1) x by metis
  then have d: "q \<notin> fst ` set ?a" "q \<notin> fst ` set ?b" unfolding map_append distinct_append by auto
  have "set ?a \<subseteq> set xs" "set ?b \<subseteq> set xs" by (rule set_take_subset, rule set_drop_subset)
  then have k: "k \<notin> fst ` set ?a" "k \<notin> fst ` set ?b" using assms(3) d q by auto
  have "map_of (xs[i := (k, v)]) = map_of (?a @ (k, v) # ?b)" by (simp add: upd_conv_take_nth_drop [OF assms(2)])
  also have "\<dots> = (map_of (?a @ (q, w) # ?b))(q := None, k \<mapsto> v)" by (rule map_of_mid [OF k d])
  finally show ?thesis using x q by simp
qed

definition slot_entry :: "http_limit_slot \<Rightarrow> string \<times> nat" where
  "slot_entry s = (sl_id s, sl_tat s)"

definition slot_map :: "http_limit_slot list \<Rightarrow> string \<rightharpoonup> nat" where
  "slot_map slots = map_of (map slot_entry slots)"

lemma slot_map_nth: "distinct (map sl_id slots) \<Longrightarrow> i < length slots \<Longrightarrow> slot_map slots (sl_id (slots ! i)) = Some (sl_tat (slots ! i))"
  unfolding slot_map_def by (rule map_of_is_SomeI) (auto simp: slot_entry_def comp_def)

lemma slot_map_update:
  assumes "distinct (map sl_id slots)" "i < length slots" "sl_id s = sl_id (slots ! i) \<or> sl_id s \<notin> sl_id ` set slots"
  shows "slot_map (slots[i := s]) = (slot_map slots)(sl_id (slots ! i) := None, sl_id s \<mapsto> sl_tat s)"
  using map_of_list_update [of "map slot_entry slots" i "sl_id s" "sl_tat s"] assms
  by (simp add: slot_map_def slot_entry_def comp_def map_update image_image)

lemma slot_map_None: "sl_id ` set slots \<inter> {k} = {} \<longleftrightarrow> slot_map slots k = None"
  by (auto simp: slot_map_def map_of_eq_None_iff slot_entry_def image_image)

lemma slot_map_append: "k \<notin> sl_id ` set slots \<Longrightarrow> sl_id s = k \<Longrightarrow> slot_map (slots @ [s]) = (slot_map slots)(k \<mapsto> sl_tat s)"
  using slot_map_None [of slots k] by (auto simp: slot_map_def map_of_append map_add_def slot_entry_def fun_eq_iff split: option.splits)

text \<open>The arrival time a rule keeps for a client; the client of a rule without keys is None.\<close>

definition stored :: "http_limit_rule \<Rightarrow> string option \<Rightarrow> nat option" where
  "stored r k =
     (if r_keys r = [] then if k = None \<and> r_have r then Some (r_tat r) else None
      else case k of None \<Rightarrow> None | Some key \<Rightarrow> slot_map (r_slots r) key)"

definition base_of :: "http_limit_rule \<Rightarrow> string option \<Rightarrow> nat \<Rightarrow> nat" where
  "base_of r k now = max now (case stored r k of Some t \<Rightarrow> t | None \<Rightarrow> 0)"

text \<open>The parameters of a rule, as the configuration sets them.\<close>

definition rule_shape :: "http_limit_rule \<Rightarrow> bool" where
  "rule_shape r \<longleftrightarrow> 0 < r_interval r \<and> r_tau r + r_interval r \<le> 1000000000 \<and> (\<forall>k \<in> set (r_keys r). length (k_name k) \<le> 128)"

definition slot_ok :: "nat \<Rightarrow> http_limit_rule \<Rightarrow> http_limit_slot \<Rightarrow> bool" where
  "slot_ok t r s \<longleftrightarrow> sl_have s \<and> sl_last s \<le> t \<and> sl_tat s \<le> sl_last s + r_tau r + r_interval r"

text \<open>A rule is consistent at time \<open>t\<close>, the time of the latest request.\<close>

definition rule_ok :: "nat \<Rightarrow> http_limit_rule \<Rightarrow> bool" where
  "rule_ok t r \<longleftrightarrow> rule_shape r \<and> (r_have r \<longrightarrow> r_tat r \<le> t + r_tau r + r_interval r) \<and>
     distinct (map sl_id (r_slots r)) \<and> length (r_slots r) \<le> HTTP_LIMIT_SLOTS \<and> (\<forall>s \<in> set (r_slots r). slot_ok t r s)"

lemma rule_ok_mono: "rule_ok t r \<Longrightarrow> t \<le> now \<Longrightarrow> rule_ok now r"
  by (auto simp: rule_ok_def slot_ok_def)

lemma stored_le:
  assumes "rule_ok t r" "stored r k = Some u"
  shows "u \<le> t + 1000000000"
proof (cases "r_keys r = []")
  case True
  then show ?thesis using assms by (auto simp: stored_def rule_ok_def rule_shape_def split: if_splits)
next
  case False
  then obtain key where "slot_map (r_slots r) key = Some u" using assms(2) by (auto simp: stored_def split: option.splits)
  then obtain s where "s \<in> set (r_slots r)" "sl_tat s = u" by (auto simp: slot_map_def slot_entry_def dest!: map_of_SomeD)
  then show ?thesis using assms(1) by (fastforce simp: rule_ok_def slot_ok_def rule_shape_def)
qed

lemma gcra_plan_eq:
  assumes "case_option 0 (\<lambda>t. t) st \<le> 2 ^ 63 + 2 ^ 62" "now < 2 ^ 63" "interval \<le> 1000000000"
    and "have_tat = (st \<noteq> None)" "st \<noteq> None \<longrightarrow> tat = the st"
  shows "http_limit_gcra_plan tat have_tat now interval tau =
    (let base = max now (case st of Some t \<Rightarrow> t | None \<Rightarrow> 0)
     in if base \<le> now + tau then Inr (base + interval) else Inl ((base - now - tau + 999999999) div 1000000000))"
proof -
  define base where "base = max now (case st of Some t \<Rightarrow> t | None \<Rightarrow> 0)"
  have b: "base = (if \<not> have_tat \<or> tat < now then now else tat)" using assms(4,5) by (auto simp: base_def max_def split: option.splits)
  have "base \<le> 2 ^ 63 + 2 ^ 62" using assms(1,2) by (auto simp: base_def split: option.splits)
  then have "u64 (base + interval) = base + interval" "u64 (base - now - tau + 999999999) = base - now - tau + 999999999"
    using assms(3) by (auto simp: u64_def)
  moreover have "now \<le> base" by (simp add: base_def)
  moreover have "(base - now - tau + 999999999) div 1000000000 \<ge> 1" if "\<not> base \<le> now + tau" using that by linarith
  ultimately show ?thesis
    unfolding http_limit_gcra_plan_def Let_def b [symmetric] base_def [symmetric] by auto
qed

section \<open>One rule\<close>

definition verdict :: "http_limit_rule \<Rightarrow> string option \<Rightarrow> nat \<Rightarrow> nat + nat" where
  "verdict r k now =
     (let base = base_of r k now
      in if base \<le> now + r_tau r then Inr (base + r_interval r) else Inl ((base - now - r_tau r + 999999999) div 1000000000))"

definition same_rule :: "http_limit_rule \<Rightarrow> http_limit_rule \<Rightarrow> bool" where
  "same_rule r r' \<longleftrightarrow> r_path r = r_path r' \<and> r_interval r = r_interval r' \<and> r_tau r = r_tau r' \<and> r_keys r = r_keys r'"

lemma same_rule_trans: "same_rule a b \<Longrightarrow> same_rule b c \<Longrightarrow> same_rule a c"
  by (simp add: same_rule_def)

lemma gcra_stored:
  assumes "rule_ok t r" "t \<le> now" "now < 2 ^ 63" "have_tat = (stored r k \<noteq> None)" "\<And>u. stored r k = Some u \<Longrightarrow> tat = u"
  shows "http_limit_gcra_plan tat have_tat now (r_interval r) (r_tau r) = verdict r k now"
  unfolding verdict_def base_of_def
proof (rule gcra_plan_eq [OF _ assms(3) _ assms(4)])
  show "case_option 0 (\<lambda>t. t) (stored r k) \<le> 2 ^ 63 + 2 ^ 62"
    using stored_le [OF assms(1), of k] assms(2,3) by (fastforce split: option.splits)
  show "r_interval r \<le> 1000000000" using assms(1) by (simp add: rule_ok_def rule_shape_def)
  show "stored r k \<noteq> None \<longrightarrow> tat = the (stored r k)" using assms(5) by auto
qed

abbreviation plan0 :: "string option \<Rightarrow> http_limit_plan" where
  "plan0 k \<equiv> \<lparr>p_deny = False, p_retry = 1, p_new_tat = 0, p_slot = None, p_insert = 0, p_reuse_at = 0, p_id = k\<rparr>"

text \<open>The five ways a rule plans: without keys, a known client, a new one, in an idle slot, refused.\<close>

lemma plan_keyless:
  assumes "rule_ok t r" "t \<le> now" "now < 2 ^ 63" "r_keys r = []"
  shows "http_limit_rule_plan r None now = (r, gcra_into (verdict r None now) (plan0 None))"
proof -
  have "http_limit_gcra_plan (r_tat r) (r_have r) now (r_interval r) (r_tau r) = verdict r None now"
    by (rule gcra_stored [OF assms(1-3)]) (use assms(4) in \<open>simp_all add: stored_def split: if_splits\<close>)
  then show ?thesis using assms(4) by (simp add: http_limit_rule_plan_def Let_def)
qed

lemma touch_id [simp]: "sl_id (http_limit_touch s now) = sl_id s" "sl_tat (http_limit_touch s now) = sl_tat s"
  "sl_have (http_limit_touch s now) = sl_have s"
  by (simp_all add: http_limit_touch_def)

lemma plan_known:
  assumes "rule_ok t r" "t \<le> now" "now < 2 ^ 63" "r_keys r \<noteq> []" "first_index (\<lambda>s. sl_id s = key) (r_slots r) = Some i"
  shows "http_limit_rule_plan r (Some key) now =
    (r\<lparr>r_slots := (r_slots r)[i := http_limit_touch (r_slots r ! i) now]\<rparr>,
     gcra_into (verdict r (Some key) now) ((plan0 (Some key))\<lparr>p_slot := Some i\<rparr>))"
proof -
  note i = first_index_Some [OF assms(5)]
  have "stored r (Some key) = Some (sl_tat (r_slots r ! i))"
    using slot_map_nth [of "r_slots r" i] i assms(1,4) by (simp add: stored_def rule_ok_def)
  moreover have "sl_have (r_slots r ! i)" using assms(1) i(1) by (simp add: rule_ok_def slot_ok_def)
  ultimately have "http_limit_gcra_plan (sl_tat (r_slots r ! i)) (sl_have (r_slots r ! i)) now (r_interval r) (r_tau r) = verdict r (Some key) now"
    by (intro gcra_stored [OF assms(1-3)]) simp_all
  then show ?thesis using assms(4,5) by (simp add: http_limit_rule_plan_def Let_def)
qed

lemma unknown_stored:
  assumes "r_keys r \<noteq> []" "first_index (\<lambda>s. sl_id s = key) (r_slots r) = None"
  shows "key \<notin> sl_id ` set (r_slots r)" "stored r (Some key) = None" "verdict r (Some key) now = Inr (now + r_interval r)"
proof -
  show k: "key \<notin> sl_id ` set (r_slots r)" using assms(2) by (auto simp: first_index_None)
  then show "stored r (Some key) = None" using assms(1) slot_map_None [of "r_slots r" key] by (simp add: stored_def)
  then show "verdict r (Some key) now = Inr (now + r_interval r)" by (simp add: verdict_def base_of_def)
qed

lemma new_verdict:
  assumes "rule_ok t r" "t \<le> now" "now < 2 ^ 63" "r_keys r \<noteq> []" "first_index (\<lambda>s. sl_id s = key) (r_slots r) = None"
  shows "http_limit_gcra_plan 0 False now (r_interval r) (r_tau r) = Inr (now + r_interval r)"
  unfolding unknown_stored(3) [OF assms(4,5), symmetric]
  by (rule gcra_stored [OF assms(1-3)]) (simp_all add: unknown_stored(2) [OF assms(4,5)])

lemma plan_new:
  assumes "rule_ok t r" "t \<le> now" "now < 2 ^ 63" "r_keys r \<noteq> []" "first_index (\<lambda>s. sl_id s = key) (r_slots r) = None"
    and "length (r_slots r) < HTTP_LIMIT_SLOTS"
  shows "http_limit_rule_plan r (Some key) now = (r, (plan0 (Some key))\<lparr>p_new_tat := now + r_interval r, p_insert := 1\<rparr>)"
  using new_verdict [OF assms(1-5)] assms(4-6) by (simp add: http_limit_rule_plan_def Let_def gcra_into_def)

lemma plan_reuse:
  assumes "rule_ok t r" "t \<le> now" "now < 2 ^ 63" "r_keys r \<noteq> []" "first_index (\<lambda>s. sl_id s = key) (r_slots r) = None"
    and "\<not> length (r_slots r) < HTTP_LIMIT_SLOTS" "first_index (slot_idle now) (r_slots r) = Some i"
  shows "http_limit_rule_plan r (Some key) now = (r, (plan0 (Some key))\<lparr>p_new_tat := now + r_interval r, p_insert := 2, p_reuse_at := i\<rparr>)"
  using new_verdict [OF assms(1-5)] assms(4-7) by (simp add: http_limit_rule_plan_def Let_def gcra_into_def)

lemma plan_full:
  assumes "r_keys r \<noteq> []" "first_index (\<lambda>s. sl_id s = key) (r_slots r) = None"
    and "\<not> length (r_slots r) < HTTP_LIMIT_SLOTS" "first_index (slot_idle now) (r_slots r) = None"
  shows "http_limit_rule_plan r (Some key) now = (r, (plan0 (Some key))\<lparr>p_deny := True, p_retry := HTTP_LIMIT_TABLE_RETRY_SEC\<rparr>)"
  using assms by (simp add: http_limit_rule_plan_def Let_def)

lemma plan_exhaust [consumes 1]:
  assumes "(r_keys r = []) = (k = None)"
  obtains (keyless) "r_keys r = []" "k = None"
  | (known) key i where "r_keys r \<noteq> []" "k = Some key" "first_index (\<lambda>s. sl_id s = key) (r_slots r) = Some i"
  | (new) key where "r_keys r \<noteq> []" "k = Some key" "first_index (\<lambda>s. sl_id s = key) (r_slots r) = None" "length (r_slots r) < HTTP_LIMIT_SLOTS"
  | (reuse) key i where "r_keys r \<noteq> []" "k = Some key" "first_index (\<lambda>s. sl_id s = key) (r_slots r) = None"
      "\<not> length (r_slots r) < HTTP_LIMIT_SLOTS" "first_index (slot_idle now) (r_slots r) = Some i"
  | (full) key where "r_keys r \<noteq> []" "k = Some key" "first_index (\<lambda>s. sl_id s = key) (r_slots r) = None"
      "\<not> length (r_slots r) < HTTP_LIMIT_SLOTS" "first_index (slot_idle now) (r_slots r) = None"
  using assms by (metis not_None_eq)

lemma stored_cong:
  "r_keys r1 = r_keys r \<Longrightarrow> r_have r1 = r_have r \<Longrightarrow> r_tat r1 = r_tat r \<Longrightarrow> slot_map (r_slots r1) = slot_map (r_slots r) \<Longrightarrow>
   stored r1 = stored r"
  by (rule ext) (simp add: stored_def split: option.splits)

lemma rule_ok_slots:
  "rule_ok now r \<Longrightarrow> distinct (map sl_id ss) \<Longrightarrow> length ss \<le> HTTP_LIMIT_SLOTS \<Longrightarrow> \<forall>s \<in> set ss. slot_ok now r s \<Longrightarrow>
   rule_ok now (r\<lparr>r_slots := ss\<rparr>)"
  by (simp add: rule_ok_def rule_shape_def slot_ok_def)

text \<open>What planning leaves alone: everything but the time a known client was seen.\<close>

lemma plan_keeps:
  assumes "rule_ok t r" "t \<le> now" "now < 2 ^ 63" "(r_keys r = []) = (k = None)" "http_limit_rule_plan r k now = (r1, plan)"
  shows "rule_ok now r1 \<and> stored r1 = stored r \<and> same_rule r1 r"
proof -
  have ok: "rule_ok now r" by (rule rule_ok_mono [OF assms(1,2)])
  from assms(4) show ?thesis
  proof (cases rule: plan_exhaust [where now = now])
    case (known key i)
    note i = first_index_Some [OF known(3)]
    let ?s = "http_limit_touch (r_slots r ! i) now"
    have r1: "r1 = r\<lparr>r_slots := (r_slots r)[i := ?s]\<rparr>" using plan_known [OF assms(1-3) known(1,3)] assms(5) known(2) by simp
    have s: "slot_ok now r (r_slots r ! i)" "distinct (map sl_id (r_slots r))" using ok i(1) by (simp_all add: rule_ok_def)
    have "slot_ok now r ?s" using s(1) by (simp add: slot_ok_def http_limit_touch_def)
    then have "\<forall>s \<in> set ((r_slots r)[i := ?s]). slot_ok now r s"
      using ok by (auto simp: rule_ok_def dest!: set_update_subset_insert [THEN subsetD])
    moreover have m: "map sl_id ((r_slots r)[i := ?s]) = map sl_id (r_slots r)" by (simp add: map_update list_update_same_conv i(1))
    moreover have "slot_map (r_slots r1) = slot_map (r_slots r)"
      using slot_map_update [OF s(2) i(1), of ?s] slot_map_nth [OF s(2) i(1)] by (simp add: r1 fun_upd_idem_iff)
    ultimately show ?thesis using rule_ok_slots [OF ok, of "(r_slots r)[i := ?s]"] stored_cong [of r1 r] s(2) ok
      by (simp add: r1 same_rule_def rule_ok_def)
  next
    case keyless
    then show ?thesis using plan_keyless [OF assms(1-3)] assms(5) ok by (simp add: same_rule_def)
  next
    case new
    then show ?thesis using plan_new [OF assms(1-3)] assms(5) ok by (simp add: same_rule_def)
  next
    case reuse
    then show ?thesis using plan_reuse [OF assms(1-3)] assms(5) ok by (simp add: same_rule_def)
  next
    case full
    then show ?thesis using plan_full assms(5) ok by (simp add: same_rule_def)
  qed
qed

text \<open>What a granted request changes: the arrival time of its client, and at most one idle client is dropped.\<close>

definition granted :: "nat \<Rightarrow> http_limit_rule \<Rightarrow> string option \<Rightarrow> http_limit_rule \<Rightarrow> bool" where
  "granted now r k r2 \<longleftrightarrow> base_of r k now \<le> now + r_tau r \<and> rule_ok now r2 \<and> same_rule r2 r \<and>
     stored r2 k = Some (base_of r k now + r_interval r) \<and>
     (\<forall>k'. k' \<noteq> k \<longrightarrow> stored r2 k' = stored r k' \<or> (stored r2 k' = None \<and> (\<exists>u. stored r k' = Some u \<and> u \<le> now)))"

lemma verdict_granted:
  assumes "\<not> p_deny (gcra_into (verdict r k now) p)"
  shows "base_of r k now \<le> now + r_tau r" "gcra_into (verdict r k now) p = p\<lparr>p_new_tat := base_of r k now + r_interval r\<rparr>"
  using assms by (auto simp: verdict_def gcra_into_def Let_def split: if_splits)

lemma commit_keyless:
  assumes "rule_ok t r" "t \<le> now" "now < 2 ^ 63" "r_keys r = []" "http_limit_rule_plan r None now = (r1, plan)" "\<not> p_deny plan"
  shows "granted now r None (http_limit_rule_commit r1 plan now)"
proof -
  have p: "r1 = r" "plan = gcra_into (verdict r None now) (plan0 None)" using plan_keyless [OF assms(1-4)] assms(5) by auto
  note v = verdict_granted [of r None now "plan0 None"]
  have b: "base_of r None now \<le> now + r_tau r" "p_new_tat plan = base_of r None now + r_interval r" using v assms(6) p(2) by auto
  have ok: "rule_ok now r" by (rule rule_ok_mono [OF assms(1,2)])
  have c: "http_limit_rule_commit r1 plan now = r\<lparr>r_tat := base_of r None now + r_interval r, r_have := True\<rparr>"
    using assms(4) b p(1) by (simp add: http_limit_rule_commit_def Let_def)
  show ?thesis unfolding c granted_def using ok b assms(4)
    by (simp add: rule_ok_def rule_shape_def slot_ok_def same_rule_def stored_def)
qed

lemma commit_slot:
  assumes "rule_ok now r" "r_keys r \<noteq> []" "i < length (r_slots r)" "sl_id s = key"
    and "sl_id (r_slots r ! i) = key \<or> key \<notin> sl_id ` set (r_slots r) \<and> sl_tat (r_slots r ! i) \<le> now"
    and "slot_ok now r s" "base_of r (Some key) now \<le> now + r_tau r" "sl_tat s = base_of r (Some key) now + r_interval r"
  shows "granted now r (Some key) (r\<lparr>r_slots := (r_slots r)[i := s]\<rparr>)"
proof -
  let ?r = "r\<lparr>r_slots := (r_slots r)[i := s]\<rparr>"
  have d: "distinct (map sl_id (r_slots r))" using assms(1) by (simp add: rule_ok_def)
  have m: "slot_map ((r_slots r)[i := s]) = (slot_map (r_slots r))(sl_id (r_slots r ! i) := None, key \<mapsto> sl_tat s)"
    using slot_map_update [OF d assms(3), of s] assms(4,5) by auto
  have "\<forall>s \<in> set ((r_slots r)[i := s]). slot_ok now r s"
    using assms(1,6) by (auto simp: rule_ok_def dest!: set_update_subset_insert [THEN subsetD])
  moreover have "distinct (map sl_id ((r_slots r)[i := s]))"
  proof (cases "sl_id (r_slots r ! i) = key")
    case True
    then have "map sl_id ((r_slots r)[i := s]) = map sl_id (r_slots r)"
      using assms(3,4) by (auto simp: map_update list_update_same_conv)
    then show ?thesis using d by simp
  next
    case False
    then have "key \<notin> set (map sl_id (r_slots r))" using assms(5) by simp
    then show ?thesis using d assms(4) unfolding map_update by (simp add: distinct_list_update)
  qed
  ultimately have "rule_ok now ?r" using rule_ok_slots [OF assms(1)] assms(1) by (simp add: rule_ok_def)
  moreover have "stored ?r k' = stored r k' \<or> (stored ?r k' = None \<and> (\<exists>u. stored r k' = Some u \<and> u \<le> now))" if "k' \<noteq> Some key" for k'
  proof (cases "k' = Some (sl_id (r_slots r ! i))")
    case True
    then have "stored r k' = Some (sl_tat (r_slots r ! i))" using slot_map_nth [OF d assms(3)] assms(2) by (simp add: stored_def)
    moreover have "stored ?r k' = None" using True that m assms(2) by (simp add: stored_def)
    ultimately show ?thesis using True that assms(5) by auto
  next
    case False
    then show ?thesis using that m assms(2) by (simp add: stored_def split: option.splits)
  qed
  ultimately show ?thesis
    unfolding granted_def using assms(2,7,8) m by (simp add: same_rule_def stored_def)
qed

lemma commit_known:
  assumes "rule_ok t r" "t \<le> now" "now < 2 ^ 63" "r_keys r \<noteq> []" "first_index (\<lambda>s. sl_id s = key) (r_slots r) = Some i"
    and "http_limit_rule_plan r (Some key) now = (r1, plan)" "\<not> p_deny plan"
  shows "granted now r (Some key) (http_limit_rule_commit r1 plan now)"
proof -
  note i = first_index_Some [OF assms(5)]
  let ?s = "http_limit_touch (r_slots r ! i) now"
  let ?n = "http_limit_touch (?s\<lparr>sl_tat := base_of r (Some key) now + r_interval r, sl_have := True\<rparr>) now"
  have p: "r1 = r\<lparr>r_slots := (r_slots r)[i := ?s]\<rparr>" "plan = gcra_into (verdict r (Some key) now) ((plan0 (Some key))\<lparr>p_slot := Some i\<rparr>)"
    using plan_known [OF assms(1-5)] assms(6) by auto
  note v = verdict_granted [OF assms(7) [unfolded p(2)]]
  have c: "http_limit_rule_commit r1 plan now = r\<lparr>r_slots := (r_slots r)[i := ?n]\<rparr>"
    unfolding p v(2) using assms(4) i(1) by (simp add: http_limit_rule_commit_def Let_def)
  have ok: "rule_ok now r" by (rule rule_ok_mono [OF assms(1,2)])
  then have "sl_last (r_slots r ! i) \<le> now" using i(1) by (simp add: rule_ok_def slot_ok_def)
  then have "slot_ok now r ?n" using v(1) by (simp add: slot_ok_def http_limit_touch_def)
  then show ?thesis unfolding c using commit_slot [OF ok assms(4) i(1) _ _ _ v(1), of ?n] i(2) by simp
qed

lemma commit_new:
  assumes "rule_ok t r" "t \<le> now" "now < 2 ^ 63" "r_keys r \<noteq> []" "first_index (\<lambda>s. sl_id s = key) (r_slots r) = None"
    and "length (r_slots r) < HTTP_LIMIT_SLOTS" "http_limit_rule_plan r (Some key) now = (r1, plan)"
  shows "granted now r (Some key) (http_limit_rule_commit r1 plan now)"
proof -
  let ?n = "\<lparr>sl_id = key, sl_tat = now + r_interval r, sl_last = now, sl_have = True\<rparr>"
  note u = unknown_stored [OF assms(4,5)]
  have c: "http_limit_rule_commit r1 plan now = r\<lparr>r_slots := r_slots r @ [?n]\<rparr>"
    using plan_new [OF assms(1-6)] assms(7,4) by (auto simp: http_limit_rule_commit_def Let_def)
  have ok: "rule_ok now r" by (rule rule_ok_mono [OF assms(1,2)])
  have m: "slot_map (r_slots r @ [?n]) = (slot_map (r_slots r))(key \<mapsto> now + r_interval r)" using slot_map_append [OF u(1), of ?n] by simp
  have "distinct (map sl_id (r_slots r @ [?n]))" "\<forall>s \<in> set (r_slots r @ [?n]). slot_ok now r s"
    using ok u(1) by (auto simp: rule_ok_def slot_ok_def)
  then have "rule_ok now (r\<lparr>r_slots := r_slots r @ [?n]\<rparr>)"
    using rule_ok_slots [OF ok, of "r_slots r @ [?n]"] assms(6) by simp
  then show ?thesis unfolding c granted_def using m u(2) assms(4)
    by (auto simp: same_rule_def stored_def base_of_def split: option.splits)
qed

lemma commit_reuse:
  assumes "rule_ok t r" "t \<le> now" "now < 2 ^ 63" "r_keys r \<noteq> []" "first_index (\<lambda>s. sl_id s = key) (r_slots r) = None"
    and "\<not> length (r_slots r) < HTTP_LIMIT_SLOTS" "first_index (slot_idle now) (r_slots r) = Some i"
    and "http_limit_rule_plan r (Some key) now = (r1, plan)"
  shows "granted now r (Some key) (http_limit_rule_commit r1 plan now)"
proof -
  let ?n = "\<lparr>sl_id = key, sl_tat = now + r_interval r, sl_last = now, sl_have = True\<rparr>"
  note u = unknown_stored [OF assms(4,5)] and i = first_index_Some [OF assms(7)]
  have ok: "rule_ok now r" by (rule rule_ok_mono [OF assms(1,2)])
  have c: "http_limit_rule_commit r1 plan now = r\<lparr>r_slots := (r_slots r)[i := ?n]\<rparr>"
    using plan_reuse [OF assms(1-7)] assms(8,4) by (auto simp: http_limit_rule_commit_def Let_def)
  have b: "base_of r (Some key) now = now" using u(2) by (simp add: base_of_def)
  have "slot_ok now r (r_slots r ! i)" "rule_shape r" using ok i(1) by (simp_all add: rule_ok_def)
  then have "sl_tat (r_slots r ! i) \<le> now" using i(2) by (auto simp: slot_ok_def slot_idle_def rule_shape_def HTTP_LIMIT_IDLE_NS_def)
  moreover have "slot_ok now r ?n" by (simp add: slot_ok_def)
  ultimately show ?thesis unfolding c using commit_slot [OF ok assms(4) i(1), of ?n key] u(1) b by simp
qed

lemma commit_grants:
  assumes "rule_ok t r" "t \<le> now" "now < 2 ^ 63" "(r_keys r = []) = (k = None)"
    and "http_limit_rule_plan r k now = (r1, plan)" "\<not> p_deny plan"
  shows "granted now r k (http_limit_rule_commit r1 plan now)"
  using assms(4)
proof (cases rule: plan_exhaust [where now = now])
  case keyless
  then show ?thesis using commit_keyless assms by simp
next
  case known
  then show ?thesis using commit_known assms by simp
next
  case new
  then show ?thesis using commit_new assms by simp
next
  case reuse
  then show ?thesis using commit_reuse assms by simp
next
  case full
  then show ?thesis using plan_full assms(5,6) by auto
qed

text \<open>When a rule refuses, and that it grants again after the announced wait.\<close>

lemma plan_admits:
  assumes "rule_ok t r" "t \<le> now" "now < 2 ^ 63" "(r_keys r = []) = (k = None)" "base_of r k now \<le> now + r_tau r"
    and "stored r k \<noteq> None \<or> r_keys r = [] \<or> length (r_slots r) < HTTP_LIMIT_SLOTS \<or> (\<exists>s \<in> set (r_slots r). slot_idle now s)"
  shows "\<not> p_deny (snd (http_limit_rule_plan r k now))"
proof -
  have v: "verdict r k now = Inr (base_of r k now + r_interval r)" using assms(5) by (simp add: verdict_def)
  from assms(4) show ?thesis
  proof (cases rule: plan_exhaust [where now = now])
    case keyless
    then show ?thesis using plan_keyless [OF assms(1-3)] v by (simp add: gcra_into_def)
  next
    case known
    then show ?thesis using plan_known [OF assms(1-3)] v by (simp add: gcra_into_def)
  next
    case new
    then show ?thesis using plan_new [OF assms(1-3)] by simp
  next
    case reuse
    then show ?thesis using plan_reuse [OF assms(1-3)] by simp
  next
    case full
    then show ?thesis using assms(6) unknown_stored(2) [OF full(1,3)] by (auto simp: first_index_None)
  qed
qed

lemma plan_denies:
  assumes "rule_ok t r" "t \<le> now" "now < 2 ^ 63" "(r_keys r = []) = (k = None)" "http_limit_rule_plan r k now = (r1, plan)" "p_deny plan"
  shows "(stored r k \<noteq> None \<and> base_of r k now > now + r_tau r \<and> p_retry plan = (base_of r k now - now - r_tau r + 999999999) div 1000000000) \<or>
    (r_keys r \<noteq> [] \<and> stored r k = None \<and> \<not> length (r_slots r) < HTTP_LIMIT_SLOTS \<and> p_retry plan = HTTP_LIMIT_TABLE_RETRY_SEC \<and> r1 = r)"
proof -
  have st: "stored r k \<noteq> None" if "base_of r k now > now + r_tau r" using that by (auto simp: base_of_def split: option.splits)
  have v: "p_deny (gcra_into (verdict r k now) p) \<Longrightarrow> \<not> p_deny p \<Longrightarrow> base_of r k now > now + r_tau r \<and>
    p_retry (gcra_into (verdict r k now) p) = (base_of r k now - now - r_tau r + 999999999) div 1000000000" for p
    by (auto simp: verdict_def gcra_into_def Let_def split: if_splits)
  from assms(4) show ?thesis
  proof (cases rule: plan_exhaust [where now = now])
    case keyless
    then have "plan = gcra_into (verdict r k now) (plan0 k)" using plan_keyless [OF assms(1-3)] assms(5) by auto
    then show ?thesis using v [of "plan0 k"] st assms(6) by simp
  next
    case (known key i)
    then have "plan = gcra_into (verdict r k now) ((plan0 k)\<lparr>p_slot := Some i\<rparr>)" using plan_known [OF assms(1-3)] assms(5) by auto
    then show ?thesis using v [of "(plan0 k)\<lparr>p_slot := Some i\<rparr>"] st assms(6) by simp
  next
    case new
    then show ?thesis using plan_new [OF assms(1-3)] assms(5,6) by auto
  next
    case reuse
    then show ?thesis using plan_reuse [OF assms(1-3)] assms(5,6) by auto
  next
    case full
    then show ?thesis using plan_full [OF full(1,3-5)] unknown_stored(2) [OF full(1,3)] assms(5) by auto
  qed
qed

lemma retry_positive:
  assumes "rule_ok t r" "t \<le> now" "now < 2 ^ 63" "(r_keys r = []) = (k = None)" "http_limit_rule_plan r k now = (r1, plan)" "p_deny plan"
  shows "1 \<le> p_retry plan"
  using plan_denies [OF assms] by (auto simp: HTTP_LIMIT_TABLE_RETRY_SEC_def)

lemma retry_admits:
  assumes "rule_ok t r" "t \<le> now" "now < 2 ^ 63" "(r_keys r = []) = (k = None)" "http_limit_rule_plan r k now = (r1, plan)" "p_deny plan"
    and "now + p_retry plan * 1000000000 \<le> now'" "now' < 2 ^ 63"
  shows "\<not> p_deny (snd (http_limit_rule_plan r1 k now'))"
proof -
  have keeps: "rule_ok now r1" "stored r1 = stored r" "same_rule r1 r" using plan_keeps [OF assms(1-5)] by auto
  have n: "now \<le> now'" using assms(7) by simp
  show ?thesis
  proof (rule plan_admits [OF keeps(1) n assms(8)])
    show "(r_keys r1 = []) = (k = None)" using assms(4) keeps(3) by (simp add: same_rule_def)
    consider (limit) "stored r k \<noteq> None" "base_of r k now > now + r_tau r"
        "p_retry plan = (base_of r k now - now - r_tau r + 999999999) div 1000000000"
      | (table) "r_keys r \<noteq> []" "stored r k = None" "\<not> length (r_slots r) < HTTP_LIMIT_SLOTS" "p_retry plan = HTTP_LIMIT_TABLE_RETRY_SEC" "r1 = r"
      using plan_denies [OF assms(1-6)] by (elim disjE conjE) simp_all
    then have "base_of r1 k now' \<le> now' + r_tau r1 \<and> (stored r1 k \<noteq> None \<or> (\<exists>s \<in> set (r_slots r1). slot_idle now' s))"
    proof cases
      case limit
      have "base_of r k now \<le> now' + r_tau r" using limit(2,3) assms(7) by linarith
      then show ?thesis using keeps(2,3) limit(1) n by (auto simp: base_of_def same_rule_def split: option.splits)
    next
      case table
      then have "r_slots r \<noteq> []" by (auto simp: HTTP_LIMIT_SLOTS_def)
      then obtain s where s: "s \<in> set (r_slots r)" by (cases "r_slots r") auto
      then have "sl_have s" "sl_last s \<le> now" using keeps(1) table(5) by (auto simp: rule_ok_def slot_ok_def)
      then have "slot_idle now' s" using assms(7) table(4) by (simp add: slot_idle_def HTTP_LIMIT_IDLE_NS_def HTTP_LIMIT_TABLE_RETRY_SEC_def)
      then show ?thesis using s table(2,5) by (auto simp: base_of_def)
    qed
    then show "base_of r1 k now' \<le> now' + r_tau r1"
      "stored r1 k \<noteq> None \<or> r_keys r1 = [] \<or> length (r_slots r1) < HTTP_LIMIT_SLOTS \<or> (\<exists>s \<in> set (r_slots r1). slot_idle now' s)" by auto
  qed
qed

section \<open>All rules of a request\<close>

lemma plan_loop_frame:
  "plan_loop rules ms now = (rules', plans) \<Longrightarrow> i \<notin> fst ` set ms \<Longrightarrow> rules' ! i = rules ! i"
  "plan_loop rules ms now = (rules', plans) \<Longrightarrow> length rules' = length rules \<and> length plans = length ms"
proof -
  show "plan_loop rules ms now = (rules', plans) \<Longrightarrow> i \<notin> fst ` set ms \<Longrightarrow> rules' ! i = rules ! i"
    by (induction rules ms now arbitrary: rules' plans rule: plan_loop.induct) (auto split: prod.splits)
  show "plan_loop rules ms now = (rules', plans) \<Longrightarrow> length rules' = length rules \<and> length plans = length ms"
    by (induction rules ms now arbitrary: rules' plans rule: plan_loop.induct) (auto split: prod.splits)
qed

lemma plan_loop_at:
  assumes "plan_loop rules ms now = (rules', plans)" "distinct (map fst ms)" "\<forall>m \<in> fst ` set ms. m < length rules" "j < length ms"
  shows "http_limit_rule_plan (rules ! fst (ms ! j)) (snd (ms ! j)) now = (rules' ! fst (ms ! j), plans ! j)"
  using assms
proof (induction rules ms now arbitrary: rules' plans j rule: plan_loop.induct)
  case (2 rules m k ms now)
  obtain rule plan where p: "http_limit_rule_plan (rules ! m) k now = (rule, plan)" by fastforce
  obtain plans1 where l: "plan_loop (rules[m := rule]) ms now = (rules', plans1)" "plans = plan # plans1"
    using 2(2) p by (auto split: prod.splits)
  show ?case
  proof (cases j)
    case 0
    have "rules' ! m = rule" using plan_loop_frame(1) [OF l(1), of m] 2(3,4) by auto
    then show ?thesis using 0 p l(2) by simp
  next
    case (Suc j')
    have ne: "fst (ms ! j') \<noteq> m" using 2(3,5) Suc by (metis Suc_less_eq distinct.simps(2) fst_conv length_Cons length_map list.simps(9) nth_map nth_mem)
    have "http_limit_rule_plan (rules[m := rule] ! fst (ms ! j')) (snd (ms ! j')) now = (rules' ! fst (ms ! j'), plans1 ! j')"
      using 2(1) [OF p [symmetric] l(1), of j'] 2(3-5) Suc by simp
    then show ?thesis using ne Suc l(2) by simp
  qed
qed simp

lemma commit_loop_frame:
  "length (commit_loop rules ms now) = length rules"
  "i \<notin> fst ` set ms \<Longrightarrow> commit_loop rules ms now ! i = rules ! i"
  by (induction rules ms now rule: commit_loop.induct) auto

lemma commit_loop_at:
  assumes "distinct (map fst ms)" "\<forall>m \<in> fst ` set ms. m < length rules" "j < length ms"
  shows "commit_loop rules ms now ! fst (ms ! j) = http_limit_rule_commit (rules ! fst (ms ! j)) (snd (ms ! j)) now"
  using assms
proof (induction rules ms now arbitrary: j rule: commit_loop.induct)
  case (2 rules m plan ms now)
  show ?case
  proof (cases j)
    case 0
    then show ?thesis using commit_loop_frame(2) [of m ms] 2(2,3) by auto
  next
    case (Suc j')
    have ne: "fst (ms ! j') \<noteq> m" using 2(2,4) Suc by (metis Suc_less_eq distinct.simps(2) fst_conv length_Cons length_map list.simps(9) nth_map nth_mem)
    then show ?thesis using 2(1) [of j'] 2(2-4) Suc by simp
  qed
qed simp

definition applies :: "http_limit_rule \<Rightarrow> http_reply_data \<Rightarrow> bool" where
  "applies r h \<longleftrightarrow> (case hr_uri h of None \<Rightarrow> False | Some uri \<Rightarrow> http_limit_path_match (r_path r) uri)"

definition limiter_ok :: "nat \<Rightarrow> http_limit \<Rightarrow> bool" where
  "limiter_ok t lim \<longleftrightarrow> length (l_rules lim) \<le> HTTP_LIMIT_RULES_MAX \<and> (\<forall>r \<in> set (l_rules lim). rule_ok t r)"

lemma matching_eq:
  assumes "length rules \<le> HTTP_LIMIT_RULES_MAX"
  shows "matching rules uri = filter (\<lambda>i. http_limit_path_match (r_path (rules ! i)) uri) [0..<length rules]"
    "distinct (matching rules uri)" "i \<in> set (matching rules uri) \<longleftrightarrow> i < length rules \<and> http_limit_path_match (r_path (rules ! i)) uri"
proof -
  have "length (filter (\<lambda>i. http_limit_path_match (r_path (rules ! i)) uri) [0..<length rules]) \<le> length rules"
    using length_filter_le [of _ "[0..<length rules]"] by simp
  then show e: "matching rules uri = filter (\<lambda>i. http_limit_path_match (r_path (rules ! i)) uri) [0..<length rules]"
    using assms by (simp add: matching_def)
  show "distinct (matching rules uri)" "i \<in> set (matching rules uri) \<longleftrightarrow> i < length rules \<and> http_limit_path_match (r_path (rules ! i)) uri"
    unfolding e by auto
qed

lemma build_ids_at:
  "build_ids carg h rules ms = Inr (Some ids) \<Longrightarrow>
   length ids = length ms \<and> (\<forall>j < length ms. http_limit_build_id carg h (rules ! (ms ! j)) = Inr (Some (ids ! j)))"
proof (induction ms arbitrary: ids)
  case (Cons m ms)
  then obtain k ids' where k: "http_limit_build_id carg h (rules ! m) = Inr (Some k)" "build_ids carg h rules ms = Inr (Some ids')" "ids = k # ids'"
    by (auto split: sum.splits option.splits)
  then show ?case using Cons.IH [OF k(2)] by (auto simp: nth_Cons split: nat.splits)
qed simp

lemma build_id_none: "http_limit_build_id carg h r = Inr (Some k) \<Longrightarrow> (r_keys r = []) = (k = None)"
  by (auto simp: http_limit_build_id_def split: if_splits sum.splits option.splits)

text \<open>The check of a request as it acts on each rule.\<close>

definition check_acts :: "nat \<Rightarrow> bool \<Rightarrow> limit_carg \<Rightarrow> http_reply_data \<Rightarrow> http_limit \<Rightarrow> http_limit \<Rightarrow> bool" where
  "check_acts now allow carg h lim lim' \<longleftrightarrow> length (l_rules lim') = length (l_rules lim) \<and>
     (\<forall>i < length (l_rules lim).
        rule_ok now (l_rules lim' ! i) \<and> same_rule (l_rules lim' ! i) (l_rules lim ! i) \<and>
        (if allow \<and> applies (l_rules lim ! i) h
         then \<exists>k. http_limit_build_id carg h (l_rules lim ! i) = Inr (Some k) \<and> granted now (l_rules lim ! i) k (l_rules lim' ! i)
         else stored (l_rules lim' ! i) = stored (l_rules lim ! i)))"

lemma check_acts_same:
  assumes "limiter_ok t lim" "t \<le> now" "\<And>i. i < length (l_rules lim) \<Longrightarrow> allow \<Longrightarrow> \<not> applies (l_rules lim ! i) h"
  shows "check_acts now allow carg h lim lim"
proof -
  have "rule_ok now (l_rules lim ! i)" if "i < length (l_rules lim)" for i
    using assms(1) that by (intro rule_ok_mono [OF _ assms(2)]) (simp add: limiter_ok_def)
  then show ?thesis using assms(3) by (auto simp: check_acts_def same_rule_def)
qed

text \<open>The plans of the matching rules, and what each of them leaves.\<close>

lemma plans_of_check:
  assumes ok: "limiter_ok t lim" "t \<le> now" "now < 2 ^ 63" and uri: "hr_uri h = Some uri"
    and ids: "build_ids carg h (l_rules lim) (matching (l_rules lim) uri) = Inr (Some ids)"
    and plans: "plan_loop (l_rules lim) (zip (matching (l_rules lim) uri) ids) now = (rules, plans)"
  shows "length plans = length (matching (l_rules lim) uri)" "length rules = length (l_rules lim)"
    and "i < length (l_rules lim) \<Longrightarrow> \<not> applies (l_rules lim ! i) h \<Longrightarrow> rules ! i = l_rules lim ! i"
    and "i < length (l_rules lim) \<Longrightarrow> rule_ok now (rules ! i) \<and> same_rule (rules ! i) (l_rules lim ! i) \<and> stored (rules ! i) = stored (l_rules lim ! i)"
    and "j < length (matching (l_rules lim) uri) \<Longrightarrow> i = matching (l_rules lim) uri ! j \<Longrightarrow>
      http_limit_build_id carg h (l_rules lim ! i) = Inr (Some (ids ! j)) \<and>
      http_limit_rule_plan (l_rules lim ! i) (ids ! j) now = (rules ! i, plans ! j)"
proof -
  let ?m = "matching (l_rules lim) uri"
  have max: "length (l_rules lim) \<le> HTTP_LIMIT_RULES_MAX" using ok(1) by (simp add: limiter_ok_def)
  have id: "length ids = length ?m" "\<And>j. j < length ?m \<Longrightarrow> http_limit_build_id carg h (l_rules lim ! (?m ! j)) = Inr (Some (ids ! j))"
    using build_ids_at [OF ids] by auto
  show l: "length plans = length ?m" "length rules = length (l_rules lim)" using plan_loop_frame(2) [OF plans] id(1) by auto
  have z: "map fst (zip ?m ids) = ?m" "fst ` set (zip ?m ids) = set ?m"
    using id(1) by (simp_all flip: set_map)
  have mem: "i \<in> set ?m \<longleftrightarrow> i < length (l_rules lim) \<and> applies (l_rules lim ! i) h" for i
    using matching_eq(3) [OF max, of i uri] uri by (simp add: applies_def)
  have frame: "rules ! i = l_rules lim ! i" if "i \<notin> set ?m" for i
    using plan_loop_frame(1) [OF plans, of i] that z(2) by simp
  then show "i < length (l_rules lim) \<Longrightarrow> \<not> applies (l_rules lim ! i) h \<Longrightarrow> rules ! i = l_rules lim ! i" using mem by blast
  have at: "http_limit_build_id carg h (l_rules lim ! i) = Inr (Some (ids ! j)) \<and>
      http_limit_rule_plan (l_rules lim ! i) (ids ! j) now = (rules ! i, plans ! j)" if "j < length ?m" "i = ?m ! j" for i j
    using plan_loop_at [OF plans, of j] z matching_eq(2) [OF max] mem id that by simp
  then show "j < length ?m \<Longrightarrow> i = ?m ! j \<Longrightarrow> http_limit_build_id carg h (l_rules lim ! i) = Inr (Some (ids ! j)) \<and>
      http_limit_rule_plan (l_rules lim ! i) (ids ! j) now = (rules ! i, plans ! j)" .
  assume i: "i < length (l_rules lim)"
  then have r: "rule_ok t (l_rules lim ! i)" using ok(1) by (simp add: limiter_ok_def)
  show "rule_ok now (rules ! i) \<and> same_rule (rules ! i) (l_rules lim ! i) \<and> stored (rules ! i) = stored (l_rules lim ! i)"
  proof (cases "i \<in> set ?m")
    case True
    then obtain j where j: "j < length ?m" "i = ?m ! j" by (metis in_set_conv_nth)
    then show ?thesis using plan_keeps [OF r ok(2,3) build_id_none] at by blast
  next
    case False
    then show ?thesis using frame rule_ok_mono [OF r ok(2)] by (simp add: same_rule_def)
  qed
qed

lemma check_spec:
  assumes ok: "limiter_ok t lim" "t \<le> now" "now < 2 ^ 63" and lim: "c_limit carg = Some lim"
    and check: "http_limit_check carg (Some h) now = Inr (allow, retry, carg')"
  shows "\<exists>lim'. c_limit carg' = Some lim' \<and> c_peer carg' = c_peer carg \<and> check_acts now allow carg h lim lim'"
proof (cases "hr_uri h")
  case None
  then have "carg' = carg" using check lim by (simp add: http_limit_check_def)
  then show ?thesis using lim check_acts_same [OF ok(1,2)] None by (auto simp: applies_def)
next
  case uri: (Some uri)
  let ?m = "matching (l_rules lim) uri"
  have max: "length (l_rules lim) \<le> HTTP_LIMIT_RULES_MAX" using ok(1) by (simp add: limiter_ok_def)
  have mem: "i \<in> set ?m \<longleftrightarrow> i < length (l_rules lim) \<and> applies (l_rules lim ! i) h" for i
    using matching_eq(3) [OF max, of i uri] uri by (simp add: applies_def)
  have skip: "check_acts now allow carg h lim lim" if "?m = [] \<or> \<not> allow" using check_acts_same [OF ok(1,2)] that mem by auto
  show ?thesis
  proof (cases "?m = [] \<or> build_ids carg h (l_rules lim) ?m = Inr None")
    case True
    then have "carg' = carg" "?m = [] \<or> \<not> allow" using check lim uri by (auto simp: http_limit_check_def Let_def split: if_splits)
    then show ?thesis using lim skip by auto
  next
    case False
    then obtain ids where ids: "build_ids carg h (l_rules lim) ?m = Inr (Some ids)"
      using check lim uri by (auto simp: http_limit_check_def Let_def split: if_splits sum.splits option.splits)
    obtain rules plans where pl: "plan_loop (l_rules lim) (zip ?m ids) now = (rules, plans)" by fastforce
    note P = plans_of_check [OF ok uri ids pl]
    show ?thesis
    proof (cases "filter p_deny plans")
      case Nil
      then have c: "allow" "carg' = carg\<lparr>c_limit := Some (lim\<lparr>l_rules := commit_loop rules (zip ?m plans) now\<rparr>)\<rparr>"
        using check lim uri False ids pl by (auto simp: http_limit_check_def Let_def)
      have z: "map fst (zip ?m plans) = ?m" "fst ` set (zip ?m plans) = set ?m" using P(1) by (simp_all flip: set_map)
      have "check_acts now allow carg h lim (lim\<lparr>l_rules := commit_loop rules (zip ?m plans) now\<rparr>)"
        unfolding check_acts_def
      proof (intro conjI allI impI)
        show "length (l_rules (lim\<lparr>l_rules := commit_loop rules (zip ?m plans) now\<rparr>)) = length (l_rules lim)"
          using commit_loop_frame(1) P(2) by simp
        fix i assume i: "i < length (l_rules lim)"
        let ?r = "l_rules lim ! i" and ?r' = "commit_loop rules (zip ?m plans) now ! i"
        have "rule_ok now ?r' \<and> same_rule ?r' ?r \<and> (if allow \<and> applies ?r h
          then \<exists>k. http_limit_build_id carg h ?r = Inr (Some k) \<and> granted now ?r k ?r' else stored ?r' = stored ?r)"
        proof (cases "i \<in> set ?m")
          case True
          then obtain j where j: "j < length ?m" "i = ?m ! j" by (metis in_set_conv_nth)
          note a = P(5) [OF j]
          have "?r' = http_limit_rule_commit (rules ! i) (plans ! j) now"
            using commit_loop_at [of "zip ?m plans" rules j] z matching_eq(2) [OF max] mem P(1,2) j by simp
          moreover have "\<not> p_deny (plans ! j)" using Nil j(1) P(1) by (simp add: filter_empty_conv)
          moreover have "rule_ok t ?r" using ok(1) i by (simp add: limiter_ok_def)
          ultimately have g: "granted now ?r (ids ! j) ?r'" using commit_grants [OF _ ok(2,3) build_id_none] a by auto
          then have "rule_ok now ?r' \<and> same_rule ?r' ?r" by (simp add: granted_def)
          then show ?thesis using a True mem c(1) g by auto
        next
          case False
          then have "?r' = rules ! i" using commit_loop_frame(2) [of i "zip ?m plans"] z(2) by simp
          then show ?thesis using P(4) [OF i] mem False i by simp
        qed
        then show "rule_ok now (l_rules (lim\<lparr>l_rules := commit_loop rules (zip ?m plans) now\<rparr>) ! i)"
          "same_rule (l_rules (lim\<lparr>l_rules := commit_loop rules (zip ?m plans) now\<rparr>) ! i) ?r"
          "if allow \<and> applies ?r h then \<exists>k. http_limit_build_id carg h ?r = Inr (Some k) \<and>
             granted now ?r k (l_rules (lim\<lparr>l_rules := commit_loop rules (zip ?m plans) now\<rparr>) ! i)
           else stored (l_rules (lim\<lparr>l_rules := commit_loop rules (zip ?m plans) now\<rparr>) ! i) = stored ?r" by auto
      qed
      then show ?thesis using c(2) by simp
    next
      case (Cons plan ps)
      then have c: "\<not> allow" "carg' = carg\<lparr>c_limit := Some (lim\<lparr>l_rules := rules\<rparr>)\<rparr>"
        using check lim uri False ids pl by (auto simp: http_limit_check_def Let_def)
      then show ?thesis using P(2,4) by (simp add: check_acts_def)
    qed
  qed
qed

section \<open>Installed rules\<close>

lemma parse_keys_names: "parse_keys J js = Some keys \<Longrightarrow> k \<in> set keys \<Longrightarrow> length (k_name k) \<le> 128"
proof (induction js arbitrary: keys)
  case (Cons j js)
  then obtain k' keys' where k: "http_limit_parse_key (json_string_value J j) = Some k'" "parse_keys J js = Some keys'" "keys = k' # keys'"
    by (auto split: option.splits)
  have "length (k_name k') \<le> 128"
    using k(1) by (auto simp: http_limit_parse_key_def http_limit_name_ok_def split: option.splits if_splits)
  then show ?case using Cons k by auto
qed simp

lemma mult_pred: "1 \<le> (n :: nat) \<Longrightarrow> a * n = a * (n - 1) + a"
  by (cases n) auto

lemma u64_small: "n \<le> 1000000000 \<Longrightarrow> u64 n = n"
  by (simp add: u64_def)

lemma rule_fill_ok:
  assumes "http_limit_rule_fill J obj = Some r"
  shows "rule_ok 0 r" "stored r = (\<lambda>_. None)" "1 \<le> r_rps r" "r_interval r = 1000000000 div r_rps r"
    "r_tau r = r_interval r * (r_rps r - 1)" "http_limit_path_ok (r_path r)"
proof -
  obtain path rps where pr: "Option.bind (json_object_get J obj ''path'') (json_string_value J) = Some path"
    "Option.bind (json_object_get J obj ''rps'') (json_integer_value J) = Some rps"
    using assms by (cases "Option.bind (json_object_get J obj ''path'') (json_string_value J)";
      cases "Option.bind (json_object_get J obj ''rps'') (json_integer_value J)") (simp_all add: http_limit_rule_fill_def split: if_splits)
  obtain keys where r: "http_limit_path_ok path" "1 \<le> rps" "1000000000 div nat rps \<noteq> 0" "rule_keys J obj = Some keys"
    "r = \<lparr>r_path = path, r_rps = nat rps, r_interval = 1000000000 div nat rps, r_tau = u64 (1000000000 div nat rps * (nat rps - 1)),
          r_keys = keys, r_tat = 0, r_have = False, r_slots = []\<rparr>"
    using assms unfolding http_limit_rule_fill_def pr prod.case option.case Let_def by (auto split: if_splits option.splits)
  let ?i = "1000000000 div nat rps"
  have n: "1 \<le> nat rps" using r(2) by simp
  have "?i * nat rps \<le> 1000000000" by (rule div_times_less_eq_dividend)
  then have t: "?i * (nat rps - 1) + ?i \<le> 1000000000" unfolding mult_pred [OF n] .
  then have u: "u64 (?i * (nat rps - 1)) = ?i * (nat rps - 1)" by (intro u64_small) (rule le_trans [OF le_add1])
  have "\<forall>k \<in> set keys. length (k_name k) \<le> 128"
    using r(4) parse_keys_names by (fastforce simp: rule_keys_def split: option.splits if_splits)
  then have "rule_shape r" using r(3) t u unfolding rule_shape_def r(5) by simp
  then show "rule_ok 0 r" by (simp add: rule_ok_def r(5))
  show "stored r = (\<lambda>_. None)" by (rule ext) (simp add: stored_def r(5) slot_map_def split: option.splits)
  show "1 \<le> r_rps r" "r_interval r = 1000000000 div r_rps r" "r_tau r = r_interval r * (r_rps r - 1)" "http_limit_path_ok (r_path r)"
    using n u r(1) by (simp_all add: r(5))
qed

definition fresh_rule :: "http_limit_rule \<Rightarrow> bool" where
  "fresh_rule r \<longleftrightarrow> rule_ok 0 r \<and> stored r = (\<lambda>_. None) \<and> 1 \<le> r_rps r \<and> r_interval r = 1000000000 div r_rps r \<and>
     r_tau r = r_interval r * (r_rps r - 1)"

lemma fill_loop_ok:
  "fill_loop J js rules rejected = (rules', rejected') \<Longrightarrow> length rules \<le> HTTP_LIMIT_RULES_MAX \<Longrightarrow> \<forall>r \<in> set rules. fresh_rule r \<Longrightarrow>
   length rules' \<le> HTTP_LIMIT_RULES_MAX \<and> (\<forall>r \<in> set rules'. fresh_rule r)"
proof (induction J js rules rejected rule: fill_loop.induct)
  case (2 J j js rules rejected)
  show ?case
  proof (cases "length rules \<ge> HTTP_LIMIT_RULES_MAX \<or> http_limit_rule_fill J j = None")
    case True
    then show ?thesis using 2 by (auto split: if_splits)
  next
    case False
    then obtain r where r: "http_limit_rule_fill J j = Some r" by auto
    then have "fresh_rule r" using rule_fill_ok(1-5) [OF r] by (simp add: fresh_rule_def)
    then show ?thesis using 2 r False by auto
  qed
qed simp

text \<open>A connection with a limiter that was just installed.\<close>

definition installed :: "limit_carg \<Rightarrow> http_limit \<Rightarrow> bool" where
  "installed carg lim \<longleftrightarrow> c_limit carg = Some lim \<and> length (l_rules lim) \<le> HTTP_LIMIT_RULES_MAX \<and> (\<forall>r \<in> set (l_rules lim). fresh_rule r)"

lemma apply_json_installs:
  assumes "http_limit_apply_json J carg0 (Some j) = (n, carg, old)" "0 < n"
  obtains lim where "installed carg lim" "n = int (length (l_rules lim))"
proof -
  obtain js rules where r: "fill_loop J js [] False = (rules, False)" "n = int (length rules)" "c_limit carg = Some \<lparr>l_rules = rules, l_ref = 1\<rparr>"
    using assms by (auto simp: http_limit_apply_json_def split: option.splits prod.splits if_splits)
  then show ?thesis using fill_loop_ok [OF r(1)] that [of "\<lparr>l_rules = rules, l_ref = 1\<rparr>"] by (simp add: installed_def)
qed

section \<open>The generic cell rate algorithm over a history\<close>

text \<open>The arrival time after requests granted at the given times, latest first, and that each was within the tolerance.\<close>

fun tat_after :: "nat \<Rightarrow> nat list \<Rightarrow> nat" where
  "tat_after interval [] = 0"
| "tat_after interval (t # h) = max t (tat_after interval h) + interval"

fun conform :: "nat \<Rightarrow> nat \<Rightarrow> nat list \<Rightarrow> bool" where
  "conform interval tau [] = True"
| "conform interval tau (t # h) \<longleftrightarrow> conform interval tau h \<and> tat_after interval h \<le> t + tau"

lemma tat_after_ge: "t + (length xs + 1) * interval \<le> tat_after interval (xs @ t # h)"
  by (induction xs) auto

lemma conform_append: "conform interval tau (xs @ h) \<Longrightarrow> conform interval tau h"
  by (induction xs) auto

lemma conform_rate:
  assumes "conform interval tau (rev (as @ t # ms @ t' # bs))"
  shows "t + (length ms + 1) * interval \<le> t' + tau"
proof -
  have "conform interval tau (t' # rev ms @ t # rev as)" 
    by (rule conform_append [of interval tau "rev bs"]) (use assms in simp)
  then show ?thesis using tat_after_ge [of t "rev ms" interval "rev as"] by simp
qed

text \<open>
  What the history of a client needs of a table of arrival times: a granted request was within the tolerance, moves
  the arrival time of its own client by one interval, and of another client at most drops a time already past.
\<close>

locale cell_rate =
  fixes interval :: "'r \<Rightarrow> nat" and tau :: "'r \<Rightarrow> nat" and arrival :: "'r \<Rightarrow> 'k \<Rightarrow> nat option"
    and kept :: "'r \<Rightarrow> 'r \<Rightarrow> bool" and grant :: "nat \<Rightarrow> 'r \<Rightarrow> 'k \<Rightarrow> 'r \<Rightarrow> bool"
  assumes kept_parameters: "kept r2 r \<Longrightarrow> interval r2 = interval r \<and> tau r2 = tau r"
    and grant_kept: "grant now r k r2 \<Longrightarrow> kept r2 r"
    and grant_within: "grant now r k r2 \<Longrightarrow> (case arrival r k of Some t \<Rightarrow> t | None \<Rightarrow> 0) \<le> now + tau r"
    and grant_moves: "grant now r k r2 \<Longrightarrow> arrival r2 k = Some (max now (case arrival r k of Some t \<Rightarrow> t | None \<Rightarrow> 0) + interval r)"
    and grant_others: "grant now r k r2 \<Longrightarrow> k' \<noteq> k \<Longrightarrow>
      arrival r2 k' = arrival r k' \<or> (arrival r2 k' = None \<and> (\<exists>u. arrival r k' = Some u \<and> u \<le> now))"
begin

definition tracks :: "nat \<Rightarrow> 'r \<Rightarrow> 'k \<Rightarrow> nat list \<Rightarrow> bool" where
  "tracks now r k h \<longleftrightarrow> conform (interval r) (tau r) h \<and>
     (case arrival r k of Some u \<Rightarrow> tat_after (interval r) h = u | None \<Rightarrow> tat_after (interval r) h \<le> now)"

lemma tracks_fresh: "arrival r k = None \<Longrightarrow> tracks now r k []"
  by (simp add: tracks_def)

lemma tracks_conform: "tracks now r k h \<Longrightarrow> conform (interval r) (tau r) h"
  by (simp add: tracks_def)

lemma tracks_mono: "tracks t r k h \<Longrightarrow> t \<le> now \<Longrightarrow> tracks now r k h"
  by (auto simp: tracks_def split: option.splits)

lemma tracks_same: "tracks now r k h \<Longrightarrow> kept r2 r \<Longrightarrow> arrival r2 k = arrival r k \<Longrightarrow> tracks now r2 k h"
  using kept_parameters [of r2 r] by (simp add: tracks_def split: option.splits)

lemma tracks_granted:
  assumes "tracks now r k h" "grant now r k' r2"
  shows "tracks now r2 k (if k = k' then now # h else h)"
proof -
  note same = kept_parameters [OF grant_kept [OF assms(2)]]
  show ?thesis
  proof (cases "k = k'")
    case True
    then show ?thesis using assms(1) same grant_within [OF assms(2)] grant_moves [OF assms(2)]
      by (auto simp: tracks_def split: option.splits)
  next
    case False
    then show ?thesis using assms(1) same grant_others [OF assms(2) False]
      by (auto simp: tracks_def split: option.splits)
  qed
qed

end

interpretation rate: cell_rate r_interval r_tau stored same_rule granted
  by unfold_locales (auto simp: granted_def same_rule_def base_of_def)

section \<open>Histories of requests\<close>

fun run_checks :: "limit_carg \<Rightarrow> (http_reply_data \<times> nat) list \<Rightarrow> header_error + bool list \<times> limit_carg" where
  "run_checks carg [] = Inr ([], carg)"
| "run_checks carg ((h, now) # reqs) =
     (case http_limit_check carg (Some h) now of
        Inl e \<Rightarrow> Inl e
      | Inr (allow, retry, carg') \<Rightarrow>
          (case run_checks carg' reqs of Inl e \<Rightarrow> Inl e | Inr (allows, carg'') \<Rightarrow> Inr (allow # allows, carg'')))"

text \<open>The times of the allowed requests that a rule counts for a client.\<close>

definition counted :: "limit_carg \<Rightarrow> http_limit_rule \<Rightarrow> string option \<Rightarrow> http_reply_data \<Rightarrow> bool" where
  "counted carg r k h \<longleftrightarrow> applies r h \<and> http_limit_build_id carg h r = Inr (Some k)"

definition counted_times :: "limit_carg \<Rightarrow> http_limit_rule \<Rightarrow> string option \<Rightarrow> (http_reply_data \<times> nat) list \<Rightarrow> bool list \<Rightarrow> nat list" where
  "counted_times carg r k reqs allows = [now. ((h, now), allow) \<leftarrow> zip reqs allows, allow \<and> counted carg r k h]"

lemma value_peer: "c_peer carg' = c_peer carg \<Longrightarrow> http_limit_value carg' h key = http_limit_value carg h key"
  by (simp add: http_limit_value_def split: key_kind.splits)

lemma id_loop_peer:
  assumes "c_peer carg' = c_peer carg"
  shows "id_loop carg' h keys ident = id_loop carg h keys ident"
proof (induction keys arbitrary: ident)
  case (Cons key keys)
  then show ?case using value_peer [OF assms, of h key] by (simp split: sum.splits option.splits)
qed simp

lemma build_id_cong: "c_peer carg' = c_peer carg \<Longrightarrow> same_rule r' r \<Longrightarrow> http_limit_build_id carg' h r' = http_limit_build_id carg h r"
  using id_loop_peer [of carg' carg h "r_keys r" "[]"] by (simp add: http_limit_build_id_def same_rule_def)

lemma counted_cong: "c_peer carg' = c_peer carg \<Longrightarrow> same_rule r' r \<Longrightarrow> counted carg' r' k h = counted carg r k h"
  using build_id_cong [of carg' carg r' r h] by (simp add: counted_def applies_def same_rule_def split: option.splits)

lemma counted_times_cong:
  "c_peer carg' = c_peer carg \<Longrightarrow> same_rule r' r \<Longrightarrow> counted_times carg' r' k reqs allows = counted_times carg r k reqs allows"
  using counted_cong [of carg' carg r' r k] by (simp add: counted_times_def)

text \<open>Requests with times from \<open>t\<close> on, in order.\<close>

fun in_order :: "nat \<Rightarrow> (http_reply_data \<times> nat) list \<Rightarrow> bool" where
  "in_order t [] = True"
| "in_order t ((h, now) # reqs) \<longleftrightarrow> t \<le> now \<and> now < 2 ^ 63 \<and> in_order now reqs"

fun last_time :: "nat \<Rightarrow> (http_reply_data \<times> nat) list \<Rightarrow> nat" where
  "last_time t [] = t"
| "last_time t ((h, now) # reqs) = last_time now reqs"

lemma check_acts_ok: "check_acts now allow carg h lim lim' \<Longrightarrow> limiter_ok t lim \<Longrightarrow> limiter_ok now lim'"
  by (auto simp: check_acts_def limiter_ok_def in_set_conv_nth)

lemma run_checks_Cons:
  assumes "run_checks carg ((h, now) # reqs) = Inr (allows, carg'')"
  obtains allow retry carg' allows' where "http_limit_check carg (Some h) now = Inr (allow, retry, carg')"
    "run_checks carg' reqs = Inr (allows', carg'')" "allows = allow # allows'"
  using assms by (auto split: sum.splits prod.splits)

lemma run_checks_ok:
  assumes "run_checks carg reqs = Inr (allows, carg')" "in_order t reqs" "c_limit carg = Some lim" "limiter_ok t lim"
  shows "\<exists>lim'. c_limit carg' = Some lim' \<and> limiter_ok (last_time t reqs) lim' \<and> c_peer carg' = c_peer carg"
  using assms
proof (induction reqs arbitrary: carg allows t lim)
  case (Cons req reqs)
  obtain h now where req: "req = (h, now)" by fastforce
  obtain allow retry carg1 allows1 where s: "http_limit_check carg (Some h) now = Inr (allow, retry, carg1)"
    "run_checks carg1 reqs = Inr (allows1, carg')" using Cons.prems(1) unfolding req by (rule run_checks_Cons)
  have t: "t \<le> now" "now < 2 ^ 63" "in_order now reqs" using Cons.prems(2) req by auto
  obtain lim1 where l: "c_limit carg1 = Some lim1" "c_peer carg1 = c_peer carg" "check_acts now allow carg h lim lim1"
    using check_spec [OF Cons.prems(4) t(1,2) Cons.prems(3) s(1)] by blast
  show ?case using Cons.IH [OF s(2) t(3) l(1) check_acts_ok [OF l(3) Cons.prems(4)]] l(2) req by simp
qed auto

lemma run_checks_tracks:
  assumes "run_checks carg reqs = Inr (allows, carg')" "in_order t reqs" "c_limit carg = Some lim" "limiter_ok t lim"
    and "i < length (l_rules lim)" "rate.tracks t (l_rules lim ! i) k past"
  shows "conform (r_interval (l_rules lim ! i)) (r_tau (l_rules lim ! i)) (rev (counted_times carg (l_rules lim ! i) k reqs allows) @ past)"
  using assms
proof (induction reqs arbitrary: carg allows t lim past)
  case (Cons req reqs)
  obtain h now where req: "req = (h, now)" by fastforce
  obtain allow retry carg1 allows1 where s: "http_limit_check carg (Some h) now = Inr (allow, retry, carg1)"
    "run_checks carg1 reqs = Inr (allows1, carg')" "allows = allow # allows1"
    using Cons.prems(1) unfolding req by (rule run_checks_Cons)
  have t: "t \<le> now" "now < 2 ^ 63" "in_order now reqs" using Cons.prems(2) req by auto
  obtain lim1 where l: "c_limit carg1 = Some lim1" "c_peer carg1 = c_peer carg" "check_acts now allow carg h lim lim1"
    using check_spec [OF Cons.prems(4) t(1,2) Cons.prems(3) s(1)] by blast
  let ?r = "l_rules lim ! i" and ?r1 = "l_rules lim1 ! i"
  have i: "i < length (l_rules lim1)" using l(3) Cons.prems(5) by (simp add: check_acts_def)
  have same: "same_rule ?r1 ?r" using l(3) Cons.prems(5) by (simp add: check_acts_def)
  have act: "if allow \<and> applies ?r h then \<exists>k. http_limit_build_id carg h ?r = Inr (Some k) \<and> granted now ?r k ?r1 else stored ?r1 = stored ?r"
    using l(3) Cons.prems(5) unfolding check_acts_def by blast
  have tr: "rate.tracks now ?r k past" by (rule rate.tracks_mono [OF Cons.prems(6) t(1)])
  define past1 where "past1 = (if allow \<and> counted carg ?r k h then now # past else past)"
  have "rate.tracks now ?r1 k past1"
  proof (cases "allow \<and> applies ?r h")
    case True
    then obtain k' where k': "http_limit_build_id carg h ?r = Inr (Some k')" "granted now ?r k' ?r1"
      using act by auto
    have "past1 = (if k = k' then now # past else past)" using True k'(1) by (auto simp: past1_def counted_def)
    then show ?thesis using rate.tracks_granted [OF tr k'(2)] by simp
  next
    case False
    then have "stored ?r1 = stored ?r" using act by presburger
    moreover have "past1 = past" using False by (auto simp: past1_def counted_def)
    ultimately show ?thesis using rate.tracks_same [OF tr same] by simp
  qed
  then have "conform (r_interval ?r1) (r_tau ?r1) (rev (counted_times carg1 ?r1 k reqs allows1) @ past1)"
    using Cons.IH [OF s(2) t(3) l(1) check_acts_ok [OF l(3) Cons.prems(4)] i] by blast
  moreover have "rev (counted_times carg ?r k (req # reqs) allows) @ past = rev (counted_times carg ?r k reqs allows1) @ past1"
    by (simp add: counted_times_def past1_def req s(3))
  ultimately show ?case using same counted_times_cong [OF l(2) same] by (simp add: same_rule_def)
qed (simp add: counted_times_def rate.tracks_conform)

section \<open>Identities\<close>

definition netstring :: "string \<Rightarrow> string" where
  "netstring s = print_dec (length s) @ '':'' @ s"

lemma netstring_inj:
  assumes "netstring s @ r = netstring s' @ r'"
  shows "s = s' \<and> r = r'"
proof -
  have d: "takeWhile isdigit (netstring s @ r) = print_dec (length s)" "dropWhile isdigit (netstring s @ r) = CHR '':'' # s @ r" for s r
  proof -
    have c: "\<not> isdigit CHR '':''" by (simp add: isdigit_def)
    have a: "\<forall>x \<in> set (print_dec (length s)). isdigit x" using print_dec_digits digit_char_class(4) by blast
    then show "takeWhile isdigit (netstring s @ r) = print_dec (length s)" using c by (simp add: netstring_def)
    show "dropWhile isdigit (netstring s @ r) = CHR '':'' # s @ r" using a c by (simp add: netstring_def)
  qed
  have "print_dec (length s) = print_dec (length s')" using d(1) [of s r] d(1) [of s' r'] assms by simp
  then have "length s = length s'" by (metis digits_value_dec)
  moreover have "s @ r = s' @ r'" using d(2) [of s r] d(2) [of s' r'] assms by simp
  ultimately show ?thesis by simp
qed

lemma id_add_netstring: "http_limit_id_add buf s = buf @ netstring s"
  by (simp add: http_limit_id_add_def netstring_def)

lemma id_loop_prefix:
  "id_loop carg h keys ident = Inr (Some x) \<Longrightarrow> \<exists>y. x = ident @ y \<and> (\<forall>ident'. id_loop carg h keys ident' = Inr (Some (ident' @ y)))"
proof (induction keys arbitrary: ident)
  case (Cons key keys)
  then obtain v l where v: "http_limit_value carg h key = Inr v" "http_limit_key_label key = Some l"
    "id_loop carg h keys (ident @ netstring l @ netstring v) = Inr (Some x)"
    by (auto simp: id_add_netstring split: sum.splits option.splits)
  obtain y where "x = (ident @ netstring l @ netstring v) @ y" "\<forall>ident'. id_loop carg h keys ident' = Inr (Some (ident' @ y))"
    using Cons.IH [OF v(3)] by blast
  then show ?case using v(1,2) by (intro exI [of _ "netstring l @ netstring v @ y"]) (simp add: id_add_netstring)
qed simp

lemma id_loop_values:
  assumes "id_loop c1 h1 keys ident = Inr (Some x)" "id_loop c2 h2 keys ident = Inr (Some x)"
  shows "\<forall>key \<in> set keys. http_limit_value c1 h1 key = http_limit_value c2 h2 key"
  using assms
proof (induction keys arbitrary: ident)
  case (Cons key keys)
  obtain v1 l where v1: "http_limit_value c1 h1 key = Inr v1" "http_limit_key_label key = Some l"
    "id_loop c1 h1 keys (ident @ netstring l @ netstring v1) = Inr (Some x)"
    using Cons.prems(1) by (auto simp: id_add_netstring split: sum.splits option.splits)
  obtain v2 where v2: "http_limit_value c2 h2 key = Inr v2"
    "id_loop c2 h2 keys (ident @ netstring l @ netstring v2) = Inr (Some x)"
    using Cons.prems(2) v1(2) by (auto simp: id_add_netstring split: sum.splits option.splits)
  obtain y1 y2 where "x = (ident @ netstring l @ netstring v1) @ y1" "x = (ident @ netstring l @ netstring v2) @ y2"
    using id_loop_prefix [OF v1(3)] id_loop_prefix [OF v2(2)] by blast
  then have "netstring v1 @ y1 = netstring v2 @ y2" by simp
  then have "v1 = v2" using netstring_inj by blast
  then show ?case using Cons.IH [OF v1(3)] v1(1) v2 by simp
qed simp

lemma label_fits: "length (k_name key) \<le> 128 \<Longrightarrow> http_limit_key_label key \<noteq> None"
  by (simp add: http_limit_key_label_def Let_def split: key_kind.splits)

lemma id_loop_total: "\<forall>key \<in> set keys. length (k_name key) \<le> 128 \<Longrightarrow> id_loop carg h keys ident \<noteq> Inr None"
proof (induction keys arbitrary: ident)
  case (Cons key keys)
  then show ?case using label_fits [of key] by (auto split: sum.splits option.splits)
qed simp

lemma build_id_total: "rule_ok t r \<Longrightarrow> http_limit_build_id carg h r \<noteq> Inr None"
  using id_loop_total [of "r_keys r" carg h "[]"]
  by (auto simp: http_limit_build_id_def rule_ok_def rule_shape_def split: sum.splits option.splits)

section \<open>Waiting\<close>

lemma matching_cong: "map r_path rules' = map r_path rules \<Longrightarrow> matching rules' uri = matching rules uri"
proof -
  assume p: "map r_path rules' = map r_path rules"
  then have "length rules' = length rules" by (metis length_map)
  moreover have "r_path (rules' ! i) = r_path (rules ! i)" if "i < length rules" for i
    using p that by (metis \<open>length rules' = length rules\<close> nth_map)
  ultimately show ?thesis unfolding matching_def by (metis (no_types, lifting) atLeastLessThan_iff filter_cong set_upt)
qed

lemma check_single:
  assumes "c_limit carg = Some lim" "hr_uri h = Some uri" "matching (l_rules lim) uri = [i]"
    and "http_limit_build_id carg h (l_rules lim ! i) = Inr (Some k)" "http_limit_rule_plan (l_rules lim ! i) k now = (r1, plan)"
  shows "http_limit_check carg (Some h) now =
    (if p_deny plan then Inr (False, if p_retry plan \<noteq> 0 then p_retry plan else 1, carg\<lparr>c_limit := Some (lim\<lparr>l_rules := (l_rules lim)[i := r1]\<rparr>)\<rparr>)
     else Inr (True, 1, carg\<lparr>c_limit := Some (lim\<lparr>l_rules := commit_loop ((l_rules lim)[i := r1]) [(i, plan)] now\<rparr>)\<rparr>))"
  using assms by (simp add: http_limit_check_def Let_def)

lemma single_retry_admits:
  assumes ok: "c_limit carg = Some lim" "limiter_ok t lim" "t \<le> now" and uri: "hr_uri h = Some uri" "matching (l_rules lim) uri = [i]"
    and deny: "http_limit_check carg (Some h) now = Inr (False, retry, carg')" and wait: "now + retry * 1000000000 \<le> now'" "now' < 2 ^ 63"
  shows "1 \<le> retry \<and> (\<exists>carg''. http_limit_check carg' (Some h) now' = Inr (True, 1, carg''))"
proof -
  let ?r = "l_rules lim ! i"
  have max: "length (l_rules lim) \<le> HTTP_LIMIT_RULES_MAX" using ok(2) by (simp add: limiter_ok_def)
  have "i \<in> set (matching (l_rules lim) uri)" using uri(2) by simp
  then have i: "i < length (l_rules lim)" using matching_eq(3) [OF max, of i uri] by blast
  then have r: "rule_ok t ?r" using ok(2) by (simp add: limiter_ok_def)
  have n: "now < 2 ^ 63" using wait by linarith
  obtain k where k: "http_limit_build_id carg h ?r = Inr (Some k)"
    using deny ok(1) uri build_id_total [OF r, of carg h]
    by (cases "http_limit_build_id carg h ?r") (auto simp: http_limit_check_def Let_def)
  obtain r1 plan where p: "http_limit_rule_plan ?r k now = (r1, plan)" by fastforce
  have d: "p_deny plan" using check_single [OF ok(1) uri k p] deny by (auto split: if_splits)
  have pos: "1 \<le> p_retry plan" by (rule retry_positive [OF r ok(3) n build_id_none [OF k] p d])
  have c: "retry = p_retry plan" "carg' = carg\<lparr>c_limit := Some (lim\<lparr>l_rules := (l_rules lim)[i := r1]\<rparr>)\<rparr>"
    using check_single [OF ok(1) uri k p] deny d pos by auto
  have keeps: "same_rule r1 ?r" using plan_keeps [OF r ok(3) n build_id_none [OF k] p] by simp
  have "r_path r1 = r_path ?r" using keeps by (simp add: same_rule_def)
  then have "map r_path ((l_rules lim)[i := r1]) = map r_path (l_rules lim)" using i by (metis list_update_id map_update nth_map)
  then have "matching ((l_rules lim)[i := r1]) uri = [i]" using uri(2) matching_cong by metis
  then have m: "matching (l_rules (lim\<lparr>l_rules := (l_rules lim)[i := r1]\<rparr>)) uri = [i]" by simp
  have at: "l_rules (lim\<lparr>l_rules := (l_rules lim)[i := r1]\<rparr>) ! i = r1" using i by simp
  have k': "http_limit_build_id carg' h r1 = Inr (Some k)" using build_id_cong [OF _ keeps, of carg' carg] c(2) k by simp
  have "\<not> p_deny (snd (http_limit_rule_plan r1 k now'))"
    using retry_admits [OF r ok(3) n build_id_none [OF k] p d _ wait(2)] wait(1) c(1) by simp
  then obtain r2 plan' where p': "http_limit_rule_plan r1 k now' = (r2, plan')" "\<not> p_deny plan'" by (cases "http_limit_rule_plan r1 k now'") auto
  show ?thesis
    using check_single [of carg' "lim\<lparr>l_rules := (l_rules lim)[i := r1]\<rparr>", OF _ uri(1) m, unfolded at, OF _ k' p'(1)] p'(2) c pos by simp
qed

lemma rate_div:
  assumes "0 < (interval :: nat)" "m * interval \<le> d + b * interval"
  shows "m \<le> b + d div interval"
proof -
  have "m = m * interval div interval" using assms(1) by simp
  also have "\<dots> \<le> (d + b * interval) div interval" by (rule div_le_mono [OF assms(2)])
  also have "\<dots> = b + d div interval" using assms(1) by simp
  finally show ?thesis .
qed

section \<open>Properties\<close>

definition sample_rule :: http_limit_rule where
  "sample_rule = \<lparr>r_path = ''/'', r_rps = 1, r_interval = 1000000000, r_tau = 0, r_keys = [], r_tat = 0, r_have = False, r_slots = []\<rparr>"

definition sample_carg :: "http_limit_rule \<Rightarrow> limit_carg" where
  "sample_carg r = \<lparr>c_peer = [], c_limit = Some \<lparr>l_rules = [r], l_ref = 1\<rparr>, c_config_error = False\<rparr>"

abbreviation bare_carg :: limit_carg where
  "bare_carg \<equiv> \<lparr>c_peer = [], c_limit = None, c_config_error = False\<rparr>"

abbreviation sample_json :: json where
  "sample_json \<equiv> JArray [JObject [(''path'', JString ''/''), (''rps'', JInt 1)]]"

abbreviation sample_request :: http_reply_data where
  "sample_request \<equiv> \<lparr>hr_headers = None, hr_headers_size = 0, hr_uri = Some ''/''\<rparr>"

lemma sample_installed: "http_limit_apply_json json_model bare_carg (Some sample_json) = (1, sample_carg sample_rule, None)"
proof -
  have "http_limit_path_ok ''/''" by (simp add: http_limit_path_ok_def peek_def HTTP_LIMIT_PATH_MAX_def)
  then have "http_limit_rule_fill json_model (JObject [(''path'', JString ''/''), (''rps'', JInt 1)]) = Some sample_rule"
    by (simp add: http_limit_rule_fill_def json_model_def rule_keys_def HTTP_LIMIT_RPS_MAX_def u64_def sample_rule_def)
  then have "fill_loop json_model [JObject [(''path'', JString ''/''), (''rps'', JInt 1)]] [] False = ([sample_rule], False)"
    by (simp add: HTTP_LIMIT_RULES_MAX_def)
  moreover have "json_array_elems json_model (JArray js) = Some js" for js by (simp add: json_model_def)
  ultimately show ?thesis by (simp add: http_limit_apply_json_def sample_carg_def)
qed

lemma sample_check:
  "http_limit_check (sample_carg (sample_rule\<lparr>r_tat := tat, r_have := b\<rparr>)) (Some sample_request) now =
     (case http_limit_gcra_plan tat b now 1000000000 0 of
        Inl retry \<Rightarrow> Inr (False, if retry \<noteq> 0 then retry else 1, sample_carg (sample_rule\<lparr>r_tat := tat, r_have := b\<rparr>))
      | Inr t \<Rightarrow> Inr (True, 1, sample_carg (sample_rule\<lparr>r_tat := t, r_have := True\<rparr>)))"
proof -
  have "matching [sample_rule\<lparr>r_tat := tat, r_have := b\<rparr>] ''/'' = [0]"
    by (simp add: matching_def sample_rule_def http_limit_path_match_def HTTP_LIMIT_RULES_MAX_def)
  then show ?thesis
    by (simp add: http_limit_check_def sample_carg_def http_limit_build_id_def http_limit_rule_plan_def http_limit_rule_commit_def
        sample_rule_def Let_def gcra_into_def split: sum.splits)
qed

lemma sample_rule_eq: "sample_rule = sample_rule\<lparr>r_tat := 0, r_have := False\<rparr>"
  by (simp add: sample_rule_def)

lemma sample_checks:
  "http_limit_check (sample_carg sample_rule) (Some sample_request) 0 = Inr (True, 1, sample_carg (sample_rule\<lparr>r_tat := 1000000000, r_have := True\<rparr>))"
  "http_limit_check (sample_carg (sample_rule\<lparr>r_tat := 1000000000, r_have := True\<rparr>)) (Some sample_request) 0 =
     Inr (False, 1, sample_carg (sample_rule\<lparr>r_tat := 1000000000, r_have := True\<rparr>))"
  "http_limit_check (sample_carg (sample_rule\<lparr>r_tat := 1000000000, r_have := True\<rparr>)) (Some sample_request) 1000000000 =
     Inr (True, 1, sample_carg (sample_rule\<lparr>r_tat := 2000000000, r_have := True\<rparr>))"
proof -
  show "http_limit_check (sample_carg sample_rule) (Some sample_request) 0 = Inr (True, 1, sample_carg (sample_rule\<lparr>r_tat := 1000000000, r_have := True\<rparr>))"
    using sample_check [of False 0 0] sample_rule_eq by (simp add: http_limit_gcra_plan_def u64_def)
qed (simp_all add: sample_check http_limit_gcra_plan_def u64_def)





text \<open>
  C18: a refused request that only one rule applies to gets a wait of at least one second, and when it is
  repeated after that wait with no other request in between it is allowed, whether the rate or a full table
  of clients was the reason.
\<close>

theorem http_limit_retry_admits:
  assumes "http_limit_apply_json J carg0 (Some j) = (n, carg1, old)" "0 < n"
    and "run_checks carg1 reqs = Inr (allows, carg)" "in_order 0 reqs" "last_time 0 reqs \<le> now"
    and "c_limit carg = Some lim" "hr_uri h = Some uri" "matching (l_rules lim) uri = [i]"
    and "http_limit_check carg (Some h) now = Inr (False, retry, carg')" "now + retry * 1000000000 \<le> now'" "now' < 2 ^ 63"
  shows "1 \<le> retry \<and> (\<exists>carg''. http_limit_check carg' (Some h) now' = Inr (True, 1, carg''))"
proof -
  obtain lim1 where "installed carg1 lim1" by (rule apply_json_installs [OF assms(1,2)])
  then have "c_limit carg1 = Some lim1" "limiter_ok 0 lim1" by (auto simp: installed_def limiter_ok_def fresh_rule_def)
  then have "limiter_ok (last_time 0 reqs) lim" using run_checks_ok [OF assms(3,4)] assms(6) by fastforce
  then show ?thesis using single_retry_admits [OF assms(6) _ assms(5,7-11)] by blast
qed

theorem http_limit_retry_admits_witness:
  "\<exists>carg''. http_limit_check (sample_carg (sample_rule\<lparr>r_tat := 1000000000, r_have := True\<rparr>)) (Some sample_request) 1000000000 = Inr (True, 1, carg'')"
proof -
  let ?r = "sample_rule\<lparr>r_tat := 1000000000, r_have := True\<rparr>"
  have run: "run_checks (sample_carg sample_rule) [(sample_request, 0)] = Inr ([True], sample_carg ?r)" by (simp add: sample_checks)
  have m: "matching (l_rules \<lparr>l_rules = [?r], l_ref = 1\<rparr>) ''/'' = [0]"
    by (simp add: matching_def sample_rule_def http_limit_path_match_def HTTP_LIMIT_RULES_MAX_def)
  have "1 \<le> (1 :: nat) \<and> (\<exists>carg''. http_limit_check (sample_carg ?r) (Some sample_request) 1000000000 = Inr (True, 1, carg''))"
    by (rule http_limit_retry_admits [OF sample_installed _ run _ _ _ _ m sample_checks(2)]) (simp_all add: sample_carg_def)
  then show ?thesis by simp
qed



end
