(* ===== verification/Maglev.thy ===== *)
theory Maglev
  imports Prelude
begin

text \<open>
  The lookup table that spreads keys over the servers of a cluster
  (\<open>src/src/dstructures/maglev.c\<close>): the two hashes, the test for a usable table size, building a new
  table beside the one in use, filling it by the preference lists of the nodes, and lookups.

  A node is any value; a NULL node is None.  Memory from \<open>malloc\<close> holds None until it is written.
  Reading such memory, reading outside an array, following a NULL pointer and a loop that does not end are
  the values of \<open>maglev_fault\<close>.  The square root of the mathematical library is the argument \<open>sqr\<close>.
  The lock is left out; the names of the nodes are kept.
\<close>

section \<open>Definitions\<close>

definition MAGLEV_HASH_SIZE_MIN :: int where "MAGLEV_HASH_SIZE_MIN = 211"
definition MAGLEV_HASH_SIZE_MAX :: int where "MAGLEV_HASH_SIZE_MAX = 40009"

datatype maglev_fault = Null_pointer | Bad_read | Endless

record 'a maglev_service =
  ms_node_size :: nat
  ms_add_index :: nat
  ms_info :: "'a option list"
  ms_names :: "string option list"
  ms_buckets :: nat
  ms_entry :: "'a option list option"
  ms_perm :: "nat option list"
  ms_next :: "nat list"

record 'a maglev_lookup_hash =
  mh_use :: int
  mh_lock :: bool
  mh_item :: "'a maglev_service list"
  mh_temp :: "nat option"

definition empty_service :: "'a maglev_service" where
  "empty_service = \<lparr>ms_node_size = 0, ms_add_index = 0, ms_info = [], ms_names = [], ms_buckets = 0, ms_entry = None, ms_perm = [], ms_next = []\<rparr>"

definition maglev_init :: "'a maglev_lookup_hash" where
  "maglev_init = \<lparr>mh_use = - 1, mh_lock = False, mh_item = [empty_service, empty_service], mh_temp = None\<rparr>"

subsection \<open>Hashes\<close>

text \<open>A byte as a signed character, widened to 32 bits.\<close>

definition schar :: "char \<Rightarrow> 32 word" where
  "schar c = (let n = of_char c :: int in word_of_int (if n \<ge> 128 then n - 256 else n))"

fun djb_loop :: "32 word \<Rightarrow> string \<Rightarrow> 32 word" where
  "djb_loop hash [] = hash"
| "djb_loop hash (c # cs) = djb_loop ((push_bit 5 hash + hash) + schar c) cs"

definition DJBHash :: "string \<Rightarrow> 32 word" where
  "DJBHash str = djb_loop 5381 str AND NOT (push_bit 31 1)"

definition murmur_tail :: "32 word \<Rightarrow> string \<Rightarrow> 32 word" where
  "murmur_tail h data =
     (case data of
        [a, b, c] \<Rightarrow> (((h XOR push_bit 16 (schar c)) XOR push_bit 8 (schar b)) XOR schar a) * 0x5bd1e995
      | [a, b] \<Rightarrow> ((h XOR push_bit 8 (schar b)) XOR schar a) * 0x5bd1e995
      | [a] \<Rightarrow> (h XOR schar a) * 0x5bd1e995
      | _ \<Rightarrow> h)"

fun murmur_loop :: "32 word \<Rightarrow> string \<Rightarrow> 32 word" where
  "murmur_loop h (a # b # c # d # data) =
     (let k = ((schar a OR push_bit 8 (schar b)) OR push_bit 16 (schar c)) OR push_bit 24 (schar d);
          k = k * 0x5bd1e995;
          k = k XOR drop_bit 24 k;
          k = k * 0x5bd1e995
      in murmur_loop (h * 0x5bd1e995 XOR k) data)"
| "murmur_loop h data = murmur_tail h data"

text \<open>The bytes are the first \<open>len\<close> of \<open>data\<close>.\<close>

definition murmur2 :: "string \<Rightarrow> 32 word" where
  "murmur2 data =
     (let h = murmur_loop (0 XOR word_of_nat (length data)) data;
          h = h XOR drop_bit 13 h;
          h = h * 0x5bd1e995
      in h XOR drop_bit 15 h)"

subsection \<open>Table sizes\<close>

function odd_divisor :: "int \<Rightarrow> int \<Rightarrow> int \<Rightarrow> bool" where
  "odd_divisor n j i = (if i \<le> j then if n mod i = 0 then True else odd_divisor n j (i + 2) else False)"
  by pat_completeness auto

termination odd_divisor
  by (relation "measure (\<lambda>(n, j, i). nat (j + 1 - i))") auto

declare odd_divisor.simps [simp del]

definition is_maglev_prime :: "(int \<Rightarrow> int) \<Rightarrow> int \<Rightarrow> bool" where
  "is_maglev_prime sqr n =
     (if n < MAGLEV_HASH_SIZE_MIN then False
      else if n > MAGLEV_HASH_SIZE_MAX then False
      else if n mod 2 = 0 then False
      else \<not> odd_divisor n (sqr (n + 1)) 3)"

subsection \<open>Building a table\<close>

definition create_service_unit :: "(int \<Rightarrow> int) \<Rightarrow> 'a maglev_service \<Rightarrow> nat \<Rightarrow> nat \<Rightarrow> 'a maglev_service option" where
  "create_service_unit sqr s node_size hash_bucket_size =
     (if \<not> is_maglev_prime sqr (int hash_bucket_size) then None
      else Some \<lparr>ms_node_size = node_size, ms_add_index = 0, ms_info = replicate node_size None,
                 ms_names = replicate node_size None, ms_buckets = hash_bucket_size,
                 ms_entry = Some (replicate hash_bucket_size None),
                 ms_perm = replicate (node_size * hash_bucket_size) None, ms_next = replicate node_size 0\<rparr>)"

definition maglev_loopup_item_clean :: "'a maglev_lookup_hash \<Rightarrow> nat \<Rightarrow> 'a maglev_lookup_hash" where
  "maglev_loopup_item_clean psrv index =
     (if ms_entry (mh_item psrv ! index) = None then psrv
      else psrv\<lparr>mh_item := (mh_item psrv)[index := empty_service]\<rparr>)"

definition spare_index :: "'a maglev_lookup_hash \<Rightarrow> nat" where
  "spare_index psrv = nat ((mh_use psrv + 1) mod 2)"

definition maglev_update_service :: "(int \<Rightarrow> int) \<Rightarrow> 'a maglev_lookup_hash \<Rightarrow> nat \<Rightarrow> nat \<Rightarrow> int \<times> 'a maglev_lookup_hash" where
  "maglev_update_service sqr psrv node_size hash_bucket_size =
     (if mh_lock psrv then (- 1, psrv)
      else let i = spare_index psrv;
               p1 = maglev_loopup_item_clean (psrv\<lparr>mh_lock := True\<rparr>) i
           in case create_service_unit sqr (mh_item p1 ! i) node_size hash_bucket_size of
                None \<Rightarrow> (- 1, p1\<lparr>mh_temp := None\<rparr>)
              | Some s \<Rightarrow> (0, p1\<lparr>mh_item := (mh_item p1)[i := s], mh_temp := Some i\<rparr>))"

definition permutation_row :: "nat \<Rightarrow> string \<Rightarrow> nat list" where
  "permutation_row M name =
     (let offset = unat (DJBHash name) mod M;
          skip = unat (murmur2 name) mod (M - 1) + 1
      in map (\<lambda>j. ((offset + j * skip) mod 2 ^ 32) mod M) [0..<M])"

definition write_row :: "'b list \<Rightarrow> nat \<Rightarrow> 'b list \<Rightarrow> 'b list" where
  "write_row arr at row = take at arr @ row @ drop (at + length row) arr"

definition maglev_add_node :: "'a maglev_lookup_hash \<Rightarrow> string \<Rightarrow> 'a option \<Rightarrow> maglev_fault + int \<times> 'a maglev_lookup_hash" where
  "maglev_add_node psrv name info =
     (if \<not> mh_lock psrv then Inr (- 2, psrv)
      else case mh_temp psrv of
        None \<Rightarrow> Inl Null_pointer
      | Some t \<Rightarrow>
          let s = mh_item psrv ! t; M = ms_buckets s; i = ms_add_index s
          in if i \<ge> ms_node_size s then Inr (- 1, psrv)
             else let s1 = s\<lparr>ms_info := (ms_info s)[i := info], ms_names := (ms_names s)[i := Some name],
                             ms_perm := write_row (ms_perm s) (i * M) (map Some (permutation_row M name)), ms_add_index := i + 1\<rparr>
                  in Inr (0, psrv\<lparr>mh_item := (mh_item psrv)[t := s1]\<rparr>))"

text \<open>The first free bucket on the list of node \<open>i\<close> from position \<open>nx\<close> on, and its position.\<close>

function probe :: "nat option list \<Rightarrow> nat \<Rightarrow> 'a option list \<Rightarrow> nat \<Rightarrow> maglev_fault + nat \<times> nat" where
  "probe perm base entry nx =
     (if base + nx \<ge> length perm then Inl Bad_read
      else case perm ! (base + nx) of
             None \<Rightarrow> Inl Bad_read
           | Some c \<Rightarrow> if c \<ge> length entry then Inl Bad_read
                       else if entry ! c \<noteq> None then probe perm base entry (nx + 1)
                       else Inr (c, nx))"
  by pat_completeness auto

termination probe
  by (relation "measure (\<lambda>(perm, base, entry, nx). length perm - (base + nx))") auto

declare probe.simps [simp del]

text \<open>
  One pass of the \<open>for\<close> loop over the nodes \<open>is\<close>, with the table, the positions and the count of
  filled buckets; the first component says that the table is full.
\<close>

type_synonym 'a fill_state = "'a option list \<times> nat list \<times> nat"

fun fill_round :: "'a maglev_service \<Rightarrow> nat list \<Rightarrow> 'a fill_state \<Rightarrow> maglev_fault + bool \<times> 'a fill_state" where
  "fill_round s [] st = Inr (False, st)"
| "fill_round s (i # nodes) (entry, nexts, n) =
     (case probe (ms_perm s) (i * ms_buckets s) entry (nexts ! i) of
        Inl e \<Rightarrow> Inl e
      | Inr (c, nx) \<Rightarrow>
          let st = (entry[c := ms_info s ! i], nexts[i := nx + 1], n + 1)
          in if n + 1 = ms_buckets s then Inr (True, st) else fill_round s nodes st)"

fun fill_rounds :: "nat \<Rightarrow> 'a maglev_service \<Rightarrow> 'a fill_state \<Rightarrow> maglev_fault + 'a fill_state" where
  "fill_rounds 0 s st = Inl Endless"
| "fill_rounds (Suc fuel) s st =
     (case fill_round s [0..<ms_node_size s] st of
        Inl e \<Rightarrow> Inl e
      | Inr (full, st') \<Rightarrow> if full then Inr st' else fill_rounds fuel s st')"

definition maglev_create_ht :: "nat \<Rightarrow> 'a maglev_lookup_hash \<Rightarrow> maglev_fault + 'a maglev_lookup_hash" where
  "maglev_create_ht fuel psrv =
     (if \<not> mh_lock psrv then Inr psrv
      else case mh_temp psrv of
        None \<Rightarrow> Inl Null_pointer
      | Some t \<Rightarrow>
          let s = mh_item psrv ! t
          in case fill_rounds fuel s (replicate (ms_buckets s) None, replicate (ms_node_size s) 0, 0) of
               Inl e \<Rightarrow> Inl e
             | Inr (entry, nexts, n) \<Rightarrow>
                 Inr (psrv\<lparr>mh_item := (mh_item psrv)[t := s\<lparr>ms_entry := Some entry, ms_next := nexts\<rparr>]\<rparr>))"

definition maglev_swap_entry :: "'a maglev_lookup_hash \<Rightarrow> 'a maglev_lookup_hash" where
  "maglev_swap_entry psrv =
     (if \<not> mh_lock psrv then psrv
      else psrv\<lparr>mh_use := (mh_use psrv + 1) mod 2, mh_temp := None, mh_lock := False\<rparr>)"

definition maglev_lookup_node :: "'a maglev_lookup_hash \<Rightarrow> string \<Rightarrow> 'a option" where
  "maglev_lookup_node psrv key =
     (if mh_use psrv < 0 then None
      else let s = mh_item psrv ! nat (mh_use psrv)
           in if ms_buckets s = 0 then None
              else case ms_entry s of None \<Rightarrow> None | Some entry \<Rightarrow> entry ! (unat (murmur2 key) mod ms_buckets s))"

subsection \<open>The table of a cluster\<close>

text \<open>
  What the configuration of a cluster (\<open>src/src/cluster/push.c\<close>) does with its sorted servers.  The
  search for a table size may not end: None when its fuel is used up.
\<close>

fun size_search :: "nat \<Rightarrow> (int \<Rightarrow> int) \<Rightarrow> nat \<Rightarrow> nat option" where
  "size_search 0 sqr hash_size = None"
| "size_search (Suc fuel) sqr hash_size =
     (let hash_size = hash_size + 1
      in if is_maglev_prime sqr (int hash_size) then Some hash_size else size_search fuel sqr hash_size)"

fun add_nodes :: "'a maglev_lookup_hash \<Rightarrow> (string \<times> 'a) list \<Rightarrow> maglev_fault + 'a maglev_lookup_hash" where
  "add_nodes psrv [] = Inr psrv"
| "add_nodes psrv ((name, info) # nodes) =
     (case maglev_add_node psrv name (Some info) of Inl e \<Rightarrow> Inl e | Inr (rc, psrv') \<Rightarrow> add_nodes psrv' nodes)"

text \<open>\<^term>\<open>Inr None\<close>: the cluster is dropped.\<close>

definition cluster_table :: "nat \<Rightarrow> (int \<Rightarrow> int) \<Rightarrow> (string \<times> 'a) list \<Rightarrow> maglev_fault + 'a maglev_lookup_hash option" where
  "cluster_table fuel sqr servers =
     (case size_search fuel sqr (length servers * 100) of
        None \<Rightarrow> Inl Endless
      | Some hash_size \<Rightarrow>
          (case maglev_update_service sqr maglev_init (length servers) hash_size of (rc, p) \<Rightarrow>
             if rc \<noteq> 0 then Inr None
             else case add_nodes p servers of
                    Inl e \<Rightarrow> Inl e
                  | Inr p1 \<Rightarrow> (case maglev_create_ht fuel p1 of
                                  Inl e \<Rightarrow> Inl e
                                | Inr p2 \<Rightarrow> Inr (Some (maglev_swap_entry p2)))))"

section \<open>Sizes\<close>

definition no_divisor :: "int \<Rightarrow> bool" where
  "no_divisor n \<longleftrightarrow> 1 < n \<and> (\<forall>d. 1 < d \<longrightarrow> d < n \<longrightarrow> \<not> d dvd n)"

text \<open>What is needed of the square root: it is rounded down.\<close>

definition sqr_floor :: "(int \<Rightarrow> int) \<Rightarrow> int \<Rightarrow> bool" where
  "sqr_floor sqr n \<longleftrightarrow> 0 \<le> sqr n \<and> sqr n * sqr n \<le> n \<and> n < (sqr n + 1) * (sqr n + 1)"

lemma odd_divisor_iff: "odd i \<Longrightarrow> odd_divisor n j i \<longleftrightarrow> (\<exists>d. odd d \<and> i \<le> d \<and> d \<le> j \<and> d dvd n)"
proof (induction n j i rule: odd_divisor.induct)
  case (1 n j i)
  show ?case
  proof (cases "i \<le> j \<and> n mod i \<noteq> 0")
    case True
    then have u: "odd_divisor n j i = odd_divisor n j (i + 2)" by (simp add: odd_divisor.simps [of n j i])
    have far: "i + 2 \<le> d" if "odd d" "i \<le> d" "d dvd n" for d
    proof -
      have "d \<noteq> i" using that(3) True by (auto simp: mod_eq_0_iff_dvd)
      moreover have "d \<noteq> i + 1" using that(1) 1(2) by auto
      ultimately show ?thesis using that(2) by linarith
    qed
    have "odd (i + 2)" using 1(2) by simp
    then have "odd_divisor n j (i + 2) \<longleftrightarrow> (\<exists>d. odd d \<and> i + 2 \<le> d \<and> d \<le> j \<and> d dvd n)"
      by (rule 1(1) [OF conjunct1 [OF True] conjunct2 [OF True]])
    moreover have "(odd d \<and> i \<le> d \<and> d \<le> j \<and> d dvd n) \<longleftrightarrow> (odd d \<and> i + 2 \<le> d \<and> d \<le> j \<and> d dvd n)" for d
      using far [of d] by auto
    ultimately show ?thesis using u by simp
  next
    case False
    then show ?thesis using 1(2) by (auto simp: odd_divisor.simps [of n j i] mod_eq_0_iff_dvd)
  qed
qed
lemma small_divisor:
  assumes "sqr_floor sqr (n + 1)" "3 < n" "1 < d" "d < n" "d dvd n"
  obtains e where "1 < e" "e < n" "e dvd n" "e \<le> sqr (n + 1)"
proof -
  let ?j = "sqr (n + 1)"
  obtain e where e: "n = d * e" using assms(5) by blast
  have p: "0 < e" "e < n" "1 < e" using e assms(2-4) by (auto simp: mult_less_cancel_left1 zero_less_mult_iff)
  have "d \<le> ?j \<or> e \<le> ?j"
  proof (rule ccontr)
    assume "\<not> (d \<le> ?j \<or> e \<le> ?j)"
    then have a: "?j + 1 \<le> d" "?j + 1 \<le> e" by auto
    have j: "0 \<le> ?j" "n + 1 < (?j + 1) * (?j + 1)" using assms(1) by (auto simp: sqr_floor_def)
    have "(?j + 1) * (?j + 1) \<le> d * e" by (rule mult_mono [OF a]) (use j assms(3) in auto)
    then show False using e j(2) by linarith
  qed
  then show ?thesis
  proof
    assume "d \<le> ?j"
    then show ?thesis using that [of d] assms(3-5) by blast
  next
    assume "e \<le> ?j"
    then show ?thesis using that [of e] p e by (metis dvd_triv_right)
  qed
qed

lemma is_maglev_prime_iff:
  assumes "sqr_floor sqr (n + 1)"
  shows "is_maglev_prime sqr n \<longleftrightarrow> MAGLEV_HASH_SIZE_MIN \<le> n \<and> n \<le> MAGLEV_HASH_SIZE_MAX \<and> no_divisor n"
proof (cases "MAGLEV_HASH_SIZE_MIN \<le> n \<and> n \<le> MAGLEV_HASH_SIZE_MAX")
  case True
  then have n: "211 \<le> n" by (simp add: MAGLEV_HASH_SIZE_MIN_def)
  let ?j = "sqr (n + 1)"
  have j: "?j < n"
  proof (rule ccontr)
    assume "\<not> ?j < n"
    then have "n * n \<le> ?j * ?j" using n by (intro mult_mono) auto
    then have "n * n \<le> n + 1" using assms by (simp add: sqr_floor_def)
    moreover have "211 * n \<le> n * n" using n by (intro mult_right_mono) auto
    ultimately show False using n by linarith
  qed
  show ?thesis
  proof (cases "even n")
    case even: True
    then have "\<not> no_divisor n" using n unfolding no_divisor_def by (intro notI) (auto dest: spec [of _ 2])
    then show ?thesis using even True by (simp add: is_maglev_prime_def even_iff_mod_2_eq_zero)
  next
    case odd: False
    have "odd_divisor n ?j 3 \<longleftrightarrow> \<not> no_divisor n"
    proof
      assume "odd_divisor n ?j 3"
      then obtain d where "3 \<le> d" "d \<le> ?j" "d dvd n" using odd_divisor_iff [of 3 n ?j] by auto
      then show "\<not> no_divisor n" using j by (fastforce simp: no_divisor_def)
    next
      assume "\<not> no_divisor n"
      then obtain d where d: "1 < d" "d < n" "d dvd n" using n by (auto simp: no_divisor_def)
      obtain e where e: "1 < e" "e < n" "e dvd n" "e \<le> ?j" using small_divisor [OF assms _ d] n by auto
      have "odd e" using e(3) odd by (meson dvd_trans)
      then have "3 \<le> e" using e(1) by (cases "e = 2") auto
      then show "odd_divisor n ?j 3" using odd_divisor_iff [of 3 n ?j] \<open>odd e\<close> e(3,4) by auto
    qed
    moreover have "n mod 2 \<noteq> 0" using odd by (simp add: even_iff_mod_2_eq_zero)
    ultimately show ?thesis using True by (simp add: is_maglev_prime_def)
  qed
qed (auto simp: is_maglev_prime_def)

section \<open>Preference lists\<close>

lemma no_divisor_coprime:
  assumes "no_divisor (int M)" "0 < skip" "skip < M"
  shows "coprime skip M"
proof -
  let ?g = "gcd skip M"
  have g: "?g dvd M" "?g \<le> skip" "0 < ?g" using assms(2) by (auto intro: dvd_imp_le)
  have "int ?g dvd int M" "int ?g < int M" using g assms(3) by (simp_all only: int_dvd_int_iff of_nat_less_iff)
  then have "\<not> 1 < int ?g" using assms(1) unfolding no_divisor_def by blast
  then have "?g = 1" using g(3) by linarith
  then show ?thesis by (simp add: coprime_iff_gcd_eq_1)
qed

lemma step_inj:
  assumes "coprime skip M" "a < M" "b < M" "(off + a * skip) mod M = (off + b * skip) mod (M :: nat)"
  shows "a = b"
proof -
  have w: "x = y" if "x \<le> y" "y < M" "(off + x * skip) mod M = (off + y * skip) mod M" for x y
  proof -
    have "M dvd (off + y * skip) - (off + x * skip)" using that(3) by (metis mod_eq_dvd_iff_nat add_le_mono le_refl mult_le_mono1 that(1))
    then have "M dvd (y - x) * skip" by (simp add: diff_mult_distrib)
    then have "M dvd y - x" using assms(1) by (metis coprime_commute coprime_dvd_mult_left_iff)
    then show ?thesis using that(1,2) by (metis diff_is_0_eq le_antisym nat_dvd_not_less less_imp_diff_less not_gr_zero)
  qed
  show ?thesis using w [of a b] w [of b a] assms(2-4) by (metis nat_le_linear)
qed

lemma row_permutes:
  assumes "no_divisor (int M)" "M \<le> 40009"
  shows "length (permutation_row M name) = M" "set (permutation_row M name) = {0..<M}"
proof -
  define off skip where "off = unat (DJBHash name) mod M" and "skip = unat (murmur2 name) mod (M - 1) + 1"
  have M: "1 < M" using assms(1) by (simp add: no_divisor_def)
  then have b: "off < M" "0 < skip" "skip < M"
    using mod_less_divisor [of "M - 1" "unat (murmur2 name)"] by (auto simp: off_def skip_def less_diff_conv)
  have small: "off + j * skip < 2 ^ 32" if "j < M" for j
  proof -
    have "j * skip \<le> 40009 * 40009" using that b(3) assms(2) by (intro mult_le_mono) auto
    then show ?thesis using b(1) assms(2) by simp
  qed
  have row: "permutation_row M name = map (\<lambda>j. (off + j * skip) mod M) [0..<M]"
    unfolding permutation_row_def Let_def off_def [symmetric] skip_def [symmetric] using small by simp
  show l: "length (permutation_row M name) = M" by (simp add: row)
  have "inj_on (\<lambda>j. (off + j * skip) mod M) {0..<M}"
  proof (rule inj_onI)
    fix x y
    assume "x \<in> {0..<M}" "y \<in> {0..<M}" "(off + x * skip) mod M = (off + y * skip) mod M"
    then show "x = y" using step_inj [OF no_divisor_coprime [OF assms(1) b(2,3)], of x y off] by simp
  qed
  then have "card (set (permutation_row M name)) = M" by (simp add: row card_image)
  moreover have "set (permutation_row M name) \<subseteq> {0..<M}" using M by (auto simp: row)
  ultimately show "set (permutation_row M name) = {0..<M}" by (metis card_atLeastLessThan card_subset_eq diff_zero finite_atLeastLessThan)
qed

section \<open>Filling a table\<close>

lemma concat_rows:
  assumes "\<forall>r \<in> set rows. length r = M"
  shows "length (concat rows) = length rows * M" "i < length rows \<Longrightarrow> t < M \<Longrightarrow> concat rows ! (i * M + t) = rows ! i ! t"
proof -
  show "length (concat rows) = length rows * M" using assms by (induction rows) auto
  show "i < length rows \<Longrightarrow> t < M \<Longrightarrow> concat rows ! (i * M + t) = rows ! i ! t"
    using assms
  proof (induction rows arbitrary: i)
    case (Cons r rows)
    then show ?case by (cases i) (auto simp: nth_append)
  qed simp
qed

lemma count_list_update:
  "i < length xs \<Longrightarrow> count_list (xs[i := y]) z + (if xs ! i = z then 1 else 0) = count_list xs z + (if y = z then 1 else 0)"
proof (induction xs arbitrary: i)
  case (Cons x xs)
  show ?case
  proof (cases i)
    case (Suc k)
    then show ?thesis using Cons.IH [of k] Cons.prems by (simp split: if_splits)
  qed simp
qed simp

definition size_ok :: "nat \<Rightarrow> bool" where
  "size_ok M \<longleftrightarrow> no_divisor (int M) \<and> M \<le> 40009"

text \<open>The buckets before position \<open>p\<close> of the list of a node are taken.\<close>

definition taken :: "'a option list \<Rightarrow> nat list \<Rightarrow> nat \<Rightarrow> bool" where
  "taken entry row p \<longleftrightarrow> (\<forall>t < p. t < length row \<longrightarrow> entry ! (row ! t) \<noteq> None)"

definition share :: "nat \<Rightarrow> nat \<Rightarrow> nat \<Rightarrow> nat" where
  "share n N i = n div N + (if i < n mod N then 1 else 0)"

lemma share_Suc: "0 < N \<Longrightarrow> i < N \<Longrightarrow> share (Suc n) N i = share n N i + (if i = n mod N then 1 else 0)"
  by (auto simp: share_def div_Suc mod_Suc)

text \<open>
  What filling a table needs of the lists of preferences: for a size that fits, the list of each node names every
  bucket once.
\<close>

locale preference_lists =
  fixes fits :: "nat \<Rightarrow> bool" and row :: "nat \<Rightarrow> 'n \<Rightarrow> nat list"
  assumes row_length: "fits M \<Longrightarrow> length (row M name) = M"
    and row_buckets: "fits M \<Longrightarrow> set (row M name) = {0..<M}"
begin

text \<open>A service to which all nodes were added.\<close>

definition ready :: "nat \<Rightarrow> 'n list \<Rightarrow> 'a list \<Rightarrow> 'a maglev_service \<Rightarrow> bool" where
  "ready M names infos s \<longleftrightarrow> ms_node_size s = length infos \<and> ms_buckets s = M \<and> ms_info s = map Some infos \<and>
     length names = length infos \<and> ms_perm s = map Some (concat (map (row M) names))"

lemma ready_perm:
  assumes "ready M names infos s" "fits M" "i < length infos" "t < M"
  shows "i * M + t < length (ms_perm s)" "ms_perm s ! (i * M + t) = Some (row M (names ! i) ! t)"
proof -
  let ?rows = "map (row M) names"
  have r: "\<forall>r \<in> set ?rows. length r = M" using row_length assms(2) by auto
  have "Suc i * M \<le> length infos * M" using assms(3) by (intro mult_le_mono1) simp
  moreover have l: "length (concat ?rows) = length infos * M" using concat_rows(1) [OF r] assms(1) by (simp add: ready_def)
  ultimately show "i * M + t < length (ms_perm s)" using assms(1,4) by (simp add: ready_def)
  then show "ms_perm s ! (i * M + t) = Some (row M (names ! i) ! t)"
    using assms concat_rows(2) [OF r, of i t] by (simp add: ready_def)
qed

lemma probe_finds:
  assumes "ready M names infos s" "fits M" "i < length infos" "length entry = M" "c0 < M" "entry ! c0 = None"
    and "taken entry (row M (names ! i)) nx"
  shows "\<exists>c nx'. probe (ms_perm s) (i * M) entry nx = Inr (c, nx') \<and> c < M \<and> entry ! c = None \<and>
    nx' < M \<and> c = row M (names ! i) ! nx' \<and> taken entry (row M (names ! i)) nx'"
  using assms(7)
proof (induction "M - nx" arbitrary: nx rule: less_induct)
  case less
  let ?row = "row M (names ! i)"
  have row: "length ?row = M" "set ?row = {0..<M}" using row_length row_buckets assms(2) by auto
  obtain t0 where t0: "t0 < M" "?row ! t0 = c0" using row assms(5) by (metis atLeastLessThan_iff in_set_conv_nth zero_le)
  have nx: "nx \<le> t0" using less.prems t0 row(1) assms(6) by (auto simp: taken_def not_less [symmetric])
  then have n: "nx < M" using t0(1) by simp
  note p = ready_perm [OF assms(1-3) n]
  have c: "?row ! nx < M" using row n by (metis atLeastLessThan_iff nth_mem)
  have probe: "probe (ms_perm s) (i * M) entry nx =
      (if entry ! (?row ! nx) \<noteq> None then probe (ms_perm s) (i * M) entry (nx + 1) else Inr (?row ! nx, nx))"
    using p c assms(4) by (simp add: probe.simps [of "ms_perm s" "i * M" entry nx])
  show ?case
  proof (cases "entry ! (?row ! nx) = None")
    case True
    then show ?thesis using probe c n less.prems by auto
  next
    case False
    then have "taken entry ?row (nx + 1)" using less.prems by (auto simp: taken_def less_Suc_eq)
    then show ?thesis using less.hyps [of "nx + 1"] n probe False by simp
  qed
qed

definition fill_inv :: "nat \<Rightarrow> 'n list \<Rightarrow> 'a list \<Rightarrow> 'a fill_state \<Rightarrow> bool" where
  "fill_inv M names infos st \<longleftrightarrow> (case st of (entry, nexts, n) \<Rightarrow>
     length entry = M \<and> length nexts = length infos \<and> count_list entry None + n = M \<and>
     set entry \<subseteq> insert None (Some ` set infos) \<and>
     (\<forall>i < length infos. count_list entry (Some (infos ! i)) = share n (length infos) i) \<and>
     (\<forall>i < length infos. taken entry (row M (names ! i)) (nexts ! i)))"

lemma fill_step:
  assumes "ready M names infos s" "fits M" "distinct infos" "infos \<noteq> []" "fill_inv M names infos (entry, nexts, n)" "n < M"
    and i: "i = n mod length infos"
  shows "\<exists>c nx. probe (ms_perm s) (i * M) entry (nexts ! i) = Inr (c, nx) \<and>
    fill_inv M names infos (entry[c := ms_info s ! i], nexts[i := nx + 1], n + 1)"
proof -
  have N: "0 < length infos" "i < length infos" using assms(4) i by auto
  have inv: "length entry = M" "length nexts = length infos" "count_list entry None + n = M" "set entry \<subseteq> insert None (Some ` set infos)"
    "\<And>i. i < length infos \<Longrightarrow> count_list entry (Some (infos ! i)) = share n (length infos) i"
    "\<And>i. i < length infos \<Longrightarrow> taken entry (row M (names ! i)) (nexts ! i)"
    using assms(5) by (auto simp: fill_inv_def)
  have "None \<in> set entry" using inv(3) assms(6) by (metis add_0 count_list_0_iff less_irrefl)
  then obtain c0 where "c0 < M" "entry ! c0 = None" using inv(1) by (metis in_set_conv_nth)
  then obtain c nx where c: "probe (ms_perm s) (i * M) entry (nexts ! i) = Inr (c, nx)" "c < M" "entry ! c = None" "nx < M"
    "c = row M (names ! i) ! nx" "taken entry (row M (names ! i)) nx"
    using probe_finds [OF assms(1,2) N(2) inv(1) _ _ inv(6) [OF N(2)]] by blast
  have info: "ms_info s ! i = Some (infos ! i)" using assms(1) N(2) by (simp add: ready_def)
  let ?e = "entry[c := Some (infos ! i)]"
  have cnt: "count_list ?e z + (if None = z then 1 else 0) = count_list entry z + (if Some (infos ! i) = z then 1 else 0)" for z
    using count_list_update [of c entry "Some (infos ! i)" z] c(2,3) inv(1) by simp
  have keep: "taken ?e xs p" if "taken entry xs p" for xs p
  proof -
    have "?e ! j \<noteq> None" if "entry ! j \<noteq> None" for j using that c(2) inv(1) by (cases "j = c") auto
    then show ?thesis using that by (simp add: taken_def)
  qed
  have "count_list ?e None + (n + 1) = M" using cnt [of None] inv(3) by simp
  moreover have "count_list ?e (Some (infos ! j)) = share (n + 1) (length infos) j" if "j < length infos" for j
    using cnt [of "Some (infos ! j)"] inv(5) [OF that] share_Suc [OF N(1) that, of n] i that N(2) assms(3)
    by (auto simp: nth_eq_iff_index_eq)
  moreover have "taken ?e (row M (names ! j)) ((nexts[i := nx + 1]) ! j)" if "j < length infos" for j
  proof (cases "j = i")
    case True
    have "taken ?e (row M (names ! i)) (nx + 1)"
      using keep [OF c(6)] c(2,5) inv(1) by (auto simp: taken_def less_Suc_eq)
    then show ?thesis using True N(2) inv(2) by simp
  next
    case False
    then show ?thesis using keep [OF inv(6) [OF that]] by simp
  qed
  moreover have "set ?e \<subseteq> insert None (Some ` set infos)"
    using inv(4) N(2) set_update_subset_insert [of entry c "Some (infos ! i)"] by auto
  ultimately have "fill_inv M names infos (?e, nexts[i := nx + 1], n + 1)" using inv(1,2) by (simp add: fill_inv_def)
  then show ?thesis using c(1) info by auto
qed

lemma fill_round_ok:
  assumes "ready M names infos s" "fits M" "distinct infos" "infos \<noteq> []" "fill_inv M names infos (entry, nexts, n)" "n < M"
    and "k \<le> length infos" "n mod length infos = k mod length infos"
  shows "\<exists>full e' x' n'. fill_round s [k..<length infos] (entry, nexts, n) = Inr (full, e', x', n') \<and> fill_inv M names infos (e', x', n') \<and>
    (if full then n' = M else n' < M \<and> n' = n + (length infos - k))"
  using assms(5-8)
proof (induction "length infos - k" arbitrary: k entry nexts n)
  case 0
  then show ?case by (intro exI [of _ False]) simp
next
  case (Suc d)
  let ?N = "length infos"
  have k: "k < ?N" using Suc(2) by simp
  then have u: "[k..<?N] = k # [Suc k..<?N]" by (simp add: upt_conv_Cons)
  have i: "k = n mod ?N" using Suc.prems(4) k by simp
  obtain c nx where c: "probe (ms_perm s) (k * M) entry (nexts ! k) = Inr (c, nx)"
    "fill_inv M names infos (entry[c := ms_info s ! k], nexts[k := nx + 1], n + 1)"
    using fill_step [OF assms(1-4) Suc.prems(1,2) i] by blast
  have M: "ms_buckets s = M" using assms(1) by (simp add: ready_def)
  show ?case
  proof (cases "n + 1 = M")
    case True
    then show ?thesis using u c M by (auto simp: Let_def)
  next
    case False
    have "(n + 1) mod ?N = Suc k mod ?N" using Suc.prems(4) by (simp add: mod_Suc)
    then show ?thesis using Suc(1) [of "Suc k" _ _ "n + 1", OF _ c(2)] Suc(2) Suc.prems(2) k False u c M by (fastforce simp: Let_def)
  qed
qed

lemma fill_rounds_ok:
  assumes "ready M names infos s" "fits M" "distinct infos" "infos \<noteq> []"
    and "fill_inv M names infos (entry, nexts, n)" "n < M" "n mod length infos = 0" "M \<le> n + fuel"
  shows "\<exists>e' x'. fill_rounds fuel s (entry, nexts, n) = Inr (e', x', M) \<and> fill_inv M names infos (e', x', M)"
  using assms(5-8)
proof (induction fuel arbitrary: entry nexts n)
  case (Suc fuel)
  let ?N = "length infos"
  have N: "ms_node_size s = ?N" "0 < ?N" using assms(1,4) by (auto simp: ready_def)
  obtain full e' x' n' where r: "fill_round s [0..<?N] (entry, nexts, n) = Inr (full, e', x', n')" "fill_inv M names infos (e', x', n')"
    "if full then n' = M else n' < M \<and> n' = n + (?N - 0)"
    using fill_round_ok [OF assms(1-4) Suc.prems(1,2), of 0] Suc.prems(3) by auto
  show ?case
  proof (cases full)
    case True
    then show ?thesis using r N by simp
  next
    case False
    then have "\<exists>e x. fill_rounds fuel s (e', x', n') = Inr (e, x, M) \<and> fill_inv M names infos (e, x, M)"
      using Suc.IH [OF r(2)] r(3) Suc.prems(3,4) N(2) by simp
    then show ?thesis using r(1) N(1) False by simp
  qed
qed simp

lemma fill_start:
  assumes "infos \<noteq> []"
  shows "fill_inv M names infos (replicate M None, replicate (length infos) 0, 0)"
proof -
  have "count_list (replicate M (None :: 'a option)) None = M" "\<And>a. count_list (replicate M (None :: 'a option)) (Some a) = 0"
    by (induction M) auto
  then show ?thesis using assms by (auto simp: fill_inv_def share_def taken_def)
qed

lemma fill_inv_full:
  assumes "fill_inv M names infos (entry, nexts, M)"
  shows "length entry = M" "set entry \<subseteq> Some ` set infos" "i < length infos \<Longrightarrow> count_list entry (Some (infos ! i)) = share M (length infos) i"
  using assms by (auto simp: fill_inv_def count_list_0_iff)

end

interpretation maglev_rows: preference_lists size_ok permutation_row
  by unfold_locales (auto simp: row_permutes size_ok_def)

section \<open>Adding nodes\<close>

definition building :: "nat \<Rightarrow> nat \<Rightarrow> (string \<times> 'a) list \<Rightarrow> 'a maglev_service \<Rightarrow> bool" where
  "building N M added s \<longleftrightarrow> length added \<le> N \<and> ms_node_size s = N \<and> ms_buckets s = M \<and> ms_add_index s = length added \<and>
     ms_info s = map (Some \<circ> snd) added @ replicate (N - length added) None \<and>
     ms_perm s = map Some (concat (map (permutation_row M \<circ> fst) added)) @ replicate ((N - length added) * M) None"

definition added_service :: "'a maglev_service \<Rightarrow> string \<Rightarrow> 'a \<Rightarrow> 'a maglev_service" where
  "added_service s name info =
     s\<lparr>ms_info := (ms_info s)[ms_add_index s := Some info], ms_names := (ms_names s)[ms_add_index s := Some name],
       ms_perm := write_row (ms_perm s) (ms_add_index s * ms_buckets s) (map Some (permutation_row (ms_buckets s) name)),
       ms_add_index := ms_add_index s + 1\<rparr>"

lemma building_add:
  assumes "building N M added s" "length added < N" "size_ok M"
  shows "building N M (added @ [(name, info)]) (added_service s name info)"
proof -
  let ?k = "length added" and ?row = "permutation_row M name"
  let ?rows = "concat (map (permutation_row M \<circ> fst) added)"
  have len: "length ?row = M" using row_permutes(1) assms(3) by (simp add: size_ok_def)
  have rows: "length ?rows = ?k * M"
    using concat_rows(1) [of "map (permutation_row M \<circ> fst) added" M] row_permutes(1) assms(3) by (simp add: size_ok_def)
  obtain d where d: "N - ?k = Suc d" "N - Suc ?k = d" using assms(2) by (metis Suc_diff_Suc)
  have "write_row (map Some ?rows @ replicate (Suc d * M) None) (?k * M) (map Some ?row) = map Some (?rows @ ?row) @ replicate (d * M) None"
    using rows len by (simp add: write_row_def)
  moreover have "(map (Some \<circ> snd) added @ replicate (Suc d) None)[?k := Some info] = map (Some \<circ> snd) (added @ [(name, info)]) @ replicate d None"
    by (simp add: list_update_append)
  ultimately show ?thesis using assms(1,2) d by (simp add: building_def added_service_def)
qed

text \<open>A table under construction in slot \<open>t\<close>.\<close>

definition under_way :: "'a maglev_lookup_hash \<Rightarrow> nat \<Rightarrow> bool" where
  "under_way p t \<longleftrightarrow> mh_lock p \<and> mh_temp p = Some t \<and> t < length (mh_item p)"

lemma add_node_building:
  assumes "under_way p t" "building N M added (mh_item p ! t)" "length added < N"
  shows "maglev_add_node p name (Some info) = Inr (0, p\<lparr>mh_item := (mh_item p)[t := added_service (mh_item p ! t) name info]\<rparr>)"
  using assms by (simp add: maglev_add_node_def under_way_def building_def added_service_def Let_def)

lemma add_nodes_building:
  assumes "under_way p t" "building N M added (mh_item p ! t)" "length added + length nodes = N" "size_ok M"
  shows "\<exists>s. add_nodes p nodes = Inr (p\<lparr>mh_item := (mh_item p)[t := s]\<rparr>) \<and> building N M (added @ nodes) s"
  using assms
proof (induction p nodes arbitrary: added rule: add_nodes.induct)
  case (1 p)
  then show ?case by (intro exI [of _ "mh_item p ! t"]) simp
next
  case (2 p name info nodes)
  let ?s = "added_service (mh_item p ! t) name info"
  let ?p = "p\<lparr>mh_item := (mh_item p)[t := ?s]\<rparr>"
  have l: "length added < N" using 2(4) by simp
  note a = add_node_building [OF 2(2,3) l, of name info]
  have u: "under_way ?p t" "mh_item ?p ! t = ?s" using 2(2) by (auto simp: under_way_def)
  have "building N M (added @ [(name, info)]) (mh_item ?p ! t)" unfolding u(2) by (rule building_add [OF 2(3) l 2(5)])
  then have "\<exists>s. add_nodes ?p nodes = Inr (?p\<lparr>mh_item := (mh_item ?p)[t := s]\<rparr>) \<and> building N M ((added @ [(name, info)]) @ nodes) s"
    by (rule 2(1) [OF a refl u(1) _ _ 2(5)]) (use 2(4) in simp)
  then show ?case using a by auto
qed

lemma building_ready: "building (length nodes) M nodes s \<Longrightarrow> maglev_rows.ready M (map fst nodes) (map snd nodes) s"
  by (simp add: building_def maglev_rows.ready_def comp_def)

lemma create_unit_building:
  assumes "create_service_unit sqr s N M = Some s'"
  shows "building N M [] s'" "ms_entry s' \<noteq> None" "is_maglev_prime sqr (int M)"
  using assms by (auto simp: create_service_unit_def building_def split: if_splits)

section \<open>States\<close>

definition maglev_ok :: "'a maglev_lookup_hash \<Rightarrow> bool" where
  "maglev_ok p \<longleftrightarrow> length (mh_item p) = 2 \<and> mh_use p \<in> {- 1, 0, 1} \<and> (\<forall>t. mh_temp p = Some t \<longrightarrow> t = spare_index p)"

lemma spare_range: "maglev_ok p \<Longrightarrow> spare_index p < 2" "maglev_ok p \<Longrightarrow> 0 \<le> mh_use p \<Longrightarrow> nat (mh_use p) \<noteq> spare_index p"
  by (auto simp: maglev_ok_def spare_index_def)

text \<open>Changing the spare table is not seen by a lookup.\<close>

lemma spare_hidden:
  assumes "maglev_ok p" "mh_use p' = mh_use p" "mh_item p' = (mh_item p)[spare_index p := s]"
  shows "maglev_lookup_node p' = maglev_lookup_node p"
proof
  fix key
  show "maglev_lookup_node p' key = maglev_lookup_node p key"
    using spare_range(2) [OF assms(1)] assms(2,3) by (cases "mh_use p < 0") (auto simp: maglev_lookup_node_def Let_def)
qed

lemma update_effect:
  assumes "maglev_ok p" "\<not> mh_lock p"
  obtains s where "maglev_update_service sqr p N M =
      (case create_service_unit sqr s N M of
         None \<Rightarrow> (- 1, p\<lparr>mh_lock := True, mh_item := (mh_item p)[spare_index p := s], mh_temp := None\<rparr>)
       | Some s' \<Rightarrow> (0, p\<lparr>mh_lock := True, mh_item := (mh_item p)[spare_index p := s'], mh_temp := Some (spare_index p)\<rparr>))"
proof -
  have t: "spare_index p < length (mh_item p)" using spare_range(1) [OF assms(1)] assms(1) by (simp add: maglev_ok_def)
  have i: "spare_index (p\<lparr>mh_lock := True\<rparr>) = spare_index p" by (simp add: spare_index_def)
  show ?thesis
  proof (cases "ms_entry (mh_item p ! spare_index p) = None")
    case True
    then show ?thesis using assms(2) t that [of "mh_item p ! spare_index p"]
      by (auto simp: maglev_update_service_def maglev_loopup_item_clean_def Let_def split: option.splits)
  next
    case False
    then show ?thesis using assms(2) t that [of empty_service]
      by (auto simp: maglev_update_service_def maglev_loopup_item_clean_def Let_def split: option.splits)
  qed
qed

lemma size_ok_prime: "sqr_floor sqr (int M + 1) \<Longrightarrow> is_maglev_prime sqr (int M) \<Longrightarrow> size_ok M \<and> 0 < M"
  using is_maglev_prime_iff [of sqr "int M"] by (auto simp: size_ok_def MAGLEV_HASH_SIZE_MAX_def MAGLEV_HASH_SIZE_MIN_def)

lemma create_ht_fills:
  assumes "under_way p t" "maglev_rows.ready M names infos (mh_item p ! t)" "size_ok M" "distinct infos" "infos \<noteq> []" "0 < M" "M \<le> fuel"
  shows "\<exists>entry nexts. maglev_create_ht fuel p =
      Inr (p\<lparr>mh_item := (mh_item p)[t := (mh_item p ! t)\<lparr>ms_entry := Some entry, ms_next := nexts\<rparr>]\<rparr>) \<and>
      maglev_rows.fill_inv M names infos (entry, nexts, M)"
proof -
  let ?s = "mh_item p ! t"
  have s: "ms_buckets ?s = M" "ms_node_size ?s = length infos" using assms(2) by (auto simp: maglev_rows.ready_def)
  obtain e x where "fill_rounds fuel ?s (replicate M None, replicate (length infos) 0, 0) = Inr (e, x, M)" "maglev_rows.fill_inv M names infos (e, x, M)"
    using maglev_rows.fill_rounds_ok [OF assms(2-5) maglev_rows.fill_start [OF assms(5)], of fuel] assms(6,7) by auto
  then show ?thesis using assms(1) s by (auto simp: maglev_create_ht_def under_way_def Let_def)
qed

section \<open>Properties\<close>

text \<open>
  C7: a rebuilt table is complete and balanced.  For a prime size and nodes that are different, building a table
  beside the one in use, adding the nodes, filling it and swapping it in succeeds within as many rounds as
  there are buckets; then every lookup returns one of the nodes, and the numbers of buckets two nodes own
  differ by at most one.
\<close>

theorem maglev_table_balanced:
  assumes "maglev_ok p" "\<not> mh_lock p" "sqr_floor sqr (int M + 1)" "is_maglev_prime sqr (int M)"
    and "nodes \<noteq> []" "distinct (map snd nodes)" "M \<le> fuel"
  shows "\<exists>p1 p2 p3 entry. maglev_update_service sqr p (length nodes) M = (0, p1) \<and> add_nodes p1 nodes = Inr p2 \<and>
     maglev_create_ht fuel p2 = Inr p3 \<and> ms_entry (mh_item p3 ! spare_index p) = Some entry \<and> length entry = M \<and>
     (\<forall>i < length nodes. count_list entry (Some (snd (nodes ! i))) = M div length nodes + (if i < M mod length nodes then 1 else 0)) \<and>
     (\<forall>key. maglev_lookup_node (maglev_swap_entry p3) key \<in> Some ` snd ` set nodes)"
proof -
  let ?t = "spare_index p" and ?N = "length nodes"
  have M: "size_ok M" "0 < M" using size_ok_prime [OF assms(3,4)] by auto
  have t: "?t < length (mh_item p)" using spare_range(1) [OF assms(1)] assms(1) by (simp add: maglev_ok_def)
  obtain s where s: "maglev_update_service sqr p ?N M =
      (case create_service_unit sqr s ?N M of
         None \<Rightarrow> (- 1, p\<lparr>mh_lock := True, mh_item := (mh_item p)[?t := s], mh_temp := None\<rparr>)
       | Some s' \<Rightarrow> (0, p\<lparr>mh_lock := True, mh_item := (mh_item p)[?t := s'], mh_temp := Some ?t\<rparr>))"
    using update_effect [OF assms(1,2)] by blast
  obtain s1 where s1: "create_service_unit sqr s ?N M = Some s1" using assms(4) by (auto simp: create_service_unit_def)
  define p1 where "p1 = p\<lparr>mh_lock := True, mh_item := (mh_item p)[?t := s1], mh_temp := Some ?t\<rparr>"
  have u1: "maglev_update_service sqr p ?N M = (0, p1)" "under_way p1 ?t" "mh_item p1 ! ?t = s1"
    using s s1 t by (auto simp: p1_def under_way_def)
  obtain s2 where s2: "add_nodes p1 nodes = Inr (p1\<lparr>mh_item := (mh_item p1)[?t := s2]\<rparr>)" "building ?N M ([] @ nodes) s2"
    using add_nodes_building [OF u1(2), of ?N M "[]" nodes] create_unit_building(1) [OF s1] u1(3) M(1) by auto
  define p2 where "p2 = p1\<lparr>mh_item := (mh_item p1)[?t := s2]\<rparr>"
  have u2: "under_way p2 ?t" "mh_item p2 ! ?t = s2" using u1(2) by (auto simp: p2_def under_way_def)
  have r: "maglev_rows.ready M (map fst nodes) (map snd nodes) (mh_item p2 ! ?t)" using building_ready s2(2) u2(2) by auto
  obtain entry nexts where c: "maglev_create_ht fuel p2 = Inr (p2\<lparr>mh_item := (mh_item p2)[?t := s2\<lparr>ms_entry := Some entry, ms_next := nexts\<rparr>]\<rparr>)"
    "maglev_rows.fill_inv M (map fst nodes) (map snd nodes) (entry, nexts, M)"
    using create_ht_fills [OF u2(1) r M(1) assms(6) _ M(2) assms(7)] assms(5) u2(2) by auto
  define p3 where "p3 = p2\<lparr>mh_item := (mh_item p2)[?t := s2\<lparr>ms_entry := Some entry, ms_next := nexts\<rparr>]\<rparr>"
  note f = maglev_rows.fill_inv_full [OF c(2)]
  have at: "mh_item p3 ! ?t = s2\<lparr>ms_entry := Some entry, ms_next := nexts\<rparr>" using u2(1) by (simp add: p3_def under_way_def)
  have b: "ms_buckets s2 = M" using s2(2) by (simp add: building_def)
  have "mh_use p3 = mh_use p" "mh_lock p3" by (simp_all add: p3_def p2_def p1_def)
  then have sw: "mh_use (maglev_swap_entry p3) = int ?t" "mh_item (maglev_swap_entry p3) = mh_item p3"
    by (simp_all add: maglev_swap_entry_def spare_index_def)
  have "maglev_lookup_node (maglev_swap_entry p3) key \<in> Some ` snd ` set nodes" for key
  proof -
    have "maglev_lookup_node (maglev_swap_entry p3) key = entry ! (unat (murmur2 key) mod M)"
      unfolding maglev_lookup_node_def sw using at b M(2) by simp
    moreover have "entry ! (unat (murmur2 key) mod M) \<in> set entry" using f(1) M(2) by simp
    ultimately show ?thesis using f(2) by auto
  qed
  moreover have "ms_entry (mh_item p3 ! ?t) = Some entry" using at by simp
  moreover have "\<forall>i < ?N. count_list entry (Some (snd (nodes ! i))) = M div ?N + (if i < M mod ?N then 1 else 0)"
    using f(3) by (simp add: share_def)
  ultimately show ?thesis using u1(1) s2(1) c(1) f(1) unfolding p2_def [symmetric] p3_def [symmetric] by blast
qed

lemma prime_211:
  defines "sqr \<equiv> \<lambda>n :: int. if n = 212 then 14 else 0"
  shows "sqr_floor sqr (211 + 1)" "is_maglev_prime sqr 211"
proof -
  show "sqr_floor sqr (211 + 1)" by (simp add: sqr_floor_def sqr_def)
  have "\<not> odd_divisor 211 14 3" by (simp add: odd_divisor.simps)
  then show "is_maglev_prime sqr 211" by (simp add: is_maglev_prime_def sqr_def MAGLEV_HASH_SIZE_MIN_def MAGLEV_HASH_SIZE_MAX_def)
qed

lemma maglev_init_ok: "maglev_ok maglev_init" "\<not> mh_lock maglev_init"
  by (simp_all add: maglev_ok_def maglev_init_def)

theorem maglev_table_balanced_witness:
  "\<exists>p1 p2 p3. maglev_update_service (\<lambda>n. if n = 212 then 14 else 0) maglev_init 2 211 = (0, p1) \<and>
     add_nodes p1 [(''a'', 0 :: nat), (''b'', 1)] = Inr p2 \<and> maglev_create_ht 211 p2 = Inr p3 \<and>
     (\<forall>key. maglev_lookup_node (maglev_swap_entry p3) key \<in> {Some 0, Some 1})"
  using maglev_table_balanced [OF maglev_init_ok, of "\<lambda>n. if n = 212 then 14 else 0" 211 "[(''a'', 0 :: nat), (''b'', 1)]" 211] prime_211
  by (auto simp: numeral_2_eq_2)

text \<open>
  C34: with a square root that is rounded down, the test for a table size accepts exactly the primes between
  the smallest and the largest size, although it only tries odd divisors up to the root.
\<close>

theorem is_maglev_prime_correct:
  assumes "0 \<le> sqr (n + 1)" "sqr (n + 1) * sqr (n + 1) \<le> n + 1" "n + 1 < (sqr (n + 1) + 1) * (sqr (n + 1) + 1)"
  shows "is_maglev_prime sqr n \<longleftrightarrow> 211 \<le> n \<and> n \<le> 40009 \<and> (\<forall>d. 1 < d \<longrightarrow> d < n \<longrightarrow> \<not> d dvd n)"
  using is_maglev_prime_iff [of sqr n] assms
  by (auto simp: sqr_floor_def no_divisor_def MAGLEV_HASH_SIZE_MIN_def MAGLEV_HASH_SIZE_MAX_def)

theorem is_maglev_prime_correct_witness: "is_maglev_prime (\<lambda>_. 14) 211 \<longleftrightarrow> (\<forall>d. 1 < d \<longrightarrow> d < 211 \<longrightarrow> \<not> d dvd (211 :: int))"
  using is_maglev_prime_correct [of "\<lambda>_. 14" 211] by simp

lemma spare_change_hidden:
  assumes "maglev_ok p" "mh_use p' = mh_use p" "mh_item p' = (mh_item p)[spare_index p := s]" "mh_temp p' = None \<or> mh_temp p' = Some (spare_index p)"
  shows "maglev_ok p' \<and> maglev_lookup_node p' = maglev_lookup_node p"
  using spare_hidden [OF assms(1-3)] assms by (auto simp: maglev_ok_def spare_index_def)

lemma update_hidden:
  assumes "maglev_ok p" "maglev_update_service sqr p N M = (rc, p')"
  shows "maglev_ok p' \<and> maglev_lookup_node p' = maglev_lookup_node p"
proof (cases "mh_lock p")
  case True
  then show ?thesis using assms by (simp add: maglev_update_service_def)
next
  case False
  obtain s where s: "maglev_update_service sqr p N M =
    (case create_service_unit sqr s N M of
       None \<Rightarrow> (- 1, p\<lparr>mh_lock := True, mh_item := (mh_item p)[spare_index p := s], mh_temp := None\<rparr>)
     | Some s' \<Rightarrow> (0, p\<lparr>mh_lock := True, mh_item := (mh_item p)[spare_index p := s'], mh_temp := Some (spare_index p)\<rparr>))"
    using update_effect [OF assms(1) False] by blast
  show ?thesis
  proof (cases "create_service_unit sqr s N M")
    case None
    then show ?thesis using s assms(2) by (intro spare_change_hidden [OF assms(1), of p' s]) auto
  next
    case (Some s')
    then show ?thesis using s assms(2) by (intro spare_change_hidden [OF assms(1), of p' s']) auto
  qed
qed

lemma item_change_hidden:
  assumes "maglev_ok p" "p' = p \<or> (\<exists>t s. mh_temp p = Some t \<and> p' = p\<lparr>mh_item := (mh_item p)[t := s]\<rparr>)"
  shows "maglev_ok p' \<and> maglev_lookup_node p' = maglev_lookup_node p"
proof (cases "p' = p")
  case True
  then show ?thesis using assms(1) by simp
next
  case False
  then obtain t s where t: "mh_temp p = Some t" "p' = p\<lparr>mh_item := (mh_item p)[t := s]\<rparr>" using assms(2) by blast
  then have "t = spare_index p" using assms(1) by (simp add: maglev_ok_def)
  then show ?thesis using t by (intro spare_change_hidden [OF assms(1), of p' s]) simp_all
qed

lemma add_hidden:
  assumes "maglev_ok p" "maglev_add_node p name info = Inr (rc, p')"
  shows "maglev_ok p' \<and> maglev_lookup_node p' = maglev_lookup_node p"
  by (rule item_change_hidden [OF assms(1)])
     (use assms(2) in \<open>auto simp: maglev_add_node_def Let_def split: if_splits option.splits\<close>)

lemma create_hidden:
  assumes "maglev_ok p" "maglev_create_ht fuel p = Inr p'"
  shows "maglev_ok p' \<and> maglev_lookup_node p' = maglev_lookup_node p"
  by (rule item_change_hidden [OF assms(1)])
     (use assms(2) in \<open>auto simp: maglev_create_ht_def Let_def split: if_splits option.splits sum.splits prod.splits\<close>)



lemma prime_40009:
  assumes "sqr_floor sqr 40010"
  shows "is_maglev_prime sqr 40009"
proof -
  let ?s = "sqr 40010"
  have s: "0 \<le> ?s" "?s * ?s \<le> 40010" "40010 < (?s + 1) * (?s + 1)" using assms by (auto simp: sqr_floor_def)
  have "?s \<le> 200"
  proof (rule ccontr)
    assume "\<not> ?s \<le> 200"
    then have "201 * 201 \<le> ?s * ?s" by (intro mult_mono) auto
    then show False using s(2) by simp
  qed
  moreover have "200 \<le> ?s"
  proof (rule ccontr)
    assume "\<not> 200 \<le> ?s"
    then have "(?s + 1) * (?s + 1) \<le> 200 * 200" using s(1) by (intro mult_mono) auto
    then show False using s(3) by simp
  qed
  ultimately have "?s = 200" by simp
  moreover have "\<not> odd_divisor 40009 200 3" by code_simp
  ultimately show ?thesis by (simp add: is_maglev_prime_def MAGLEV_HASH_SIZE_MIN_def MAGLEV_HASH_SIZE_MAX_def)
qed

lemma search_finds:
  "is_maglev_prime sqr (int M) \<Longrightarrow> h < M \<Longrightarrow> M \<le> h + fuel \<Longrightarrow>
   \<exists>m. size_search fuel sqr h = Some m \<and> h < m \<and> m \<le> M \<and> is_maglev_prime sqr (int m)"
proof (induction fuel arbitrary: h)
  case (Suc fuel)
  show ?case
  proof (cases "is_maglev_prime sqr (int (h + 1))")
    case False
    then have "h + 1 < M" using Suc.prems by (metis add.commute less_iff_succ_less_eq order_le_less plus_1_eq_Suc Suc_leI)
    then show ?thesis using Suc.IH [of "h + 1"] Suc.prems False by (auto simp: Let_def)
  qed (use Suc.prems in auto)
qed simp

lemma search_endless: "40009 \<le> h \<Longrightarrow> size_search fuel sqr h = None"
  by (induction fuel arbitrary: h) (simp_all add: is_maglev_prime_def MAGLEV_HASH_SIZE_MAX_def Let_def)



end
