(* ===== verification/Multiline.thy ===== *)
theory Multiline
  imports Prelude
begin

text \<open>
  Assembling log records from raw chunks (\<open>src/src/common/multiline.c\<close>): splitting a stream into lines
  and joining lines into records by a start and a condition pattern.

  The regular expressions are the argument \<open>compile\<close>, which turns a pattern into the test it makes on a
  line, or fails.  The callback is the list of records it is called with.  The buffer of the assembler is
  its content; its capacity is kept, so that writes can be checked against it.  Allocation does not fail.
\<close>

section \<open>Definitions\<close>

datatype alligator_ml_mode = CONTINUE_THROUGH | CONTINUE_PAST | HALT_BEFORE | HALT_WITH

record alligator_multiline =
  ml_start :: "string \<Rightarrow> bool"
  ml_cond :: "string \<Rightarrow> bool"
  ml_mode :: alligator_ml_mode
  ml_buf :: string
  ml_cap :: nat
  ml_have :: bool

record alligator_linebuf =
  lb_tail :: string
  lb_ml :: "alligator_multiline option"

definition alligator_ml_mode_from_str :: "string \<Rightarrow> alligator_ml_mode option" where
  "alligator_ml_mode_from_str s =
     (if s = ''continue_through'' then Some CONTINUE_THROUGH
      else if s = ''continue_past'' then Some CONTINUE_PAST
      else if s = ''halt_before'' then Some HALT_BEFORE
      else if s = ''halt_with'' then Some HALT_WITH
      else None)"

definition alligator_ml_mode_to_str :: "alligator_ml_mode \<Rightarrow> string" where
  "alligator_ml_mode_to_str mode =
     (case mode of
        CONTINUE_THROUGH \<Rightarrow> ''continue_through''
      | CONTINUE_PAST \<Rightarrow> ''continue_past''
      | HALT_BEFORE \<Rightarrow> ''halt_before''
      | HALT_WITH \<Rightarrow> ''halt_with'')"

datatype ml_error = Patterns_required | Invalid_start | Invalid_condition

definition alligator_multiline_new ::
    "(string \<Rightarrow> (string \<Rightarrow> bool) option) \<Rightarrow> string option \<Rightarrow> string option \<Rightarrow> alligator_ml_mode \<Rightarrow> ml_error + alligator_multiline" where
  "alligator_multiline_new compile start_pattern condition_pattern mode =
     (case (start_pattern, condition_pattern) of
        (Some s, Some c) \<Rightarrow>
          if s = [] \<or> c = [] then Inl Patterns_required
          else (case compile s of
                  None \<Rightarrow> Inl Invalid_start
                | Some start_re \<Rightarrow>
                    (case compile c of
                       None \<Rightarrow> Inl Invalid_condition
                     | Some cond_re \<Rightarrow> Inr \<lparr>ml_start = start_re, ml_cond = cond_re, ml_mode = mode, ml_buf = [], ml_cap = 0, ml_have = False\<rparr>))
      | _ \<Rightarrow> Inl Patterns_required)"

text \<open>The loop that doubles the capacity; it starts at a positive one.\<close>

function grow :: "nat \<Rightarrow> nat \<Rightarrow> nat" where
  "grow cap need = (if 0 < cap \<and> cap < need then grow (2 * cap) need else cap)"
  by pat_completeness auto

termination grow
  by (relation "measure (\<lambda>(cap, need). need - cap)") auto

declare grow.simps [simp del]

definition ml_reserve :: "alligator_multiline \<Rightarrow> nat \<Rightarrow> alligator_multiline" where
  "ml_reserve ml extra =
     (let need = length (ml_buf ml) + extra + 1
      in if need \<le> ml_cap ml then ml
         else ml\<lparr>ml_cap := grow (if ml_cap ml \<noteq> 0 then ml_cap ml * 2 else 256) need\<rparr>)"

definition ml_append :: "alligator_multiline \<Rightarrow> string \<Rightarrow> alligator_multiline" where
  "ml_append ml line =
     (let ml = ml_reserve ml (length line + 1);
          buf = (if ml_have ml \<and> ml_buf ml \<noteq> [] then ml_buf ml @ [CHR 0x0A] else ml_buf ml)
      in ml\<lparr>ml_buf := buf @ line, ml_have := True\<rparr>)"

definition ml_emit :: "alligator_multiline \<Rightarrow> string list \<times> alligator_multiline" where
  "ml_emit ml = (if \<not> ml_have ml then ([], ml) else ([ml_buf ml], ml\<lparr>ml_buf := [], ml_have := False\<rparr>))"

definition alligator_multiline_feed :: "alligator_multiline \<Rightarrow> string \<Rightarrow> string list \<times> alligator_multiline" where
  "alligator_multiline_feed ml line =
     (let is_start = ml_start ml line; is_cond = ml_cond ml line
      in if \<not> ml_have ml
         then if is_start
              then let ml = ml_append ml line
                   in if ml_mode ml = HALT_WITH \<and> is_cond then ml_emit ml else ([], ml)
              else ([line], ml)
         else case ml_mode ml of
           CONTINUE_THROUGH \<Rightarrow>
             if is_cond then ([], ml_append ml line)
             else (case ml_emit ml of (out, ml) \<Rightarrow>
                     if is_start then (out, ml_append ml line) else (out @ [line], ml))
         | CONTINUE_PAST \<Rightarrow>
             if is_cond then ([], ml_append ml line) else ml_emit (ml_append ml line)
         | HALT_BEFORE \<Rightarrow>
             if is_cond then (case ml_emit ml of (out, ml) \<Rightarrow> (out, ml_append ml line)) else ([], ml_append ml line)
         | HALT_WITH \<Rightarrow>
             let ml = ml_append ml line
             in if is_cond then ml_emit ml else ([], ml))"

definition alligator_multiline_flush :: "alligator_multiline \<Rightarrow> string list \<times> alligator_multiline" where
  "alligator_multiline_flush ml = ml_emit ml"

subsection \<open>Lines\<close>

definition alligator_linebuf_init :: alligator_linebuf where
  "alligator_linebuf_init = \<lparr>lb_tail = [], lb_ml = None\<rparr>"

definition alligator_linebuf_enable_ml ::
    "(string \<Rightarrow> (string \<Rightarrow> bool) option) \<Rightarrow> alligator_linebuf \<Rightarrow> string option \<Rightarrow> string option \<Rightarrow> alligator_ml_mode \<Rightarrow> int \<times> alligator_linebuf" where
  "alligator_linebuf_enable_ml compile lb start_pattern condition_pattern mode =
     (case alligator_multiline_new compile start_pattern condition_pattern mode of
        Inl e \<Rightarrow> (- 1, lb\<lparr>lb_ml := None\<rparr>)
      | Inr ml \<Rightarrow> (0, lb\<lparr>lb_ml := Some ml\<rparr>))"

definition linebuf_feed_physical :: "alligator_linebuf \<Rightarrow> string \<Rightarrow> string list \<times> alligator_linebuf" where
  "linebuf_feed_physical lb line =
     (case lb_ml lb of
        None \<Rightarrow> ([line], lb)
      | Some ml \<Rightarrow> (case alligator_multiline_feed ml line of (out, ml') \<Rightarrow> (out, lb\<lparr>lb_ml := Some ml'\<rparr>)))"

definition strip_cr :: "string \<Rightarrow> string" where
  "strip_cr line = (if line \<noteq> [] \<and> last line = CHR 0x0D then butlast line else line)"

text \<open>
  The loop over the bytes of a chunk behind the saved tail: \<open>line\<close> holds the bytes since \<open>start\<close>.  It
  gives the records, the state and the bytes after the last newline.
\<close>

fun feed_loop :: "alligator_linebuf \<Rightarrow> string \<Rightarrow> string \<Rightarrow> string list \<times> alligator_linebuf \<times> string" where
  "feed_loop lb line [] = ([], lb, line)"
| "feed_loop lb line (c # cs) =
     (if c \<noteq> CHR 0x0A then feed_loop lb (line @ [c]) cs
      else case linebuf_feed_physical lb (strip_cr line) of (out, lb1) \<Rightarrow>
             (case feed_loop lb1 [] cs of (out', lb2, rest) \<Rightarrow> (out @ out', lb2, rest)))"

definition alligator_linebuf_feed :: "alligator_linebuf \<Rightarrow> string \<Rightarrow> string list \<times> alligator_linebuf" where
  "alligator_linebuf_feed lb data =
     (if data = [] then ([], lb)
      else case feed_loop lb [] (lb_tail lb @ data) of (out, lb1, rest) \<Rightarrow> (out, lb1\<lparr>lb_tail := rest\<rparr>))"

definition alligator_linebuf_flush :: "alligator_linebuf \<Rightarrow> string list \<times> alligator_linebuf" where
  "alligator_linebuf_flush lb =
     (let (out, lb1) = (if lb_tail lb \<noteq> [] then (case linebuf_feed_physical lb (lb_tail lb) of (out, lb1) \<Rightarrow> (out, lb1\<lparr>lb_tail := []\<rparr>))
                        else ([], lb))
      in case lb_ml lb1 of
           None \<Rightarrow> (out, lb1)
         | Some ml \<Rightarrow> (case alligator_multiline_flush ml of (out', ml') \<Rightarrow> (out @ out', lb1\<lparr>lb_ml := Some ml'\<rparr>)))"

section \<open>Capacity\<close>

lemma grow_ge: "0 < cap \<Longrightarrow> need \<le> grow cap need"
  by (induction cap need rule: grow.induct) (simp add: grow.simps)

text \<open>The content of the buffer and its terminator are inside the capacity.\<close>

definition ml_fits :: "alligator_multiline \<Rightarrow> bool" where
  "ml_fits ml \<longleftrightarrow> ml_buf ml = [] \<or> length (ml_buf ml) < ml_cap ml"

lemma append_fits: "length (ml_buf (ml_append ml line)) < ml_cap (ml_append ml line)"
proof -
  have "length (ml_buf ml) + (length line + 1) + 1 \<le> ml_cap (ml_reserve ml (length line + 1))"
    using grow_ge [of "if ml_cap ml \<noteq> 0 then ml_cap ml * 2 else 256"] by (auto simp: ml_reserve_def Let_def)
  moreover have "ml_buf (ml_reserve ml n) = ml_buf ml" for n by (simp add: ml_reserve_def Let_def)
  ultimately show ?thesis by (auto simp: ml_append_def Let_def)
qed

lemma feed_fits: "ml_fits ml \<Longrightarrow> ml_fits (snd (alligator_multiline_feed ml line))"
  using append_fits
  by (auto simp: alligator_multiline_feed_def ml_fits_def ml_emit_def Let_def split: alligator_ml_mode.splits prod.splits)

section \<open>Chunks\<close>

lemma feed_physical_tail: "linebuf_feed_physical (lb\<lparr>lb_tail := t\<rparr>) line = (case linebuf_feed_physical lb line of (out, lb1) \<Rightarrow> (out, lb1\<lparr>lb_tail := t\<rparr>))"
  by (simp add: linebuf_feed_physical_def split: option.splits prod.splits)

lemma feed_loop_tail:
  "feed_loop (lb\<lparr>lb_tail := t\<rparr>) line cs = (case feed_loop lb line cs of (out, lb1, rest) \<Rightarrow> (out, lb1\<lparr>lb_tail := t\<rparr>, rest))"
  by (induction lb line cs rule: feed_loop.induct) (simp_all add: feed_physical_tail split: prod.splits)

lemma feed_loop_line: "CHR 0x0A \<notin> set zs \<Longrightarrow> feed_loop lb line (zs @ ys) = feed_loop lb (line @ zs) ys"
  by (induction zs arbitrary: line) auto

lemma feed_loop_append:
  "feed_loop lb line (xs @ ys) =
     (case feed_loop lb line xs of (out, lb1, rest) \<Rightarrow> (case feed_loop lb1 rest ys of (out', lb2, rest') \<Rightarrow> (out @ out', lb2, rest')))"
  by (induction lb line xs rule: feed_loop.induct) (simp_all split: prod.splits)

lemma feed_loop_rest: "feed_loop lb line cs = (out, lb1, rest) \<Longrightarrow> CHR 0x0A \<notin> set line \<Longrightarrow> CHR 0x0A \<notin> set rest"
  by (induction lb line cs arbitrary: out rule: feed_loop.induct) (auto split: if_splits prod.splits)

lemma linebuf_feed_append:
  assumes "CHR 0x0A \<notin> set (lb_tail lb)"
  shows "alligator_linebuf_feed lb (xs @ ys) =
    (case alligator_linebuf_feed lb xs of (out, lb1) \<Rightarrow> (case alligator_linebuf_feed lb1 ys of (out', lb2) \<Rightarrow> (out @ out', lb2)))"
proof (cases "xs = [] \<or> ys = []")
  case True
  then show ?thesis by (auto simp: alligator_linebuf_feed_def split: prod.splits)
next
  case False
  obtain out lb1 rest where 1: "feed_loop lb [] (lb_tail lb @ xs) = (out, lb1, rest)" by (metis prod_cases3)
  obtain out' lb2 rest' where 2: "feed_loop lb1 rest ys = (out', lb2, rest')" by (metis prod_cases3)
  have "CHR 0x0A \<notin> set rest" using feed_loop_rest [OF 1] by simp
  then have "feed_loop (lb1\<lparr>lb_tail := rest\<rparr>) [] (rest @ ys) = (out', lb2\<lparr>lb_tail := rest\<rparr>, rest')"
    using 2 feed_loop_line [of rest _ "[]" ys] feed_loop_tail [where lb = lb1 and t = rest and line = rest and cs = ys] by simp
  moreover have "feed_loop lb [] (lb_tail lb @ xs @ ys) = (out @ out', lb2, rest')"
    using feed_loop_append [of lb "[]" "lb_tail lb @ xs" ys] 1 2 by simp
  ultimately show ?thesis using False 1 by (simp add: alligator_linebuf_feed_def)
qed

lemma linebuf_feed_tail: "CHR 0x0A \<notin> set (lb_tail lb) \<Longrightarrow> CHR 0x0A \<notin> set (lb_tail (snd (alligator_linebuf_feed lb data)))"
  using feed_loop_rest [of lb "[]" "lb_tail lb @ data"] by (auto simp: alligator_linebuf_feed_def split: prod.splits)

fun feed_chunks :: "alligator_linebuf \<Rightarrow> string list \<Rightarrow> string list \<times> alligator_linebuf" where
  "feed_chunks lb [] = ([], lb)"
| "feed_chunks lb (data # chunks) =
     (case alligator_linebuf_feed lb data of (out, lb1) \<Rightarrow> (case feed_chunks lb1 chunks of (out', lb2) \<Rightarrow> (out @ out', lb2)))"

section \<open>Groups of lines\<close>

text \<open>The text of a group of lines: a newline is put only behind text.\<close>

definition ml_join :: "string list \<Rightarrow> string" where
  "ml_join ls = foldl (\<lambda>b l. if b \<noteq> [] then b @ [CHR 0x0A] @ l else b @ l) [] ls"

lemma ml_join_snoc: "ml_join (ls @ [l]) = (if ml_join ls \<noteq> [] then ml_join ls @ [CHR 0x0A] @ l else ml_join ls @ l)"
  by (simp add: ml_join_def)

text \<open>The assembler over lines instead of a buffer; a group that a start pattern opened is marked.\<close>

type_synonym group = "bool \<times> string list"

definition group_step :: "alligator_ml_mode \<Rightarrow> (string \<Rightarrow> bool) \<Rightarrow> (string \<Rightarrow> bool) \<Rightarrow> string list \<Rightarrow> string \<Rightarrow> group list \<times> string list" where
  "group_step mode start cond p l =
     (if p = []
      then if start l then if mode = HALT_WITH \<and> cond l then ([(True, [l])], []) else ([], [l]) else ([(False, [l])], [])
      else case mode of
        CONTINUE_THROUGH \<Rightarrow> if cond l then ([], p @ [l]) else if start l then ([(True, p)], [l]) else ([(True, p), (False, [l])], [])
      | CONTINUE_PAST \<Rightarrow> if cond l then ([], p @ [l]) else ([(True, p @ [l])], [])
      | HALT_BEFORE \<Rightarrow> if cond l then ([(True, p)], [l]) else ([], p @ [l])
      | HALT_WITH \<Rightarrow> if cond l then ([(True, p @ [l])], []) else ([], p @ [l]))"

fun collect :: "alligator_ml_mode \<Rightarrow> (string \<Rightarrow> bool) \<Rightarrow> (string \<Rightarrow> bool) \<Rightarrow> string list \<Rightarrow> string list \<Rightarrow> group list" where
  "collect mode start cond p [] = (if p = [] then [] else [(True, p)])"
| "collect mode start cond p (l # ls) = (case group_step mode start cond p l of (gs, p') \<Rightarrow> gs @ collect mode start cond p' ls)"

definition holds :: "alligator_multiline \<Rightarrow> string list \<Rightarrow> bool" where
  "holds ml p \<longleftrightarrow> ml_buf ml = ml_join p \<and> (ml_have ml \<longleftrightarrow> p \<noteq> [])"

definition same_patterns :: "alligator_multiline \<Rightarrow> alligator_multiline \<Rightarrow> bool" where
  "same_patterns ml ml' \<longleftrightarrow> ml_start ml' = ml_start ml \<and> ml_cond ml' = ml_cond ml \<and> ml_mode ml' = ml_mode ml"

lemma append_holds: "holds ml p \<Longrightarrow> holds (ml_append ml l) (p @ [l]) \<and> same_patterns ml (ml_append ml l)"
  by (auto simp: holds_def ml_append_def ml_reserve_def Let_def ml_join_snoc ml_join_def same_patterns_def)

lemma emit_holds:
  "holds ml p \<Longrightarrow> p \<noteq> [] \<Longrightarrow> fst (ml_emit ml) = [ml_join p] \<and> holds (snd (ml_emit ml)) [] \<and> same_patterns ml (snd (ml_emit ml))"
  by (auto simp: holds_def ml_emit_def ml_join_def same_patterns_def)

lemma feed_group_step:
  assumes "holds ml p" "group_step (ml_mode ml) (ml_start ml) (ml_cond ml) p line = (gs, p')"
  shows "fst (alligator_multiline_feed ml line) = map (ml_join \<circ> snd) gs \<and> holds (snd (alligator_multiline_feed ml line)) p' \<and>
    same_patterns ml (snd (alligator_multiline_feed ml line))"
proof -
  have one: "ml_join [line] = line" by (simp add: ml_join_def)
  have self: "same_patterns ml ml" by (simp add: same_patterns_def)
  have h: "ml_have ml \<longleftrightarrow> p \<noteq> []" using assms(1) by (simp add: holds_def)
  note a = append_holds [OF assms(1), of line]
  note ae = emit_holds [of "ml_append ml line" "p @ [line]"]
  note e = emit_holds [OF assms(1)]
  note ea = append_holds [of "snd (ml_emit ml)" "[]" line]
  have trans: "same_patterns x y \<Longrightarrow> same_patterns y z \<Longrightarrow> same_patterns x z" for x y z by (simp add: same_patterns_def)
  show ?thesis
  proof (cases "p = []")
    case True
    have m: "ml_mode (ml_append ml line) = ml_mode ml" using a by (simp add: same_patterns_def)
    show ?thesis using True assms h a ae one self m trans [of ml "ml_append ml line" "snd (ml_emit (ml_append ml line))"]
      by (auto simp: alligator_multiline_feed_def group_step_def Let_def split: if_splits)
  next
    case False
    show ?thesis using False assms h a ae e ea one self
        trans [of ml "ml_append ml line" "snd (ml_emit (ml_append ml line))"] trans [of ml "snd (ml_emit ml)" "ml_append (snd (ml_emit ml)) line"]
      by (cases "ml_mode ml") (auto simp: alligator_multiline_feed_def group_step_def Let_def split_def split: if_splits)
  qed
qed

fun feed_lines :: "alligator_multiline \<Rightarrow> string list \<Rightarrow> string list" where
  "feed_lines ml [] = fst (alligator_multiline_flush ml)"
| "feed_lines ml (l # ls) = (case alligator_multiline_feed ml l of (out, ml') \<Rightarrow> out @ feed_lines ml' ls)"

lemma feed_lines_collect:
  "holds ml p \<Longrightarrow> feed_lines ml ls = map (ml_join \<circ> snd) (collect (ml_mode ml) (ml_start ml) (ml_cond ml) p ls)"
proof (induction ls arbitrary: ml p)
  case Nil
  then show ?case by (auto simp: alligator_multiline_flush_def ml_emit_def holds_def)
next
  case (Cons l ls)
  obtain gs p' where g: "group_step (ml_mode ml) (ml_start ml) (ml_cond ml) p l = (gs, p')" by fastforce
  obtain out ml' where f: "alligator_multiline_feed ml l = (out, ml')" by fastforce
  have s: "out = map (ml_join \<circ> snd) gs" "holds ml' p'" "same_patterns ml ml'" using feed_group_step [OF Cons.prems g] f by auto
  then show ?case using Cons.IH [OF s(2)] g f by (simp add: same_patterns_def)
qed

text \<open>What a group looks like in each mode; a line no group takes is a group of its own.\<close>

definition valid_group :: "alligator_ml_mode \<Rightarrow> (string \<Rightarrow> bool) \<Rightarrow> (string \<Rightarrow> bool) \<Rightarrow> group \<Rightarrow> bool" where
  "valid_group mode start cond g \<longleftrightarrow> (case g of (opened, ls) \<Rightarrow> ls \<noteq> [] \<and>
     (if \<not> opened then length ls = 1 \<and> \<not> start (hd ls)
      else case mode of
        CONTINUE_THROUGH \<Rightarrow> start (hd ls) \<and> (\<forall>l \<in> set (tl ls). cond l)
      | CONTINUE_PAST \<Rightarrow> start (hd ls) \<and> (\<forall>l \<in> set (butlast (tl ls)). cond l)
      | HALT_BEFORE \<Rightarrow> (start (hd ls) \<or> cond (hd ls)) \<and> (\<forall>l \<in> set (tl ls). \<not> cond l)
      | HALT_WITH \<Rightarrow> start (hd ls) \<and> (\<forall>l \<in> set (butlast ls). \<not> cond l)))"

text \<open>Why an opened group ends before the line \<open>l'\<close>.\<close>

definition sealed :: "alligator_ml_mode \<Rightarrow> (string \<Rightarrow> bool) \<Rightarrow> group \<Rightarrow> string \<Rightarrow> bool" where
  "sealed mode cond g l' \<longleftrightarrow> (case g of (opened, ls) \<Rightarrow> opened \<longrightarrow>
     (case mode of
        CONTINUE_THROUGH \<Rightarrow> \<not> cond l'
      | CONTINUE_PAST \<Rightarrow> tl ls \<noteq> [] \<and> \<not> cond (last ls)
      | HALT_BEFORE \<Rightarrow> cond l'
      | HALT_WITH \<Rightarrow> cond (last ls)))"

fun all_sealed :: "alligator_ml_mode \<Rightarrow> (string \<Rightarrow> bool) \<Rightarrow> group list \<Rightarrow> bool" where
  "all_sealed mode cond (g # g' # gs) \<longleftrightarrow> sealed mode cond g (hd (snd g')) \<and> all_sealed mode cond (g' # gs)"
| "all_sealed mode cond gs \<longleftrightarrow> True"

text \<open>The lines an assembler holds between two lines.\<close>

definition open_group :: "alligator_ml_mode \<Rightarrow> (string \<Rightarrow> bool) \<Rightarrow> (string \<Rightarrow> bool) \<Rightarrow> string list \<Rightarrow> bool" where
  "open_group mode start cond p \<longleftrightarrow> p = [] \<or>
     (case mode of
        CONTINUE_THROUGH \<Rightarrow> start (hd p) \<and> (\<forall>l \<in> set (tl p). cond l)
      | CONTINUE_PAST \<Rightarrow> start (hd p) \<and> (\<forall>l \<in> set (tl p). cond l)
      | HALT_BEFORE \<Rightarrow> (start (hd p) \<or> cond (hd p)) \<and> (\<forall>l \<in> set (tl p). \<not> cond l)
      | HALT_WITH \<Rightarrow> start (hd p) \<and> (\<forall>l \<in> set p. \<not> cond l))"

lemma in_butlast: "x \<in> set (butlast xs) \<Longrightarrow> x \<in> set xs"
  by (rule in_set_butlastD)

lemma open_valid: "open_group mode start cond p \<Longrightarrow> p \<noteq> [] \<Longrightarrow> valid_group mode start cond (True, p)"
  by (cases mode) (auto simp: open_group_def valid_group_def dest: in_butlast)

lemma group_step_ok:
  assumes "open_group mode start cond p" "group_step mode start cond p l = (gs, p')"
  shows "open_group mode start cond p' \<and> (\<forall>g \<in> set gs. valid_group mode start cond g) \<and> concat (map snd gs) @ p' = p @ [l]"
proof (cases "p = []")
  case True
  then show ?thesis using assms(2)
    by (cases mode) (auto simp: group_step_def open_group_def valid_group_def split: if_splits)
next
  case False
  note v = open_valid [OF assms(1) False]
  have "tl (p @ [l]) = tl p @ [l]" "hd (p @ [l]) = hd p" using False by (cases p; simp)+
  then show ?thesis using False assms v
    by (cases mode) (auto simp: group_step_def open_group_def valid_group_def butlast_append split: if_splits)
qed

lemma collect_ok:
  "open_group mode start cond p \<Longrightarrow>
   (\<forall>g \<in> set (collect mode start cond p ls). valid_group mode start cond g) \<and> concat (map snd (collect mode start cond p ls)) = p @ ls"
proof (induction ls arbitrary: p)
  case Nil
  then show ?case using open_valid by auto
next
  case (Cons l ls)
  obtain gs p' where g: "group_step mode start cond p l = (gs, p')" by fastforce
  note s = group_step_ok [OF Cons.prems g]
  then show ?case using Cons.IH [of p'] g by (auto simp flip: append_assoc)
qed

lemma collect_first:
  assumes "open_group mode start cond p" "collect mode start cond p ls = g # gs"
  shows "hd (snd g) = hd (p @ ls)"
proof -
  have "valid_group mode start cond g" "snd g @ concat (map snd gs) = p @ ls" using collect_ok [OF assms(1), of ls] assms(2) by auto
  moreover have "snd g \<noteq> []" using calculation(1) by (auto simp: valid_group_def)
  ultimately show ?thesis by (metis hd_append2)
qed

lemma sealed_Cons:
  assumes "\<And>g' gs'. gs = g' # gs' \<Longrightarrow> sealed mode cond g (hd (snd g'))" "all_sealed mode cond gs"
  shows "all_sealed mode cond (g # gs)"
  using assms by (cases gs) auto

lemma collect_sealed: "open_group mode start cond p \<Longrightarrow> all_sealed mode cond (collect mode start cond p ls)"
proof (induction ls arbitrary: p)
  case (Cons l ls)
  obtain gs p' where g: "group_step mode start cond p l = (gs, p')" by fastforce
  note s = group_step_ok [OF Cons.prems g]
  let ?c = "collect mode start cond p' ls"
  have IH: "all_sealed mode cond ?c" using Cons.IH s by blast
  have first: "hd (snd g') = hd (p' @ ls)" if "?c = g' # gs'" for g' gs' using collect_first [OF _ that] s by blast
  have orphan: "all_sealed mode cond ((False, x) # ?c)" for x by (rule sealed_Cons [OF _ IH]) (simp add: sealed_def)
  have "all_sealed mode cond (gs @ ?c)"
  proof (cases "p = []")
    case True
    then show ?thesis using g IH orphan
      by (auto simp: group_step_def sealed_def split: if_splits intro!: sealed_Cons)
  next
    case False
    show ?thesis
    proof (cases mode)
      case CONTINUE_THROUGH
      then show ?thesis using False g IH orphan first by (auto simp: group_step_def sealed_def split: if_splits intro!: sealed_Cons)
    next
      case CONTINUE_PAST
      then show ?thesis using False g IH first by (cases p) (auto simp: group_step_def sealed_def split: if_splits intro!: sealed_Cons)
    next
      case HALT_BEFORE
      then show ?thesis using False g IH first by (auto simp: group_step_def sealed_def split: if_splits intro!: sealed_Cons)
    next
      case HALT_WITH
      then show ?thesis using False g IH first by (auto simp: group_step_def sealed_def split: if_splits intro!: sealed_Cons)
    qed
  qed
  then show ?case using g by simp
qed simp

section \<open>Properties\<close>

text \<open>
  C20: how a stream is cut into chunks does not matter: feeding the chunks one after the other gives the same
  records and the same state as feeding all bytes at once.
\<close>

theorem linebuf_chunks_irrelevant:
  assumes "CHR 0x0A \<notin> set (lb_tail lb)"
  shows "feed_chunks lb chunks = alligator_linebuf_feed lb (concat chunks)"
  using assms
proof (induction chunks arbitrary: lb)
  case Nil
  then show ?case by (simp add: alligator_linebuf_feed_def)
next
  case (Cons data chunks)
  then show ?case using linebuf_feed_append [OF Cons.prems, of data "concat chunks"] linebuf_feed_tail [OF Cons.prems, of data]
    by (auto split: prod.splits)
qed

theorem linebuf_chunks_irrelevant_witness:
  "feed_chunks alligator_linebuf_init [''ab'', ''c'', ''d''] = alligator_linebuf_feed alligator_linebuf_init ''abcd''"
  using linebuf_chunks_irrelevant [of alligator_linebuf_init "[''ab'', ''c'', ''d'']"] by (simp add: alligator_linebuf_init_def)



end
