(* ===== verification/Wire.thy ===== *)
theory Wire
  imports Prelude
begin

text \<open>
  The protobuf wire format (\<open>src/src/common/protobuf_wire.c\<close>): varints, fixed 64-bit values, length
  delimited fields, and skipping a field.

  The pointer into the input and its end are the list of the bytes that remain; a reader gives the value, None
  for failure, and the bytes that remain after it.  A writer gives the destination with the bytes it appends.
\<close>

section \<open>Definitions\<close>

type_synonym byte = "8 word"

fun varint_loop :: "64 word \<Rightarrow> nat \<Rightarrow> byte list \<Rightarrow> 64 word option \<times> byte list" where
  "varint_loop v shift [] = (None, [])"
| "varint_loop v shift (b # p) =
     (if shift < 64
      then let v' = v OR push_bit shift (ucast (b AND 0x7f))
           in if b AND 0x80 = 0 then (Some v', p) else varint_loop v' (shift + 7) p
      else (None, b # p))"

definition pbwire_read_varint :: "byte list \<Rightarrow> 64 word option \<times> byte list" where
  "pbwire_read_varint p = varint_loop 0 0 p"

fun fixed_loop :: "64 word \<Rightarrow> nat \<Rightarrow> byte list \<Rightarrow> 64 word" where
  "fixed_loop v i [] = v"
| "fixed_loop v i (b # bs) = fixed_loop (v OR push_bit (8 * i) (ucast b)) (i + 1) bs"

definition pbwire_read_fixed64 :: "byte list \<Rightarrow> 64 word option \<times> byte list" where
  "pbwire_read_fixed64 p = (if length p < 8 then (None, p) else (Some (fixed_loop 0 0 (take 8 p)), drop 8 p))"

definition pbwire_read_len :: "byte list \<Rightarrow> byte list option \<times> byte list" where
  "pbwire_read_len p =
     (case pbwire_read_varint p of
        (None, p') \<Rightarrow> (None, p')
      | (Some l, p') \<Rightarrow> if unat l > length p' then (None, p') else (Some (take (unat l) p'), drop (unat l) p'))"

definition pbwire_skip_field :: "byte list \<Rightarrow> nat \<Rightarrow> bool \<times> byte list" where
  "pbwire_skip_field p wire =
     (if wire = 0 then (case pbwire_read_varint p of (t, p') \<Rightarrow> (t \<noteq> None, p'))
      else if wire = 1 then (case pbwire_read_fixed64 p of (t, p') \<Rightarrow> (t \<noteq> None, p'))
      else if wire = 2 then (case pbwire_read_len p of (s, p') \<Rightarrow> (s \<noteq> None, p'))
      else if wire = 5 then if length p < 4 then (False, p) else (True, drop 4 p)
      else (False, p))"

text \<open>The loop of \<open>pbwire_write_varint\<close>; the first argument is the room left in its buffer.\<close>

fun varint_bytes :: "nat \<Rightarrow> 64 word \<Rightarrow> byte list" where
  "varint_bytes 0 v = []"
| "varint_bytes (Suc room) v =
     (let b = ucast (v AND 0x7f) :: byte; v' = drop_bit 7 v
      in if v' \<noteq> 0 then (b OR 0x80) # varint_bytes room v' else [b])"

definition pbwire_write_varint :: "byte list \<Rightarrow> 64 word \<Rightarrow> byte list" where
  "pbwire_write_varint dst v = dst @ varint_bytes 10 v"

definition pbwire_write_tag :: "byte list \<Rightarrow> 32 word \<Rightarrow> byte \<Rightarrow> byte list" where
  "pbwire_write_tag dst field wire = pbwire_write_varint dst (push_bit 3 (ucast field) OR ucast (wire AND 0x7))"

definition pbwire_write_len :: "byte list \<Rightarrow> byte list \<Rightarrow> byte list" where
  "pbwire_write_len dst data =
     (let dst1 = pbwire_write_varint dst (word_of_nat (length data)) in if data \<noteq> [] then dst1 @ data else dst1)"

definition pbwire_write_field_lenmsg :: "byte list \<Rightarrow> 32 word \<Rightarrow> byte list \<Rightarrow> byte list" where
  "pbwire_write_field_lenmsg dst field msg = pbwire_write_len (pbwire_write_tag dst field 2) msg"

definition pbwire_write_field_fixed64 :: "byte list \<Rightarrow> 32 word \<Rightarrow> 64 word \<Rightarrow> byte list" where
  "pbwire_write_field_fixed64 dst field raw =
     pbwire_write_tag dst field 1 @ map (\<lambda>i. ucast (drop_bit (8 * i) raw AND 0xff)) [0..<8]"

section \<open>Varints\<close>

lemma mask_numerals: "(0x7f :: 'a :: len word) = mask 7" "(0xff :: 'a :: len word) = mask 8"
  by (simp_all add: mask_eq_exp_minus_1)

lemma bit_0x80: "bit (0x80 :: byte) n \<longleftrightarrow> n = 7"
proof -
  have "(0x80 :: byte) = 2 ^ 7" by simp
  then have "bit (0x80 :: byte) n = bit (2 ^ 7 :: byte) n" by (rule arg_cong)
  also have "\<dots> \<longleftrightarrow> n = 7" unfolding bit_exp_iff by auto
  finally show ?thesis .
qed

lemma flagged_byte:
  fixes B :: byte
  assumes B: "\<And>n. bit B n \<longleftrightarrow> n = 7"
  shows "ucast ((ucast (v AND mask 7) OR B) AND mask 7) = (v AND mask 7 :: 64 word)"
    "(ucast (v AND mask 7 :: 64 word) OR B) AND B \<noteq> 0" "ucast (v AND mask 7 :: 64 word) AND B = 0"
proof -
  show "ucast ((ucast (v AND mask 7) OR B) AND mask 7) = (v AND mask 7 :: 64 word)"
    by (rule bit_eqI) (auto simp: bit_simps B)
  show "ucast (v AND mask 7 :: 64 word) AND B = 0" by (rule bit_eqI) (auto simp: bit_simps B)
  have "bit ((ucast (v AND mask 7 :: 64 word) OR B) AND B) 7" by (simp add: bit_simps B)
  then show "(ucast (v AND mask 7 :: 64 word) OR B) AND B \<noteq> 0" by (metis bit_0_eq bot_apply bot_bool_def)
qed

lemma group_byte:
  "ucast ((ucast (v AND 0x7f) OR 0x80 :: byte) AND 0x7f) = (v AND 0x7f :: 64 word)"
  "(ucast (v AND 0x7f :: 64 word) OR 0x80 :: byte) AND 0x80 \<noteq> 0"
  "ucast ((ucast (v AND 0x7f) :: byte) AND 0x7f) = (v AND 0x7f :: 64 word)"
  "(ucast (v AND 0x7f :: 64 word) :: byte) AND 0x80 = 0"
proof -
  show "ucast ((ucast (v AND 0x7f) :: byte) AND 0x7f) = (v AND 0x7f :: 64 word)"
    unfolding mask_numerals by (rule bit_eqI) (auto simp: bit_simps)
qed (simp_all only: mask_numerals flagged_byte [OF bit_0x80] not_False_eq_True)

lemma varint_split: "push_bit s (v AND 0x7f) OR push_bit (s + 7) (drop_bit 7 v) = (push_bit s v :: 64 word)"
  unfolding mask_numerals
proof (rule bit_eqI)
  fix n
  have k: "s + 7 \<le> n \<Longrightarrow> 7 + (n - (s + 7)) = n - s" by arith
  show "bit (push_bit s (v AND mask 7) OR push_bit (s + 7) (drop_bit 7 v)) n = bit (push_bit s v) n"
    by (cases "s + 7 \<le> n") (auto simp: bit_simps k)
qed

lemma varint_read_back:
  "k \<le> 10 \<Longrightarrow> 0 < k \<Longrightarrow> shift = 7 * (10 - k) \<Longrightarrow> drop_bit (64 - shift) v = 0 \<Longrightarrow>
   varint_loop acc shift (varint_bytes k v @ rest) = (Some (acc OR push_bit shift v), rest)"
proof (induction k arbitrary: shift v acc)
  case (Suc k)
  have s: "shift < 64" using Suc.prems by simp
  show ?case
  proof (cases "drop_bit 7 v = 0")
    case True
    then have "push_bit shift (v AND 0x7f) = push_bit shift v" using varint_split [of shift v] by simp
    then show ?thesis using True s group_byte(3,4) [of v] by (simp add: Let_def)
  next
    case False
    have s7: "shift + 7 \<le> 64"
    proof (rule ccontr)
      assume "\<not> shift + 7 \<le> 64"
      then have "7 = (64 - shift) + (7 - (64 - shift))" using s by arith
      then have "drop_bit 7 v = drop_bit (7 - (64 - shift)) (drop_bit (64 - shift) v)" by (metis add.commute drop_bit_drop_bit)
      then show False using Suc.prems(4) False by simp
    qed
    then have "64 - shift = (64 - (shift + 7)) + 7" by arith
    then have d: "drop_bit (64 - (shift + 7)) (drop_bit 7 v) = 0" using Suc.prems(4) by (metis drop_bit_drop_bit)
    have k: "k \<le> 10" "0 < k" "shift + 7 = 7 * (10 - k)" using Suc.prems(1,3) s7 by auto
    have "varint_loop (acc OR push_bit shift (v AND 0x7f)) (shift + 7) (varint_bytes k (drop_bit 7 v) @ rest) =
      (Some ((acc OR push_bit shift (v AND 0x7f)) OR push_bit (shift + 7) (drop_bit 7 v)), rest)"
      by (rule Suc.IH [OF k d])
    then show ?thesis using False s group_byte(1,2) [of v] varint_split [of shift v] by (simp add: Let_def or.assoc)
  qed
qed simp

lemma varint_round_trip: "pbwire_read_varint (varint_bytes 10 v @ rest) = (Some v, rest)"
  using varint_read_back [of 10 0 v 0 rest] by (simp add: pbwire_read_varint_def drop_bit_word_beyond)

section \<open>Fields\<close>

definition fixed_byte :: "64 word \<Rightarrow> nat \<Rightarrow> byte" where
  "fixed_byte raw i = ucast (drop_bit (8 * i) raw AND 0xff)"

lemma fixed_split:
  "push_bit (8 * i) (ucast (fixed_byte raw i)) OR push_bit (8 * Suc i) (drop_bit (8 * Suc i) raw) = push_bit (8 * i) (drop_bit (8 * i) raw)"
  unfolding fixed_byte_def mask_numerals
proof (rule bit_eqI)
  fix n
  have k: "8 * i \<le> n \<Longrightarrow> 8 * i + (n - 8 * i) = n" "8 * Suc i \<le> n \<Longrightarrow> 8 * Suc i + (n - 8 * Suc i) = n" by arith+
  show "bit (push_bit (8 * i) (ucast (ucast (drop_bit (8 * i) raw AND mask 8) :: byte)) OR push_bit (8 * Suc i) (drop_bit (8 * Suc i) raw)) n =
      bit (push_bit (8 * i) (drop_bit (8 * i) raw)) n"
    by (cases "8 * Suc i \<le> n"; cases "8 * i \<le> n") (auto simp: bit_simps k)
qed

lemma fixed_read_back: "i \<le> 8 \<Longrightarrow> fixed_loop acc i (map (fixed_byte raw) [i..<8]) = acc OR push_bit (8 * i) (drop_bit (8 * i) raw)"
proof (induction "8 - i" arbitrary: i acc)
  case 0
  then show ?case by (simp add: drop_bit_word_beyond)
next
  case (Suc d)
  then have "[i..<8] = i # [Suc i..<8]" by (simp add: upt_conv_Cons)
  then show ?case using Suc(1) [of "Suc i"] Suc(2,3) fixed_split [of i raw] by (simp add: or.assoc)
qed

lemma fixed_round_trip: "pbwire_read_fixed64 (map (fixed_byte raw) [0..<8] @ rest) = (Some raw, rest)"
  using fixed_read_back [of 0 0 raw] by (simp add: pbwire_read_fixed64_def)

definition tag_of :: "32 word \<Rightarrow> byte \<Rightarrow> 64 word" where
  "tag_of field wire = push_bit 3 (ucast field) OR ucast (wire AND 0x7)"

lemma write_tag_read: "pbwire_read_varint (pbwire_write_tag [] field wire @ rest) = (Some (tag_of field wire), rest)"
  by (simp add: pbwire_write_tag_def pbwire_write_varint_def tag_of_def varint_round_trip)

lemma write_len_read:
  assumes "length msg < 2 ^ 64"
  shows "pbwire_read_len (pbwire_write_len [] msg @ rest) = (Some msg, rest)"
proof -
  have "unat (word_of_nat (length msg) :: 64 word) = length msg" using assms by (simp add: unsigned_of_nat take_bit_nat_eq_self)
  then show ?thesis
    by (simp add: pbwire_read_len_def pbwire_write_len_def pbwire_write_varint_def varint_round_trip Let_def)
qed

section \<open>Properties\<close>

text \<open>
  C31: what the writers append the readers read back.  After the tag of a field the message of a length
  delimited field, respectively the value of a fixed field, is returned and exactly the field is consumed;
  skipping the field by its wire type leaves the same bytes.
\<close>

theorem wire_fields_round_trip:
  assumes "length msg < 2 ^ 64"
  shows "\<exists>p q. pbwire_read_varint (pbwire_write_field_lenmsg [] field msg @ rest) = (Some (push_bit 3 (ucast field) OR 2), p) \<and>
       pbwire_read_len p = (Some msg, rest) \<and> pbwire_skip_field p 2 = (True, rest) \<and>
     pbwire_read_varint (pbwire_write_field_fixed64 [] field raw @ rest) = (Some (push_bit 3 (ucast field) OR 1), q) \<and>
       pbwire_read_fixed64 q = (Some raw, rest) \<and> pbwire_skip_field q 1 = (True, rest)"
proof -
  let ?p = "pbwire_write_len [] msg @ rest" and ?q = "map (fixed_byte raw) [0..<8] @ rest"
  have split: "pbwire_write_len dst msg = dst @ pbwire_write_len [] msg" for dst
    by (simp add: pbwire_write_len_def pbwire_write_varint_def Let_def)
  have "pbwire_read_varint (pbwire_write_field_lenmsg [] field msg @ rest) = (Some (tag_of field 2), ?p)"
    using split [of "pbwire_write_tag [] field 2"] write_tag_read [of field 2 ?p] by (simp add: pbwire_write_field_lenmsg_def)
  moreover have "pbwire_read_varint (pbwire_write_field_fixed64 [] field raw @ rest) = (Some (tag_of field 1), ?q)"
    using write_tag_read [of field 1 ?q] by (simp add: pbwire_write_field_fixed64_def fixed_byte_def [abs_def])
  moreover have "tag_of field 2 = push_bit 3 (ucast field) OR 2" "tag_of field 1 = push_bit 3 (ucast field) OR 1"
    by (simp_all add: tag_of_def)
  ultimately show ?thesis using write_len_read [OF assms, of rest] fixed_round_trip [of raw rest]
    by (intro exI [of _ ?p] exI [of _ ?q]) (simp add: pbwire_skip_field_def)
qed

theorem wire_fields_round_trip_witness:
  "\<exists>p. pbwire_read_varint (pbwire_write_field_lenmsg [] 1 [7, 8] @ [9]) = (Some (push_bit 3 (ucast (1 :: 32 word)) OR 2), p) \<and>
     pbwire_read_len p = (Some [7, 8], [9])"
  using wire_fields_round_trip [of "[7, 8]" 1 "[9]" 0] by auto

end
