(* ===== verification/Spec2Isabelle.thy ===== *)
theory Spec2Isabelle
  imports Labels Expire_Wheel Rb_Tree Metric_Store Metric_Query Metric_Filter Metric_Add Patricia Percentile Http_Limit Maglev Multiline Wire
begin

text \<open>
  \<^bold>\<open>A verification of the core of alligator.\<close>

  Alligator is a monitoring agent written in C.  It collects samples from parsers of many formats and from
  the operating system, keeps them as series in memory, expires them, answers queries over them, publishes
  quantiles, and spreads work over a cluster.  Its listeners are guarded by access lists and request limits.
  The library models the part of it that decides what is stored and for how long, what a query returns, and
  who is served.  File names below are relative to \<open>src/src\<close>.

  \<^bold>\<open>Path of a sample.\<close>  A sample enters by \<open>metric_add\<close> or one of its variants.  The filter of its context
  may refuse it; the labels of the context are merged in; the labels are laid out as a chain against the
  sort plan of the namespace; the tree of series is searched and updated; and the expiry of the series is set in a
  timing wheel.  A purge advances the wheel and deletes the series that are due from the tree.  A query walks the
  tree with a selector that is a chain as well.

  \<^item> \<open>Prelude\<close>, \<open>C_String\<close>: functions of the C library on strings, truncating division, and the locale
    \<open>comparator\<close>, the contract of a three-way comparison, interpreted for \<open>strcmp\<close> here and in \<open>Labels\<close> for the
    comparison of slots and of chains.
  \<^item> \<open>Jansson\<close>: the functions of the JSON library, which is not part of the program, as a record that the
    definitions take as the argument \<open>J\<close>, and an instance for examples.
  \<^item> \<open>Labels\<close> (\<open>metric/labels.c\<close>): chains, sort plan, \<open>labels_cmp\<close>, \<open>labels_match\<close>, \<open>labels_initiate\<close>, \<open>labels_merge\<close>,
    the word cache, \<open>get_ttl\<close>.  Two chains compare equal exactly when they stand for the same series, also when
    the plan grew between their creation; the cache counts every reference.
  \<^item> \<open>Expiry_Index\<close>: the locale \<open>expiry_index\<close>, what the store relies on from an index of expiry times.
  \<^item> \<open>Expire_Wheel\<close> (\<open>metric/expiretree.c\<close>): the wheel with four levels, a far list and a due list, with all
    operations on a heap of nodes.  The wheel refines a map from series to expiry times and interprets
    \<open>expiry_index\<close>; advancing it makes exactly the overdue series due, across cascades, jumps and steps back.
  \<^item> \<open>Rb_Tree\<close> (\<open>metric/metrictree.c\<close>): the top-down red-black tree.  The pointers that its loops keep are the frames of a zipper; a
    pointer that no longer points where the code assumes is the error \<open>Stale_Pointer\<close>.  Insertion and deletion
    keep the invariant and the order and never reach an error.
  \<^item> \<open>Metric_Store\<close> (\<open>metric/metrictree.c\<close>, \<open>expire_purge\<close> in \<open>metric/expiretree.c\<close>): tree and wheel together.  Upsert,
    delete and purge refine the operations on the list of series.
  \<^item> \<open>Metric_Query\<close> (\<open>metric/metrictree.c\<close>, \<open>metric/labels.c\<close>): the walks over the tree that skip the subtrees where a name cannot
    occur, grouping, the tests of a query, and \<open>metric_query_gen\<close>.  The walks visit exactly the series that a
    filter over the whole tree selects.
  \<^item> \<open>Metric_Filter\<close> (\<open>metric/filter.c\<close>): reading of filter rules and the decision about a sample.
  \<^item> \<open>Metric_Add\<close> (\<open>metric/labels.c\<close>): the functions that add or update a sample, and the step relation \<open>ns_step\<close> of
    a namespace with the invariant \<open>ns_inv\<close>.
  \<^item> \<open>Percentile\<close> (\<open>metric/percentile_heap.c\<close>): heap routines, ring buffers, windows, the list of windows.  The heap lemmas are proved in
    the locale \<open>strict_order\<close> and used for both directions.
  \<^item> \<open>Patricia\<close> (\<open>common/patricia.c\<close>, \<open>common/netlib.c\<close>): the bit trie, addresses as text, rules of an access list on a
    store of verdict cells.
  \<^item> \<open>Http_Header\<close> (\<open>parsers/http_proto.c\<close>): lookup of header fields, cookies and credentials in the text of a request.
  \<^item> \<open>Http_Limit\<close> (\<open>common/http_limit.c\<close>): limits by the generic cell rate algorithm.  The bound on admitted requests is proved in
    the locale \<open>cell_rate\<close> for any state that schedules by it, and interpreted for the slots of a rule.
  \<^item> \<open>Maglev\<close> (\<open>dstructures/maglev.c\<close>, \<open>cluster/push.c\<close>): the table that spreads keys over servers.  Filling is proved in the locale
    \<open>preference_lists\<close>, for any lists that are permutations of the buckets, and interpreted for the rows that the code computes.
  \<^item> \<open>Multiline\<close> (\<open>common/multiline.c\<close>): cutting a stream into lines and joining lines to records.
  \<^item> \<open>Wire\<close> (\<open>common/protobuf_wire.c\<close>): varints, tags and fields of protobuf messages.

  The properties below span components: they hold of a namespace after any history of operations.

  \<^bold>\<open>Conventions.\<close>  A struct is a record and an enumeration a datatype.  Integers are words where they wrap and numbers where
  the code keeps them in range.  A fault of the code (NULL, a stale pointer, a read outside a text) is a value of an error type,
  and the properties show where it cannot occur or, for a few inputs, that it does.  What is not under \<open>src\<close> is a
  parameter: the JSON library (\<open>J\<close>, \<open>loads\<close>), regular expressions (\<open>compile\<close>), arithmetic on doubles (\<open>fp\<close>, \<open>dadd\<close>), the logarithm, the
  rounding and the square root of the mathematical library (\<open>lg\<close>, \<open>dceil\<close>, \<open>sqr\<close>) and the clocks (\<open>wall\<close>, \<open>now\<close>).  Operations on one object run under its
  lock in the code and are atomic steps here.

  \<^bold>\<open>Fuel.\<close>  The loop of the insertion into the red-black tree gets three times the number of nodes and a constant, which is
  enough because a rotation costs at most two rounds for every level; the loop of the deletion is a total function.  The loop over the far list and the loop that frees the wheel get the length of their list.  The passes
  of a purge get one more than the guard of the code, which counts the deletions that are left: every pass of a full purge deletes a series.  The filling of the table of a cluster takes any fuel of at
  least the number of buckets.  The search for the size of a table may not end: for more than 400 servers no fuel is enough, which is
  proved.  The sweep of windows takes any fuel of at least the number of windows.

  \<^bold>\<open>Not modelled.\<close>  The parsers of the formats of other programs (\<open>parsers\<close>), the collectors of the operating systems (\<open>system\<close>, \<open>cadvisor\<close>, \<open>smart\<close>,
  \<open>probe\<close>, \<open>x509\<close>), the event loop and its sockets (\<open>events\<close>, \<open>resolver\<close>, \<open>chromecdp\<close>, \<open>puppeteer\<close>) exist for their effects on files, sockets and
  processes.  The reader of the configuration and its interface (\<open>config\<close>, \<open>api\<close>, \<open>dynconf\<close>), the bookkeeping of named objects (\<open>action\<close>,
  \<open>scheduler\<close>, \<open>query\<close>, \<open>grok\<close>, \<open>lang\<close>, \<open>amtail\<close>, \<open>router\<close>) and the text formats of the serializers move data between these and the
  modelled core.  Memory that is released, allocation failure and logging are left out throughout.
\<close>

section \<open>Properties of a namespace\<close>

lemma add_ttl_returns:
  assumes "ns_inv cap ns" "\<forall>c \<in> set_option carg. plain_context c" "labels_ok labels"
  shows "\<exists>r ns'. metric_add_ttl env ns name labels val type carg ttl = Inr (r, ns')"
proof (cases "numbercheck name \<or> \<not> metric_filter_allow (e_compile env) (map_option a_filter carg) (Some name) labels")
  case True
  then show ?thesis by (auto simp: metric_add_ttl_def)
next
  case False
  then show ?thesis using add_ttl_stores [OF assms] by blast
qed

text \<open>
  C2: a namespace stays consistent.  After any sequence of samples added, updated or counted, of queries whose selectors
  extend the sort plan, and of deletions and purges, the tree, the wheel and the plan of the namespace are
  consistent, every stored chain has a name and fits the plan, the number of series is within the cap, and
  adding another sample returns without a fault.
\<close>

theorem namespace_history_safe:
  assumes "(ns_step C)\<^sup>*\<^sup>* (empty_namespace cap) ns" "\<forall>c \<in> C. plain_context c"
  shows "ns_inv cap ns \<and> (0 < cap \<longrightarrow> length (contents (ns_store ns)) \<le> cap) \<and>
    (\<forall>env name labels val type carg ttl. set_option carg \<subseteq> C \<longrightarrow> labels_ok labels \<longrightarrow>
      (\<exists>r ns'. metric_add_ttl env ns name labels val type carg ttl = Inr (r, ns')))"
proof -
  have i: "ns_inv cap ns" by (rule ns_reach [OF assms])
  then have "0 < cap \<longrightarrow> length (contents (ns_store ns)) \<le> cap" by (simp add: ns_inv_def history_inv_def)
  then show ?thesis using i add_ttl_returns [OF i] assms(2) by blast
qed

definition plain_env :: env where
  "plain_env = \<lparr>e_compile = (\<lambda>_. None), e_dadd = (+), e_wall = 100, e_ttl = 60\<rparr>"

lemma sample_add:
  "\<exists>r r' ns'. metric_add_ttl plain_env (empty_namespace 1) ''up'' (Some [(''job'', ''a'')]) 7 DATATYPE_UINT (None :: unit add_carg option) 0 = Inr (r, ns') \<and>
     store_series plain_env (empty_namespace 1) [(''job'', ''a'')] ''up'' DATATYPE_UINT 7 60 False = Inr (r', ns') \<and> ns_inv 1 ns'"
  using add_ttl_stores [OF empty_namespace_inv [of 1], of "None :: unit add_carg option" "Some [(''job'', ''a'')]" "''up''" plain_env 7 DATATYPE_UINT 0]
  by (simp add: labels_ok_def hash_ok_def MAIN_METRIC_NAME_def numbercheck_def isdigit_def metric_filter_allow_def metric_filter_resolve_def
      merge_context_labels_def plain_env_def get_ttl_def)

theorem namespace_history_safe_witness:
  "\<exists>ns. (ns_step ({} :: unit add_carg set))\<^sup>*\<^sup>* (empty_namespace 1) ns \<and> ns \<noteq> empty_namespace 1 \<and> ns_inv 1 ns"
proof -
  obtain r r' ns' where n: "metric_add_ttl plain_env (empty_namespace 1) ''up'' (Some [(''job'', ''a'')]) 7 DATATYPE_UINT (None :: unit add_carg option) 0 = Inr (r, ns')"
      "store_series plain_env (empty_namespace 1) [(''job'', ''a'')] ''up'' DATATYPE_UINT 7 60 False = Inr (r', ns')"
    using sample_add by blast
  have "ns_step ({} :: unit add_carg set) (empty_namespace 1) ns'"
    by (rule ns_add [OF _ _ n(1)]) (simp_all add: labels_ok_def hash_ok_def MAIN_METRIC_NAME_def)
  then have s: "(ns_step ({} :: unit add_carg set))\<^sup>*\<^sup>* (empty_namespace 1) ns'" by blast
  have "\<exists>x \<in> set (inorder (mt_root (s_tree (ns_store ns')))). name_of x = ''up'' \<and>
      map_of (series_labels (ns_plan ns') x) = map_of [(''job'', ''a'')] \<and> m_type x = DATATYPE_UINT \<and> m_u x = 7"
    by (rule store_series_node [OF empty_namespace_inv [of 1] _ _ empty_not_full _ n(2)])
      (simp_all add: hash_ok_def MAIN_METRIC_NAME_def empty_namespace_def SORTPLAN_MAX_def)
  then have "ns' \<noteq> empty_namespace 1" by (auto simp: empty_namespace_def empty_store_def)
  then show ?thesis using namespace_history_safe [OF s] s by blast
qed

text \<open>
  C1: a query returns exactly the series it asks for.  In a namespace with any history, a query for a name, a regular
  expression for names or any name, and for labels, passes to the serializer each series that has the name and
  every label of the query, once, and no other; the walk never follows a NULL pointer.
\<close>

theorem namespace_query_exact:
  assumes "(ns_step C)\<^sup>*\<^sup>* (empty_namespace cap) ns" "\<forall>c \<in> C. plain_context c"
    and "hash_ok h" "length (ns_plan ns) + length h \<le> SORTPLAN_MAX" "name \<noteq> Some []" "metrictree_query_uses_regex mqc \<longrightarrow> name = None"
    and "labels_initiate (ns_plan ns) h name False = (q, plan)"
  shows "\<exists>l. metrictree_serialize_query (s_tree (grow_plan (length plan) (ns_store ns))) q (length h) mqc = Some l \<and>
    mset l = mset (filter (\<lambda>x. wanted mqc name (name_of x) \<and> has_labels h (series_labels (ns_plan ns) x))
                    (inorder (mt_root (s_tree (ns_store ns)))))"
  by (rule ns_query_selects [OF ns_reach [OF assms(1,2)] assms(3-7)])

theorem namespace_query_exact_witness:
  "\<exists>(ns :: namespace) q plan l. labels_initiate (ns_plan ns) [(''job'', ''a'')] None False = (q, plan) \<and>
     metrictree_serialize_query (s_tree (grow_plan (length plan) (ns_store ns))) q 1 (sample_query\<lparr>q_name := None\<rparr>) = Some l \<and> l \<noteq> []"
proof -
  obtain r r' ns' where n: "metric_add_ttl plain_env (empty_namespace 1) ''up'' (Some [(''job'', ''a'')]) 7 DATATYPE_UINT (None :: unit add_carg option) 0 = Inr (r, ns')"
      "store_series plain_env (empty_namespace 1) [(''job'', ''a'')] ''up'' DATATYPE_UINT 7 60 False = Inr (r', ns')" "ns_inv 1 ns'"
    using sample_add by blast
  have h: "hash_ok [(''job'', ''a'')]" by (simp add: hash_ok_def MAIN_METRIC_NAME_def)
  have "ns_step ({} :: unit add_carg set) (empty_namespace 1) ns'"
    by (rule ns_add [OF _ _ n(1)]) (simp_all add: labels_ok_def h)
  then have s: "(ns_step ({} :: unit add_carg set))\<^sup>*\<^sup>* (empty_namespace 1) ns'" by blast
  obtain x where x: "x \<in> set (inorder (mt_root (s_tree (ns_store ns'))))" "map_of (series_labels (ns_plan ns') x) = map_of [(''job'', ''a'')]"
    using store_series_node [OF empty_namespace_inv [of 1] h _ empty_not_full _ n(2)]
    by (auto simp: empty_namespace_def SORTPLAN_MAX_def)
  obtain c where c: "labels_initiate (ns_plan (empty_namespace 1)) [(''job'', ''a'')] (Some ''up'') False = (c, ns_plan ns')"
    using store_series_ok [OF empty_namespace_inv [of 1] h, of plain_env "''up''" DATATYPE_UINT 7 60 False] n(2) by auto
  then have "ns_plan ns' = [MAIN_METRIC_NAME, ''job'']" by (simp add: empty_namespace_def labels_initiate_def labels_new_plan_node_def SORTPLAN_MAX_def)
  then have room: "length (ns_plan ns') + length [(''job'', ''a'')] \<le> SORTPLAN_MAX" by (simp add: SORTPLAN_MAX_def)
  obtain q plan where q: "labels_initiate (ns_plan ns') [(''job'', ''a'')] None False = (q, plan)" by fastforce
  obtain l where l: "metrictree_serialize_query (s_tree (grow_plan (length plan) (ns_store ns'))) q (length [(''job'', ''a'')]) (sample_query\<lparr>q_name := None\<rparr>) = Some l"
      "mset l = mset (filter (\<lambda>x. wanted (sample_query\<lparr>q_name := None\<rparr>) None (name_of x) \<and> has_labels [(''job'', ''a'')] (series_labels (ns_plan ns') x))
                    (inorder (mt_root (s_tree (ns_store ns')))))"
    using namespace_query_exact [OF s _ h _ _ _ q, of "sample_query\<lparr>q_name := None\<rparr>"] room by blast
  have "has_labels [(''job'', ''a'')] (series_labels (ns_plan ns') x)" by (simp only: has_labels_def x(2) map_le_refl)
  moreover have "wanted (sample_query\<lparr>q_name := None\<rparr>) None (name_of x)" by (simp add: wanted_def sample_query_def)
  ultimately have "x \<in> set l" using mset_eq_setD [OF l(2)] x(1) by simp
  then have "l \<noteq> []" by (cases l) simp_all
  then show ?thesis using q l(1) unfolding list.size(3,4) One_nat_def [symmetric] add_0_left by blast
qed



end
